theory Spec2Isabelle
  imports Main "HOL-Library.Word"
begin

unbundle bit_operations_syntax

chapter \<open>Command-line splitting, quoting, macro expansion and synchronous process
  bookkeeping of \<^verbatim>\<open>src/libs/utils/qtcprocess.cpp\<close>\<close>

section \<open>Characters and strings\<close>

text \<open>
  A \<^verbatim>\<open>QChar\<close> is one UTF-16 code unit and a \<^verbatim>\<open>QString\<close> a sequence of them. The C++
  \<^verbatim>\<open>int\<close> is a 32-bit word, read as two's complement by \<open>sint\<close> and compared by \<open><s\<close>.
\<close>

type_synonym qchar = "16 word"
type_synonym qstring = "qchar list"
type_synonym cint = "32 word"

definition fromLatin1 :: "string \<Rightarrow> qstring" where
  "fromLatin1 s = map of_char s"

abbreviation TAB :: qchar where "TAB \<equiv> 0x09"
abbreviation LF :: qchar where "LF \<equiv> 0x0A"
abbreviation CR :: qchar where "CR \<equiv> 0x0D"
abbreviation SPACE :: qchar where "SPACE \<equiv> 0x20"
abbreviation DQUOTE :: qchar where "DQUOTE \<equiv> 0x22"
abbreviation DOLLAR :: qchar where "DOLLAR \<equiv> 0x24"
abbreviation PERCENT :: qchar where "PERCENT \<equiv> 0x25"
abbreviation SQUOTE :: qchar where "SQUOTE \<equiv> 0x27"
abbreviation LPAREN :: qchar where "LPAREN \<equiv> 0x28"
abbreviation RPAREN :: qchar where "RPAREN \<equiv> 0x29"
abbreviation SLASH :: qchar where "SLASH \<equiv> 0x2F"
abbreviation ATSIGN :: qchar where "ATSIGN \<equiv> 0x40"
abbreviation BSLASH :: qchar where "BSLASH \<equiv> 0x5C"
abbreviation CARET :: qchar where "CARET \<equiv> 0x5E"
abbreviation UNDERSCORE :: qchar where "UNDERSCORE \<equiv> 0x5F"
abbreviation BACKTICK :: qchar where "BACKTICK \<equiv> 0x60"
abbreviation LBRACE :: qchar where "LBRACE \<equiv> 0x7B"
abbreviation RBRACE :: qchar where "RBRACE \<equiv> 0x7D"
abbreviation TILDE :: qchar where "TILDE \<equiv> 0x7E"

text \<open>\<^verbatim>\<open>QString::chop(n)\<close> removes \<open>n\<close> characters from the end (all of them when \<open>n\<close> is
  at least the size).\<close>

definition chop :: "nat \<Rightarrow> qstring \<Rightarrow> qstring" where
  "chop n s = take (length s - n) s"

text \<open>\<^verbatim>\<open>QString::replace(before, after)\<close>, with \<open>old\<close> for \<^verbatim>\<open>before\<close> and \<open>new\<close> for \<^verbatim>\<open>after\<close>:
  every occurrence of \<open>old\<close>, found left to right and not overlapping, is replaced. An
  empty \<open>old\<close> matches in front of every character and at the end.\<close>

function qreplace :: "qstring \<Rightarrow> qstring \<Rightarrow> qstring \<Rightarrow> qstring" where
  "qreplace old new s =
     (if old = [] then concat (map (\<lambda>c. new @ [c]) s) @ new
      else if s = [] then []
      else if take (length old) s = old
        then new @ qreplace old new (drop (length old) s)
      else hd s # qreplace old new (tl s))"
  by pat_completeness auto
termination
  by (relation "measure (\<lambda>(b, a, s). length s)") (auto simp: neq_Nil_conv)

declare qreplace.simps [simp del]

text \<open>\<^verbatim>\<open>QString::mid\<close>, \<^verbatim>\<open>QString::replace(pos, n, after)\<close>, \<^verbatim>\<open>QString::remove(pos, n)\<close> and
  \<^verbatim>\<open>QString::indexOf(ch, from)\<close> (\<open>None\<close> for \<open>-1\<close>), for positions inside the string.\<close>

definition mid :: "qstring \<Rightarrow> nat \<Rightarrow> nat \<Rightarrow> qstring" where
  "mid s pos n = take n (drop pos s)"

definition replaceAt :: "qstring \<Rightarrow> nat \<Rightarrow> nat \<Rightarrow> qstring \<Rightarrow> qstring" where
  "replaceAt s pos n after = take pos s @ after @ drop (pos + n) s"

definition removeAt :: "qstring \<Rightarrow> nat \<Rightarrow> nat \<Rightarrow> qstring" where
  "removeAt s pos n = take pos s @ drop (pos + n) s"

definition indexOf :: "qstring \<Rightarrow> qchar \<Rightarrow> nat \<Rightarrow> nat option" where
  "indexOf s c from =
     (case dropWhile (\<lambda>x. x \<noteq> c) (drop from s) of
        [] \<Rightarrow> None
      | _ # _ \<Rightarrow> Some (from + length (takeWhile (\<lambda>x. x \<noteq> c) (drop from s))))"

lemma indexOf_Some:
  assumes "indexOf s c from = Some i"
  shows "from \<le> i \<and> i < length s \<and> s ! i = c \<and> (\<forall>j. from \<le> j \<and> j < i \<longrightarrow> s ! j \<noteq> c)"
proof -
  let ?d = "drop from s"
  let ?tw = "takeWhile (\<lambda>x. x \<noteq> c) ?d"
  from assms obtain y ys where d: "dropWhile (\<lambda>x. x \<noteq> c) ?d = y # ys"
    and i: "i = from + length ?tw"
    by (auto simp: indexOf_def split: list.splits)
  have split: "?d = ?tw @ y # ys"
    using takeWhile_dropWhile_id [of "\<lambda>x. x \<noteq> c" ?d] d by simp
  have yc: "y = c"
    using hd_dropWhile [of "\<lambda>x. x \<noteq> c" ?d] d by simp
  have len: "length ?tw < length ?d"
    using arg_cong [OF split, of length] by simp
  have "?d ! length ?tw = y"
    using arg_cong [OF split, of "\<lambda>l. l ! length ?tw"] by (simp add: nth_append)
  then have at: "s ! i = c" using len i yc by simp
  have before: "s ! j \<noteq> c" if "from \<le> j" "j < i" for j
  proof -
    from that i have k: "j - from < length ?tw" by simp
    then have "?tw ! (j - from) \<in> set ?tw" by simp
    then have "?tw ! (j - from) \<noteq> c" using set_takeWhileD by fastforce
    moreover have "?tw ! (j - from) = ?d ! (j - from)" using k by (rule takeWhile_nth)
    moreover have "?d ! (j - from) = s ! j" using that len k by simp
    ultimately show ?thesis by simp
  qed
  from len i have "from \<le> i" "i < length s" by auto
  with at before show ?thesis by blast
qed

lemma indexOf_None: "indexOf s c from = None \<longleftrightarrow> c \<notin> set (drop from s)"
proof (cases "dropWhile (\<lambda>x. x \<noteq> c) (drop from s)")
  case Nil
  then have "\<forall>x\<in>set (drop from s). x \<noteq> c" by (simp add: dropWhile_eq_Nil_conv)
  then show ?thesis unfolding indexOf_def Nil by auto
next
  case (Cons y ys)
  then have "dropWhile (\<lambda>x. x \<noteq> c) (drop from s) \<noteq> []" by simp
  then have "\<not> (\<forall>x\<in>set (drop from s). x \<noteq> c)"
    unfolding dropWhile_eq_Nil_conv .
  then show ?thesis unfolding indexOf_def Cons by auto
qed

lemma indexOf_bounds: "indexOf s c from = Some i \<Longrightarrow> from \<le> i \<and> i < length s"
  using indexOf_Some by blast

section \<open>Character classes and the services of the host\<close>

text \<open>
  The lookup tables of the source are arrays of 16 bytes, one bit for each of the code
  points below 128: \<^verbatim>\<open>(c < sizeof(iqm) * 8) && (iqm[c / 8] & (1 << (c & 7)))\<close>.
\<close>

definition bitTest :: "nat list \<Rightarrow> qchar \<Rightarrow> bool" where
  "bitTest iqm c =
     (unat c < length iqm * 8 \<and> (iqm ! (unat c div 8)) AND (push_bit (unat c AND 7) 1) \<noteq> 0)"

definition isMetaCharWin :: "qchar \<Rightarrow> bool" where
  "isMetaCharWin c = bitTest [0x00, 0x00, 0x00, 0x00, 0x40, 0x03, 0x00, 0x50,
        0x00, 0x00, 0x00, 0x00, 0x00, 0x00, 0x00, 0x10] c"

definition isMetaUnix :: "qchar \<Rightarrow> bool" where
  "isMetaUnix c = bitTest [0x00, 0x00, 0x00, 0x00, 0xdc, 0x07, 0x00, 0xd8,
        0x00, 0x00, 0x00, 0x38, 0x01, 0x00, 0x00, 0x38] c"

definition isSpecialCharUnix :: "qchar \<Rightarrow> bool" where
  "isSpecialCharUnix c = bitTest [0xff, 0xff, 0xff, 0xff, 0xdf, 0x07, 0x00, 0xd8,
        0x00, 0x00, 0x00, 0x38, 0x01, 0x00, 0x00, 0x78] c"

definition isSpecialCharWin :: "qchar \<Rightarrow> bool" where
  "isSpecialCharWin c = bitTest [0xff, 0xff, 0xff, 0xff, 0x45, 0x13, 0x00, 0x78,
        0x00, 0x00, 0x00, 0x40, 0x00, 0x00, 0x00, 0x10] c"

text \<open>Both \<^verbatim>\<open>hasSpecialChars\<close> functions look from the last character to the first.\<close>

definition hasSpecialCharsUnix :: "qstring \<Rightarrow> bool" where
  "hasSpecialCharsUnix arg = list_ex isSpecialCharUnix (rev arg)"

definition hasSpecialCharsWin :: "qstring \<Rightarrow> bool" where
  "hasSpecialCharsWin arg = list_ex isSpecialCharWin (rev arg)"

text \<open>
  What the code takes from Qt and from the host. \<^verbatim>\<open>QChar::isSpace\<close> and
  \<^verbatim>\<open>QChar::isLetterOrNumber\<close> decide the code points up to 127 by comparisons and the
  others by the Unicode tables of the library, which are parameters here, as are
  \<^verbatim>\<open>QString::toUpper\<close>, \<^verbatim>\<open>QDir::homePath\<close> and \<^verbatim>\<open>QDir::toNativeSeparators\<close>.
\<close>

record platform =
  isSpace_helper :: "qchar \<Rightarrow> bool"
  isLetterOrNumber_helper :: "qchar \<Rightarrow> bool"
  toUpper :: "qstring \<Rightarrow> qstring"
  homePath :: qstring
  toNativeSeparators :: "qstring \<Rightarrow> qstring"

definition isSpace :: "platform \<Rightarrow> qchar \<Rightarrow> bool" where
  "isSpace P c =
     (c = 0x20 \<or> (c \<le> 0x0d \<and> 0x09 \<le> c) \<or>
      (127 < c \<and> (c = 0x85 \<or> c = 0xa0 \<or> isSpace_helper P c)))"

definition isLetterOrNumber :: "platform \<Rightarrow> qchar \<Rightarrow> bool" where
  "isLetterOrNumber P c =
     ((0x41 \<le> c \<and> c \<le> 0x7a \<and> (0x61 \<le> c \<or> c \<le> 0x5a)) \<or>
      (0x30 \<le> c \<and> c \<le> 0x39) \<or>
      (127 < c \<and> isLetterOrNumber_helper P c))"

text \<open>The part of the class \<^verbatim>\<open>Environment\<close> that the code calls: \<open>constFind\<close> gives the
  key of the entry found for a name, \<open>None\<close> for \<^verbatim>\<open>constEnd()\<close>.\<close>

record Environment =
  constFind :: "qstring \<Rightarrow> qstring option"
  expandedValueForKey :: "qstring \<Rightarrow> qstring"

datatype SplitError = SplitOk | BadQuoting | FoundMeta

datatype OsType = OsTypeWindows | OsTypeLinux | OsTypeMac | OsTypeOtherUnix | OsTypeOther

section \<open>Splitting on Windows\<close>

definition cdName :: qstring where "cdName = fromLatin1 ''CD''"

definition envValueWin :: "platform \<Rightarrow> Environment \<Rightarrow> qstring option \<Rightarrow> qstring \<Rightarrow> qstring" where
  "envValueWin P env pwd var =
     (if var = cdName \<and> pwd \<noteq> None \<and> the pwd \<noteq> [] then toNativeSeparators P (the pwd)
      else expandedValueForKey env var)"

function envExpandWin_loop ::
  "platform \<Rightarrow> Environment \<Rightarrow> qstring option \<Rightarrow> qstring \<Rightarrow> nat \<Rightarrow> nat option \<Rightarrow> qstring" where
  "envExpandWin_loop P env pwd args off prev =
     (case indexOf args PERCENT off of
        None \<Rightarrow> args
      | Some that \<Rightarrow>
          (case prev of
             None \<Rightarrow> envExpandWin_loop P env pwd args (that + 1) (Some that)
           | Some pv \<Rightarrow>
               (let var = toUpper P (mid args (pv + 1) (that - pv - 1));
                    val = envValueWin P env pwd var
                in if val \<noteq> []
                   then envExpandWin_loop P env pwd
                          (replaceAt args pv (that - pv + 1) val) (pv + length val) None
                   else envExpandWin_loop P env pwd args (that + 1) (Some that))))"
  by pat_completeness auto

termination envExpandWin_loop
proof (relation "measure (\<lambda>(P, env, pwd, args, off, prev). length args - off)")
  show "wf (measure (\<lambda>(P, env, pwd, args, off, prev). length args - off))" by simp
next
  fix P :: platform and env :: Environment and pwd :: "qstring option" and args :: qstring
    and off :: nat and prev :: "nat option" and that :: nat
  assume "indexOf args PERCENT off = Some that"
  then have "off \<le> that \<and> that < length args" by (rule indexOf_bounds)
  then have "length args - (that + 1) < length args - off" by arith
  then show "((P, env, pwd, args, that + 1, Some that), P, env, pwd, args, off, prev)
      \<in> measure (\<lambda>(P, env, pwd, args, off, prev). length args - off)"
    by simp
next
  fix P :: platform and env :: Environment and pwd :: "qstring option" and args :: qstring
    and off :: nat and prev :: "nat option" and that pv :: nat and var val :: qstring
  assume "indexOf args PERCENT off = Some that"
  then have b: "off \<le> that \<and> that < length args" by (rule indexOf_bounds)
  have "length (replaceAt args pv (that - pv + 1) val) - (pv + length val)
      = length (drop (pv + (that - pv + 1)) args) + (min (length args) pv - pv)"
    by (simp add: replaceAt_def)
  also have "\<dots> \<le> length args - (that + 1)" by auto
  also have "\<dots> < length args - off" using b by arith
  finally show "((P, env, pwd, replaceAt args pv (that - pv + 1) val, pv + length val, None),
       P, env, pwd, args, off, prev)
      \<in> measure (\<lambda>(P, env, pwd, args, off, prev). length args - off)"
    by simp
next
  fix P :: platform and env :: Environment and pwd :: "qstring option" and args :: qstring
    and off :: nat and prev :: "nat option" and that pv :: nat
  assume "indexOf args PERCENT off = Some that"
  then have "off \<le> that \<and> that < length args" by (rule indexOf_bounds)
  then have "length args - (that + 1) < length args - off" by arith
  then show "((P, env, pwd, args, that + 1, Some that), P, env, pwd, args, off, prev)
      \<in> measure (\<lambda>(P, env, pwd, args, off, prev). length args - off)"
    by simp
qed

declare envExpandWin_loop.simps [simp del]

definition envExpandWin :: "platform \<Rightarrow> qstring \<Rightarrow> Environment \<Rightarrow> qstring option \<Rightarrow> qstring" where
  "envExpandWin P args env pwd = envExpandWin_loop P env pwd args 0 None"

text \<open>The \<^verbatim>\<open>do { if (++p == args.length()) break; } while (args[p] != '"')\<close> of
  \<^verbatim>\<open>prepareArgsWin\<close>, entered with \<open>p\<close> inside the string: the position of the next
  double quote behind \<open>p\<close>, or the length.\<close>

function skipQuotedWin :: "qstring \<Rightarrow> nat \<Rightarrow> nat" where
  "skipQuotedWin args p =
     (if length args \<le> Suc p then Suc p
      else if args ! Suc p \<noteq> DQUOTE then skipQuotedWin args (Suc p)
      else Suc p)"
  by pat_completeness auto
termination
  by (relation "measure (\<lambda>(args, p). length args - p)") auto

declare skipQuotedWin.simps [simp del]

lemma skipQuotedWin_gt: "p < skipQuotedWin args p"
proof (induction args p rule: skipQuotedWin.induct)
  case (1 args p)
  show ?case
  proof (cases "\<not> length args \<le> Suc p \<and> args ! Suc p \<noteq> DQUOTE")
    case True
    then have "skipQuotedWin args p = skipQuotedWin args (Suc p)"
      by (simp add: skipQuotedWin.simps [of args p])
    moreover have "Suc p < skipQuotedWin args (Suc p)" using "1.IH" True by simp
    ultimately show ?thesis by simp
  next
    case False
    then have "skipQuotedWin args p = Suc p"
      by (auto simp: skipQuotedWin.simps [of args p])
    then show ?thesis by simp
  qed
qed

function prepareArgsWin_scan :: "qstring \<Rightarrow> nat \<Rightarrow> SplitError \<times> qstring" where
  "prepareArgsWin_scan args p =
     (if p < length args then
        (let c = args ! p in
         if c = CARET then prepareArgsWin_scan (removeAt args p 1) (p + 1)
         else if c = DQUOTE then prepareArgsWin_scan args (skipQuotedWin args p + 1)
         else if isMetaCharWin c then (FoundMeta, [])
         else prepareArgsWin_scan args (p + 1))
      else (SplitOk, args))"
  by pat_completeness auto
termination
proof (relation "measure (\<lambda>(args, p). length args - p)")
  show "wf (measure (\<lambda>(args :: qstring, p). length args - p))" by simp
next
  fix args :: qstring and p :: nat and x :: qchar
  assume "p < length args"
  then show "((removeAt args p 1, p + 1), args, p) \<in> measure (\<lambda>(args, p). length args - p)"
    by (auto simp: removeAt_def)
next
  fix args :: qstring and p :: nat and x :: qchar
  assume "p < length args"
  moreover have "p < skipQuotedWin args p" by (rule skipQuotedWin_gt)
  ultimately show "((args, skipQuotedWin args p + 1), args, p) \<in> measure (\<lambda>(args, p). length args - p)"
    by auto
next
  fix args :: qstring and p :: nat and x :: qchar
  assume "p < length args"
  then show "((args, p + 1), args, p) \<in> measure (\<lambda>(args, p). length args - p)"
    by auto
qed

declare prepareArgsWin_scan.simps [simp del]

record ProcessArgs =
  m_windowsArgs :: qstring
  m_unixArgs :: "qstring list"
  m_isWindows :: bool

definition createWindowsArgs :: "qstring \<Rightarrow> ProcessArgs" where
  "createWindowsArgs args = \<lparr>m_windowsArgs = args, m_unixArgs = [], m_isWindows = True\<rparr>"

definition createUnixArgs :: "qstring list \<Rightarrow> ProcessArgs" where
  "createUnixArgs args = \<lparr>m_windowsArgs = [], m_unixArgs = args, m_isWindows = False\<rparr>"

definition toWindowsArgs :: "ProcessArgs \<Rightarrow> qstring" where
  "toWindowsArgs a = m_windowsArgs a"

definition toUnixArgs :: "ProcessArgs \<Rightarrow> qstring list" where
  "toUnixArgs a = m_unixArgs a"

text \<open>\<^verbatim>\<open>prepareArgsWin\<close> returns the status it stores through \<open>err\<close> and the prepared
  arguments.\<close>

definition prepareArgsWin ::
  "platform \<Rightarrow> qstring \<Rightarrow> Environment option \<Rightarrow> qstring option \<Rightarrow> SplitError \<times> ProcessArgs" where
  "prepareArgsWin P args_in env pwd =
     (if env = None \<and> indexOf args_in PERCENT 0 \<noteq> None then (FoundMeta, createWindowsArgs [])
      else
        (let args = (case env of Some e \<Rightarrow> envExpandWin P args_in e pwd | None \<Rightarrow> args_in);
             args = (if args \<noteq> [] \<and> args ! 0 = ATSIGN then removeAt args 0 1 else args)
         in case prepareArgsWin_scan args 0 of (e, args) \<Rightarrow> (e, createWindowsArgs args)))"

definition isWhiteSpaceWin :: "qchar \<Rightarrow> bool" where
  "isWhiteSpaceWin c = (c = SPACE \<or> c = TAB)"

text \<open>
  \<^verbatim>\<open>doSplitArgsWin\<close> reads \<open>args\<close> from left to right and never changes it; the model
  carries the unread rest \<open>args[p..]\<close> in place of the index \<open>p\<close>, so that
  \<open>p == length\<close> is \<open>rest = []\<close>.

  The treatment of a double quote behind \<open>bslashes\<close> backslashes: whether the character
  at the new position is copied, the new quoting state, the rest from the new position
  and the number of backslashes to emit.
\<close>

definition doSplitArgsWin_quote ::
  "bool \<Rightarrow> nat \<Rightarrow> qstring \<Rightarrow> bool \<times> bool \<times> qstring \<times> nat" where
  "doSplitArgsWin_quote inquote bslashes r =
     (if r \<noteq> [] \<and> hd r = DQUOTE then
        (if even bslashes then
           (if inquote then
              (if tl r \<noteq> [] \<and> hd (tl r) = DQUOTE then (True, False, tl r, bslashes div 2)
               else (False, False, r, bslashes div 2))
            else (False, True, r, bslashes div 2))
         else (True, inquote, r, bslashes div 2))
      else (True, inquote, r, bslashes))"

function doSplitArgsWin_arg :: "qstring \<Rightarrow> bool \<Rightarrow> qstring \<Rightarrow> qstring \<times> bool \<times> qstring" where
  "doSplitArgsWin_arg arg inquote rest =
     (case doSplitArgsWin_quote inquote (length (takeWhile (\<lambda>c. c = BSLASH) rest))
             (dropWhile (\<lambda>c. c = BSLASH) rest) of
        (copy, inquote, r, bslashes) \<Rightarrow>
          (let arg = arg @ replicate bslashes BSLASH
           in if r = [] \<or> (\<not> inquote \<and> isWhiteSpaceWin (hd r)) then (arg, inquote, r)
              else doSplitArgsWin_arg (if copy then arg @ [hd r] else arg) inquote (tl r)))"
  by pat_completeness auto

lemma doSplitArgsWin_quote_length:
  "doSplitArgsWin_quote inquote n r = (copy, q, r', n') \<Longrightarrow>
     length r' \<le> length r \<and> (r \<noteq> [] \<longrightarrow> r' \<noteq> [])"
  by (auto simp: doSplitArgsWin_quote_def split: if_splits)

lemma doSplitArgsWin_arg_shorter:
  assumes "(copy, q, r, n) = doSplitArgsWin_quote inquote
             (length (takeWhile (\<lambda>c. c = BSLASH) rest)) (dropWhile (\<lambda>c. c = BSLASH) rest)"
    and "r \<noteq> []"
  shows "length (tl r) < length rest"
proof -
  from assms(1) have "length r \<le> length (dropWhile (\<lambda>c. c = BSLASH) rest)"
    using doSplitArgsWin_quote_length [of inquote _ _ copy q r n] by simp
  also have "\<dots> \<le> length rest" by (rule length_dropWhile_le)
  finally show ?thesis using assms(2) by (cases r) auto
qed

termination doSplitArgsWin_arg
  apply (relation "measure (\<lambda>(arg, inquote, rest). length rest)")
   apply simp
  subgoal for arg inquote rest x y xa ya xb yb xc
    using doSplitArgsWin_arg_shorter [of x xa xb yb inquote rest] by auto
  done

declare doSplitArgsWin_arg.simps [simp del]

lemma doSplitArgsWin_arg_le:
  "doSplitArgsWin_arg arg inquote rest = (a, q, rest') \<Longrightarrow> length rest' \<le> length rest"
proof (induction arg inquote rest arbitrary: a q rest' rule: doSplitArgsWin_arg.induct)
  case (1 arg inquote rest)
  obtain copy q1 r n where c: "doSplitArgsWin_quote inquote
      (length (takeWhile (\<lambda>c. c = BSLASH) rest)) (dropWhile (\<lambda>c. c = BSLASH) rest) = (copy, q1, r, n)"
    by (metis prod_cases4)
  have rl: "length r \<le> length rest"
    using doSplitArgsWin_quote_length [OF c] length_dropWhile_le [of "\<lambda>c. c = BSLASH" rest]
    by simp
  show ?case
  proof (cases "r = [] \<or> (\<not> q1 \<and> isWhiteSpaceWin (hd r))")
    case True
    with "1.prems" c have "rest' = r"
      by (auto simp: doSplitArgsWin_arg.simps [of arg inquote rest])
    with rl show ?thesis by simp
  next
    case False
    with "1.prems" c have "doSplitArgsWin_arg
        (if copy then (arg @ replicate n BSLASH) @ [hd r] else arg @ replicate n BSLASH) q1 (tl r)
        = (a, q, rest')"
      by (auto simp: doSplitArgsWin_arg.simps [of arg inquote rest] Let_def)
    from "1.IH" [of copy "(q1, r, n)" q1 "(r, n)" r n "arg @ replicate n BSLASH" a q rest'] c False this
    have "length rest' \<le> length (tl r)" by simp
    with rl show ?thesis by simp
  qed
qed

lemma doSplitArgsWin_arg_less:
  assumes "doSplitArgsWin_arg arg inquote rest = (a, q, rest')"
    and "rest \<noteq> []" and "\<not> isWhiteSpaceWin (hd rest)"
  shows "length rest' < length rest"
proof -
  obtain copy q1 r n where c: "doSplitArgsWin_quote inquote
      (length (takeWhile (\<lambda>c. c = BSLASH) rest)) (dropWhile (\<lambda>c. c = BSLASH) rest) = (copy, q1, r, n)"
    by (metis prod_cases4)
  have rl: "length r \<le> length (dropWhile (\<lambda>c. c = BSLASH) rest)"
    using doSplitArgsWin_quote_length [OF c] by simp
  have dl: "length (dropWhile (\<lambda>c. c = BSLASH) rest) \<le> length rest"
    by (rule length_dropWhile_le)
  show ?thesis
  proof (cases "r = [] \<or> (\<not> q1 \<and> isWhiteSpaceWin (hd r))")
    case True
    with assms(1) c have eq: "rest' = r"
      by (auto simp: doSplitArgsWin_arg.simps [of arg inquote rest])
    show ?thesis
    proof (cases "r = []")
      case True
      with eq assms(2) show ?thesis by simp
    next
      case False
      with True have ws: "isWhiteSpaceWin (hd r)" by simp
      then have "hd r \<noteq> DQUOTE" by (auto simp: isWhiteSpaceWin_def)
      with c False have "r = dropWhile (\<lambda>c. c = BSLASH) rest"
        by (auto simp: doSplitArgsWin_quote_def split: if_splits)
      moreover have "dropWhile (\<lambda>c. c = BSLASH) rest \<noteq> rest"
        using ws assms(3) calculation by auto
      then have "length (dropWhile (\<lambda>c. c = BSLASH) rest) < length rest"
        using dl by (metis (no_types, lifting) takeWhile_dropWhile_id append_self_conv2 length_append
            le_neq_implies_less length_0_conv add_cancel_right_left)
      ultimately show ?thesis using eq by simp
    qed
  next
    case False
    with assms(1) c have "doSplitArgsWin_arg
        (if copy then (arg @ replicate n BSLASH) @ [hd r] else arg @ replicate n BSLASH) q1 (tl r)
        = (a, q, rest')"
      by (auto simp: doSplitArgsWin_arg.simps [of arg inquote rest] Let_def)
    then have "length rest' \<le> length (tl r)" by (rule doSplitArgsWin_arg_le)
    with False rl dl show ?thesis by (cases r) auto
  qed
qed

function doSplitArgsWin_loop :: "qstring list \<Rightarrow> qstring \<Rightarrow> SplitError \<times> qstring list" where
  "doSplitArgsWin_loop ret rest =
     (let rest = dropWhile isWhiteSpaceWin rest
      in if rest = [] then (SplitOk, ret)
         else (case doSplitArgsWin_arg [] False rest of
                 (arg, inquote, rest') \<Rightarrow>
                   if inquote then (BadQuoting, [])
                   else doSplitArgsWin_loop (ret @ [arg]) rest'))"
  by pat_completeness auto
termination
  apply (relation "measure (\<lambda>(ret, rest). length rest)")
   apply simp
  subgoal for ret rest x xa y xb ya
    using doSplitArgsWin_arg_less [of "[]" False x xa xb ya]
      hd_dropWhile [of isWhiteSpaceWin rest] length_dropWhile_le [of isWhiteSpaceWin rest]
    by auto
  done

declare doSplitArgsWin_loop.simps [simp del]

definition doSplitArgsWin :: "qstring \<Rightarrow> SplitError \<times> qstring list" where
  "doSplitArgsWin args = doSplitArgsWin_loop [] args"


text \<open>
  \<^verbatim>\<open>splitArgsWin\<close> returns the words and what the caller's status variable holds
  afterwards; \<open>err\<close> is \<open>None\<close> for a null pointer and \<open>Some e\<close> for a pointer to a
  variable that holds \<open>e\<close> at the call. With \<open>abortOnMeta\<close> the status of the prepare
  phase is stored in the local \<open>perr\<close>, while the test that follows reads \<open>*err\<close>:
  that is \<open>perr\<close> only when the caller passed no pointer.
\<close>

definition splitArgsWin ::
  "platform \<Rightarrow> qstring \<Rightarrow> bool \<Rightarrow> SplitError option \<Rightarrow> Environment option \<Rightarrow> qstring option
     \<Rightarrow> qstring list \<times> SplitError option" where
  "splitArgsWin P args_in abortOnMeta err env pwd =
     (if abortOnMeta then
        (case prepareArgsWin P args_in env pwd of
           (perr, pa) \<Rightarrow>
             (let args = toWindowsArgs pa;
                  cur = (case err of None \<Rightarrow> perr | Some e \<Rightarrow> e)
              in if cur \<noteq> SplitOk then ([], err)
                 else (case doSplitArgsWin args of (e, ret) \<Rightarrow> (ret, map_option (\<lambda>_. e) err))))
      else
        (let args = (case env of Some e \<Rightarrow> envExpandWin P args_in e pwd | None \<Rightarrow> args_in)
         in case doSplitArgsWin args of (e, ret) \<Rightarrow> (ret, map_option (\<lambda>_. e) err)))"

text \<open>A host for evaluating concrete command lines: no separator and no letter beyond
  the code points that \<^verbatim>\<open>QChar\<close> tests explicitly, upper-casing of ASCII letters only, and
  paths that already have native separators.\<close>

definition asciiToUpper :: "qstring \<Rightarrow> qstring" where
  "asciiToUpper s = map (\<lambda>c. if 0x61 \<le> c \<and> c \<le> 0x7A then c - 0x20 else c) s"

definition asciiHost :: platform where
  "asciiHost =
     \<lparr>isSpace_helper = (\<lambda>c. False),
      isLetterOrNumber_helper = (\<lambda>c. False),
      toUpper = asciiToUpper,
      homePath = fromLatin1 ''/home/user'',
      toNativeSeparators = (\<lambda>s. s)\<rparr>"

text \<open>Modelled from the spec: the class \<^verbatim>\<open>Environment\<close> is not part of the sources at
  hand; the specification describes it as a case-sensitive lookup from keys to values
  together with the expanded value for a key. \<open>environmentOf\<close> is the environment that
  holds the given entries, whose values need no further expansion; a key that is not
  there has the empty expanded value.\<close>

definition environmentOf :: "(qstring \<times> qstring) list \<Rightarrow> Environment" where
  "environmentOf entries =
     \<lparr>constFind = (\<lambda>k. map_option (\<lambda>_. k) (map_of entries k)),
      expandedValueForKey = (\<lambda>k. case map_of entries k of Some v \<Rightarrow> v | None \<Rightarrow> [])\<rparr>"


text \<open>Every stretch of \<open>args\<close> between two consecutive percent signs names a variable
  whose value is empty, that is, a variable the environment does not have.\<close>

definition unknownRefs :: "platform \<Rightarrow> Environment \<Rightarrow> qstring option \<Rightarrow> qstring \<Rightarrow> bool" where
  "unknownRefs P env pwd args =
     (\<forall>j \<in> set [0..<length args]. \<forall>i \<in> set [0..<j].
        args ! i = PERCENT \<and> args ! j = PERCENT \<and> PERCENT \<notin> set (mid args (i + 1) (j - i - 1))
        \<longrightarrow> envValueWin P env pwd (toUpper P (mid args (i + 1) (j - i - 1))) = [])"

text \<open>
  The expansion in the words of the specification. The value of a reference is the value
  of the variable that its text names in upper case. A command line is cut at its percent
  signs into stretches. The scan goes from left to right and is either closed or open,
  that is, behind a percent sign that may begin a reference: an open stretch that is
  followed by a percent sign and has a value is replaced by it, together with both
  percent signs, and the scan is closed again; a stretch without a value is kept with the
  percent sign in front of it, and the percent sign behind it is open in turn.
\<close>

definition refValue :: "platform \<Rightarrow> Environment \<Rightarrow> qstring option \<Rightarrow> qstring \<Rightarrow> qstring" where
  "refValue P env pwd name = envValueWin P env pwd (toUpper P name)"

fun joinSegs :: "qstring list \<Rightarrow> qstring" where
  "joinSegs [] = []"
| "joinSegs [s] = s"
| "joinSegs (s # s' # segs) = s @ PERCENT # joinSegs (s' # segs)"

text \<open>The stretches of a command line: it is cut at every percent sign.\<close>

fun splitSegs :: "qstring \<Rightarrow> qstring list" where
  "splitSegs [] = [[]]"
| "splitSegs (c # r) =
     (if c = PERCENT then [] # splitSegs r
      else (case splitSegs r of [] \<Rightarrow> [[c]] | s # segs \<Rightarrow> (c # s) # segs))"

fun expandSegs :: "platform \<Rightarrow> Environment \<Rightarrow> qstring option \<Rightarrow> bool \<Rightarrow> qstring list \<Rightarrow> qstring" where
  "expandSegs P env pwd opened [] = []"
| "expandSegs P env pwd False (s # segs) = s @ expandSegs P env pwd True segs"
| "expandSegs P env pwd True [s] = PERCENT # s"
| "expandSegs P env pwd True (s # s' # segs) =
     (if refValue P env pwd s \<noteq> [] then refValue P env pwd s @ expandSegs P env pwd False (s' # segs)
      else PERCENT # s @ expandSegs P env pwd True (s' # segs))"

text \<open>
  A command line with references \<^verbatim>\<open>%NAME%\<close>: a list of pairs of a text and the name of the
  reference behind it, and the text behind the last reference. What the specification
  expects of it: every reference with a value is replaced by the value and every other
  reference is left as it is. The references are well separated when no text and no name
  has a percent sign and no text that follows a reference without value is itself the
  name of a variable with a value.
\<close>

definition renderRefs :: "(qstring \<times> qstring) list \<Rightarrow> qstring" where
  "renderRefs refs = concat (map (\<lambda>(lit, name). lit @ PERCENT # name @ [PERCENT]) refs)"

definition expectedRefs ::
  "platform \<Rightarrow> Environment \<Rightarrow> qstring option \<Rightarrow> (qstring \<times> qstring) list \<Rightarrow> qstring" where
  "expectedRefs P env pwd refs =
     concat (map (\<lambda>(lit, name).
       lit @ (if refValue P env pwd name \<noteq> [] then refValue P env pwd name
              else PERCENT # name @ [PERCENT])) refs)"

fun refsOk ::
  "platform \<Rightarrow> Environment \<Rightarrow> qstring option \<Rightarrow> bool \<Rightarrow> (qstring \<times> qstring) list \<Rightarrow> bool" where
  "refsOk P env pwd afterUnknown [] = True"
| "refsOk P env pwd afterUnknown ((lit, name) # refs) =
     (PERCENT \<notin> set lit \<and> PERCENT \<notin> set name \<and>
      (afterUnknown \<longrightarrow> refValue P env pwd lit = []) \<and>
      refsOk P env pwd (refValue P env pwd name = []) refs)"

text \<open>A command line with well separated references, cut into its stretches.\<close>

fun segsOf :: "(qstring \<times> qstring) list \<Rightarrow> qstring \<Rightarrow> qstring list" where
  "segsOf [] rest = [rest]"
| "segsOf ((lit, name) # refs) rest = lit # name # segsOf refs rest"

section \<open>Splitting on Unix\<close>

definition pwdName :: qstring where "pwdName = fromLatin1 ''PWD''"

text \<open>The value of a variable reference, \<open>None\<close> for the jump to \<^verbatim>\<open>metaerr\<close>: the working
  directory for \<^verbatim>\<open>PWD\<close>, nothing for a variable that is not set.\<close>

definition envValueUnix :: "bool \<Rightarrow> Environment \<Rightarrow> qstring option \<Rightarrow> qstring \<Rightarrow> qstring option" where
  "envValueUnix abortOnMeta env pwd var =
     (if var = pwdName \<and> pwd \<noteq> None \<and> the pwd \<noteq> [] then Some (the pwd)
      else (case constFind env var of
              None \<Rightarrow> (if abortOnMeta then None else Some [])
            | Some key \<Rightarrow> Some (expandedValueForKey env key)))"

text \<open>
  The loops that collect a variable name, entered with the current character \<open>c\<close> and
  the unread rest; \<open>None\<close> is the jump to \<^verbatim>\<open>quoteerr\<close>. Inside double quotes the name must
  be followed by a character. Outside, the end of the input ends a name that is not in
  braces, and the current character becomes a space.
\<close>

fun scanVarQuoted :: "platform \<Rightarrow> qstring \<Rightarrow> qchar \<Rightarrow> qstring \<Rightarrow> (qstring \<times> qchar \<times> qstring) option" where
  "scanVarQuoted P var c [] =
     (if isLetterOrNumber P c \<or> c = UNDERSCORE then None else Some (var, c, []))"
| "scanVarQuoted P var c (c' # r) =
     (if isLetterOrNumber P c \<or> c = UNDERSCORE then scanVarQuoted P (var @ [c]) c' r
      else Some (var, c, c' # r))"

fun scanVarBare ::
  "platform \<Rightarrow> bool \<Rightarrow> qstring \<Rightarrow> qchar \<Rightarrow> qstring \<Rightarrow> (qstring \<times> qchar \<times> qstring) option" where
  "scanVarBare P braced var c [] =
     (if isLetterOrNumber P c \<or> c = UNDERSCORE
      then (if braced then None else Some (var @ [c], SPACE, []))
      else Some (var, c, []))"
| "scanVarBare P braced var c (c' # r) =
     (if isLetterOrNumber P c \<or> c = UNDERSCORE then scanVarBare P braced (var @ [c]) c' r
      else Some (var, c, c' # r))"

text \<open>The character behind a dollar sign and, for an opening brace, the one behind that:
  whether the reference is braced, the current character and the rest; \<open>None\<close> is the jump
  to \<^verbatim>\<open>quoteerr\<close>.\<close>

definition readVarStart :: "qstring \<Rightarrow> (bool \<times> qchar \<times> qstring) option" where
  "readVarStart r =
     (case r of
        [] \<Rightarrow> None
      | c # r1 \<Rightarrow>
          (if c = LBRACE then (case r1 of [] \<Rightarrow> None | c2 # r2 \<Rightarrow> Some (True, c2, r2))
           else Some (False, c, r1)))"

text \<open>
  The state of \<^verbatim>\<open>splitArgsUnix\<close>: the words so far, the current word, whether there is a
  current word, and the unread rest \<open>args[pos..]\<close> of the input, which is never changed.
  The control points are the head of the outer loop, the head of the body of the word
  loop with its current character, the head of the loop inside double quotes, and the
  labels \<^verbatim>\<open>nextq\<close>, \<^verbatim>\<open>getc\<close> and \<^verbatim>\<open>nextc\<close>; \<open>L_endword\<close> is the point behind the word loop.
\<close>

record splitUnixState =
  su_ret :: "qstring list"
  su_cret :: qstring
  su_hadWord :: bool
  su_rest :: qstring

datatype splitUnixLabel =
  L_outer | L_word qchar | L_dquote | L_nextq qchar | L_getc | L_nextc qchar | L_endword

text \<open>The loop over the value of an unquoted reference: tab, line feed and space end the
  current word, every other character goes into it.\<close>

definition splitValueChar :: "qchar \<Rightarrow> splitUnixState \<Rightarrow> splitUnixState" where
  "splitValueChar cc s =
     (if cc = 9 \<or> cc = 10 \<or> cc = 32
      then (if su_hadWord s
            then s\<lparr>su_ret := su_ret s @ [su_cret s], su_cret := [], su_hadWord := False\<rparr>
            else s)
      else s\<lparr>su_cret := su_cret s @ [cc], su_hadWord := True\<rparr>)"

definition splitValue :: "qstring \<Rightarrow> splitUnixState \<Rightarrow> splitUnixState" where
  "splitValue val s = fold splitValueChar val s"

text \<open>The words when the word loop is left in state \<open>s\<close>:
  \<^verbatim>\<open>if (hadWord) ret += cret\<close>.\<close>

definition wordsAtEnd :: "splitUnixState \<Rightarrow> qstring list" where
  "wordsAtEnd s = (if su_hadWord s then su_ret s @ [su_cret s] else su_ret s)"

definition splitArgsUnix_step ::
  "platform \<Rightarrow> bool \<Rightarrow> Environment option \<Rightarrow> qstring option \<Rightarrow> splitUnixLabel \<Rightarrow> splitUnixState
     \<Rightarrow> (splitUnixLabel \<times> splitUnixState) + (SplitError \<times> qstring list)" where
  "splitArgsUnix_step P abortOnMeta env pwd l s =
     (case l of
        L_outer \<Rightarrow>
          (case dropWhile (isSpace P) (su_rest s) of
             [] \<Rightarrow> Inr (SplitOk, su_ret s)
           | c # r \<Rightarrow>
               (let s = s\<lparr>su_cret := [], su_hadWord := False, su_rest := r\<rparr>
                in if c = TILDE then
                     (if r = [] \<or> isSpace P (hd r) \<or> hd r = SLASH
                      then Inl (L_getc, s\<lparr>su_cret := homePath P, su_hadWord := True\<rparr>)
                      else if abortOnMeta then Inr (FoundMeta, [])
                      else Inl (L_word c, s))
                   else Inl (L_word c, s)))
      | L_word c \<Rightarrow>
          (if c = SQUOTE then
             (case dropWhile (\<lambda>x. x \<noteq> SQUOTE) (su_rest s) of
                [] \<Rightarrow> Inr (BadQuoting, [])
              | q # r \<Rightarrow>
                  Inl (L_getc, s\<lparr>su_cret := su_cret s @ takeWhile (\<lambda>x. x \<noteq> SQUOTE) (su_rest s),
                                 su_hadWord := True, su_rest := r\<rparr>))
           else if c = DQUOTE then Inl (L_dquote, s)
           else if c = DOLLAR \<and> env \<noteq> None then
             (case readVarStart (su_rest s) of
                None \<Rightarrow> Inr (BadQuoting, [])
              | Some (braced, c, r) \<Rightarrow>
                  (case scanVarBare P braced [] c r of
                     None \<Rightarrow> Inr (BadQuoting, [])
                   | Some (var, c, r) \<Rightarrow>
                       (case envValueUnix abortOnMeta (the env) pwd var of
                          None \<Rightarrow> Inr (FoundMeta, [])
                        | Some val \<Rightarrow>
                            (let s = splitValue val (s\<lparr>su_rest := r\<rparr>)
                             in if \<not> braced then Inl (L_nextc c, s)
                                else if c \<noteq> RBRACE
                                  then Inr (if abortOnMeta then FoundMeta else BadQuoting, [])
                                else Inl (L_getc, s)))))
           else if c = BSLASH then
             (case su_rest s of
                [] \<Rightarrow> Inr (BadQuoting, [])
              | c # r \<Rightarrow> Inl (L_getc, s\<lparr>su_cret := su_cret s @ [c], su_hadWord := True, su_rest := r\<rparr>))
           else if abortOnMeta \<and> isMetaUnix c then Inr (FoundMeta, [])
           else Inl (L_getc, s\<lparr>su_cret := su_cret s @ [c], su_hadWord := True\<rparr>))
      | L_dquote \<Rightarrow>
          (case su_rest s of
             [] \<Rightarrow> Inr (BadQuoting, [])
           | c # r \<Rightarrow> Inl (L_nextq c, s\<lparr>su_rest := r\<rparr>))
      | L_nextq c \<Rightarrow>
          (if c = DQUOTE then Inl (L_getc, s\<lparr>su_hadWord := True\<rparr>)
           else if c = BSLASH then
             (case su_rest s of
                [] \<Rightarrow> Inr (BadQuoting, [])
              | c # r \<Rightarrow>
                  (let cret = (if c \<noteq> DQUOTE \<and> c \<noteq> BSLASH \<and>
                                  \<not> (abortOnMeta \<and> (c = DOLLAR \<or> c = BACKTICK))
                               then su_cret s @ [BSLASH] else su_cret s)
                   in Inl (L_dquote, s\<lparr>su_cret := cret @ [c], su_rest := r\<rparr>)))
           else if c = DOLLAR \<and> env \<noteq> None then
             (case readVarStart (su_rest s) of
                None \<Rightarrow> Inr (BadQuoting, [])
              | Some (braced, c, r) \<Rightarrow>
                  (case scanVarQuoted P [] c r of
                     None \<Rightarrow> Inr (BadQuoting, [])
                   | Some (var, c, r) \<Rightarrow>
                       (case envValueUnix abortOnMeta (the env) pwd var of
                          None \<Rightarrow> Inr (FoundMeta, [])
                        | Some val \<Rightarrow>
                            (let s = s\<lparr>su_cret := su_cret s @ val, su_rest := r\<rparr>
                             in if \<not> braced then Inl (L_nextq c, s)
                                else if c \<noteq> RBRACE
                                  then Inr (if abortOnMeta then FoundMeta else BadQuoting, [])
                                else Inl (L_dquote, s)))))
           else if abortOnMeta \<and> (c = DOLLAR \<or> c = BACKTICK) then Inr (FoundMeta, [])
           else Inl (L_dquote, s\<lparr>su_cret := su_cret s @ [c]\<rparr>))
      | L_getc \<Rightarrow>
          (case su_rest s of
             [] \<Rightarrow> Inl (L_endword, s)
           | c # r \<Rightarrow> Inl (L_nextc c, s\<lparr>su_rest := r\<rparr>))
      | L_nextc c \<Rightarrow>
          (if \<not> isSpace P c then Inl (L_word c, s) else Inl (L_endword, s))
      | L_endword \<Rightarrow> Inl (L_outer, s\<lparr>su_ret := wordsAtEnd s\<rparr>))"

fun labelRank :: "splitUnixLabel \<Rightarrow> nat" where
  "labelRank L_outer = 0"
| "labelRank L_endword = 1"
| "labelRank L_getc = 2"
| "labelRank L_dquote = 3"
| "labelRank (L_nextq c) = 4"
| "labelRank (L_word c) = 5"
| "labelRank (L_nextc c) = 6"

lemma scanVarQuoted_length:
  "scanVarQuoted P var c r = Some (var', c', r') \<Longrightarrow> length r' \<le> length r"
  by (induction P var c r rule: scanVarQuoted.induct) (auto split: if_splits)

lemma scanVarBare_length:
  "scanVarBare P braced var c r = Some (var', c', r') \<Longrightarrow> length r' \<le> length r"
  by (induction P braced var c r rule: scanVarBare.induct) (auto split: if_splits)

lemma readVarStart_length:
  "readVarStart r = Some (braced, c, r') \<Longrightarrow> length r' < length r"
  by (auto simp: readVarStart_def split: list.splits if_splits)

lemma splitValue_rest [simp]: "su_rest (splitValue val s) = su_rest s"
proof -
  have "su_rest (fold splitValueChar val s) = su_rest s"
    by (induction val arbitrary: s) (simp_all add: splitValueChar_def)
  then show ?thesis by (simp add: splitValue_def)
qed

lemma dropWhile_Cons_length:
  "dropWhile p xs = y # ys \<Longrightarrow> length ys < length xs"
  using length_dropWhile_le [of p xs] by simp

lemma splitArgsUnix_step_decreases:
  assumes "splitArgsUnix_step P abortOnMeta env pwd l s = Inl (l', s')"
  shows "7 * length (su_rest s') + labelRank l' < 7 * length (su_rest s) + labelRank l"
proof (cases l)
  case L_outer
  with assms obtain c r where d: "dropWhile (isSpace P) (su_rest s) = c # r"
    and r: "su_rest s' = r"
    by (auto simp: splitArgsUnix_step_def Let_def split: list.splits if_splits)
  from d have "length r < length (su_rest s)" by (rule dropWhile_Cons_length)
  moreover have "labelRank l' \<le> 6" by (cases l') simp_all
  ultimately show ?thesis using r by simp
next
  case (L_word c)
  show ?thesis
  proof (cases "c = DOLLAR \<and> env \<noteq> None")
    case True
    with assms L_word obtain braced c1 r1 var c2 r2 val where
      rv: "readVarStart (su_rest s) = Some (braced, c1, r1)"
      and sv: "scanVarBare P braced [] c1 r1 = Some (var, c2, r2)"
      and s': "s' = splitValue val (s\<lparr>su_rest := r2\<rparr>)"
      by (auto simp: splitArgsUnix_step_def Let_def split: option.splits if_splits)
    from rv sv have "length r2 < length (su_rest s)"
      using readVarStart_length scanVarBare_length by fastforce
    moreover have "labelRank l' \<le> 6" by (cases l') simp_all
    ultimately show ?thesis using s' by simp
  next
    case False
    with assms L_word show ?thesis
      by (auto simp: splitArgsUnix_step_def Let_def split: list.splits if_splits
          dest!: dropWhile_Cons_length)
  qed
next
  case L_dquote
  with assms show ?thesis
    by (auto simp: splitArgsUnix_step_def split: list.splits)
next
  case (L_nextq c)
  show ?thesis
  proof (cases "c \<noteq> DQUOTE \<and> c \<noteq> BSLASH \<and> c = DOLLAR \<and> env \<noteq> None")
    case True
    with assms L_nextq obtain braced c1 r1 var c2 r2 val where
      rv: "readVarStart (su_rest s) = Some (braced, c1, r1)"
      and sv: "scanVarQuoted P [] c1 r1 = Some (var, c2, r2)"
      and s': "s' = s\<lparr>su_cret := su_cret s @ val, su_rest := r2\<rparr>"
      by (auto simp: splitArgsUnix_step_def Let_def split: option.splits if_splits)
    from rv sv have "length r2 < length (su_rest s)"
      using readVarStart_length scanVarQuoted_length by fastforce
    moreover have "labelRank l' \<le> 6" by (cases l') simp_all
    ultimately show ?thesis using s' by simp
  next
    case False
    with assms L_nextq show ?thesis
      by (auto simp: splitArgsUnix_step_def Let_def split: list.splits if_splits)
  qed
next
  case L_getc
  with assms show ?thesis
    by (auto simp: splitArgsUnix_step_def split: list.splits)
next
  case (L_nextc c)
  with assms show ?thesis
    by (auto simp: splitArgsUnix_step_def split: if_splits)
next
  case L_endword
  with assms show ?thesis
    by (auto simp: splitArgsUnix_step_def split: if_splits)
qed

function splitArgsUnix_run ::
  "platform \<Rightarrow> bool \<Rightarrow> Environment option \<Rightarrow> qstring option \<Rightarrow> splitUnixLabel \<Rightarrow> splitUnixState
     \<Rightarrow> SplitError \<times> qstring list" where
  "splitArgsUnix_run P abortOnMeta env pwd l s =
     (case splitArgsUnix_step P abortOnMeta env pwd l s of
        Inl (l', s') \<Rightarrow> splitArgsUnix_run P abortOnMeta env pwd l' s'
      | Inr res \<Rightarrow> res)"
  by pat_completeness auto
termination
  apply (relation "measure (\<lambda>(P, abortOnMeta, env, pwd, l, s). 7 * length (su_rest s) + labelRank l)")
   apply simp
  subgoal for P abortOnMeta env pwd l s x l' s'
    using splitArgsUnix_step_decreases [of P abortOnMeta env pwd l s l' s'] by auto
  done

declare splitArgsUnix_run.simps [simp del]

text \<open>\<^verbatim>\<open>splitArgsUnix\<close> returns the status it stores through \<open>err\<close> and the words.\<close>

definition splitArgsUnix ::
  "platform \<Rightarrow> qstring \<Rightarrow> bool \<Rightarrow> Environment option \<Rightarrow> qstring option \<Rightarrow> SplitError \<times> qstring list" where
  "splitArgsUnix P args abortOnMeta env pwd =
     splitArgsUnix_run P abortOnMeta env pwd L_outer
       \<lparr>su_ret = [], su_cret = [], su_hadWord = False, su_rest = args\<rparr>"

section \<open>Quoting and joining arguments\<close>

definition quoteArgUnix :: "qstring \<Rightarrow> qstring" where
  "quoteArgUnix arg =
     (if arg = [] then [SQUOTE, SQUOTE]
      else if hasSpecialCharsUnix arg
        then SQUOTE # qreplace [SQUOTE] [SQUOTE, BSLASH, SQUOTE, SQUOTE] arg @ [SQUOTE]
      else arg)"

text \<open>
  The replacement of the regular expression \<^verbatim>\<open>(\\*)"\<close> by \<^verbatim>\<open>"\1\1\^""\<close> in
  \<^verbatim>\<open>quoteArgWin\<close>: every double quote, together with the run of \<open>n\<close> backslashes in front of
  it, becomes a double quote, the run twice, a backslash, a circumflex and two double
  quotes. The scan carries the length of the run of backslashes read last.
\<close>

fun escapeQuotesWin :: "nat \<Rightarrow> qstring \<Rightarrow> qstring" where
  "escapeQuotesWin n [] = replicate n BSLASH"
| "escapeQuotesWin n (c # r) =
     (if c = BSLASH then escapeQuotesWin (Suc n) r
      else if c = DQUOTE
        then DQUOTE # replicate (2 * n) BSLASH @ [BSLASH, CARET, DQUOTE, DQUOTE] @ escapeQuotesWin 0 r
      else replicate n BSLASH @ c # escapeQuotesWin 0 r)"

definition quoteArgWin :: "qstring \<Rightarrow> qstring" where
  "quoteArgWin arg =
     (if arg = [] then [DQUOTE, DQUOTE]
      else if hasSpecialCharsWin arg then
        (let ret = escapeQuotesWin 0 arg;
             i = length ret - length (takeWhile (\<lambda>c. c = BSLASH) (rev ret))
         in DQUOTE # take i ret @ DQUOTE # drop i ret)
      else arg)"

text \<open>
  The quoted form of an argument behind its opening double quote, read from left to
  right with the length \<open>n\<close> of the run of backslashes read last: at the end the closing
  quote and the run behind it; for a double quote of the argument the closing quote, the
  run twice, a backslash, the circumflex when \<open>caret\<close> is set, the double quote itself and
  a double quote that opens the quoting again. With \<open>caret\<close> this is what \<^verbatim>\<open>quoteArgWin\<close>
  writes, without it what the prepare phase of \<open>abortOnMeta\<close> leaves of it.
\<close>

fun quotedTailWin :: "bool \<Rightarrow> nat \<Rightarrow> qstring \<Rightarrow> qstring" where
  "quotedTailWin caret n [] = DQUOTE # replicate n BSLASH"
| "quotedTailWin caret n (c # r) =
     (if c = BSLASH then quotedTailWin caret (Suc n) r
      else if c = DQUOTE
        then DQUOTE # replicate (2 * n) BSLASH @ BSLASH # (if caret then [CARET] else []) @
          DQUOTE # DQUOTE # quotedTailWin caret 0 r
      else replicate n BSLASH @ c # quotedTailWin caret 0 r)"

definition quoteArg :: "qstring \<Rightarrow> OsType \<Rightarrow> qstring" where
  "quoteArg arg osType = (if osType = OsTypeWindows then quoteArgWin arg else quoteArgUnix arg)"

definition addArg :: "qstring \<Rightarrow> qstring \<Rightarrow> OsType \<Rightarrow> qstring" where
  "addArg args arg osType = (if args \<noteq> [] then args @ [SPACE] else args) @ quoteArg arg osType"

definition joinArgs :: "qstring list \<Rightarrow> OsType \<Rightarrow> qstring" where
  "joinArgs args osType = fold (\<lambda>arg ret. addArg ret arg osType) args []"

text \<open>\<^verbatim>\<open>ProcessArgs::splitArgs\<close>, with the words and the final content of the caller's status
  variable as for \<open>splitArgsWin\<close>.\<close>

definition splitArgs ::
  "platform \<Rightarrow> qstring \<Rightarrow> OsType \<Rightarrow> bool \<Rightarrow> SplitError option \<Rightarrow> Environment option \<Rightarrow> qstring option
     \<Rightarrow> qstring list \<times> SplitError option" where
  "splitArgs P args osType abortOnMeta err env pwd =
     (if osType = OsTypeWindows then splitArgsWin P args abortOnMeta err env pwd
      else (case splitArgsUnix P args abortOnMeta env pwd of
              (e, ret) \<Rightarrow> (ret, map_option (\<lambda>_. e) err)))"

text \<open>The environment expansion of the Windows grammar has nothing to replace in \<open>args\<close>:
  no environment is passed, or no stretch between two consecutive percent signs names a
  variable with a value.\<close>

definition envKeepsWin :: "platform \<Rightarrow> Environment option \<Rightarrow> qstring option \<Rightarrow> qstring \<Rightarrow> bool" where
  "envKeepsWin P env pwd args = (case env of None \<Rightarrow> True | Some en \<Rightarrow> unknownRefs P en pwd args)"

text \<open>The pieces of a value between tabs, line feeds and spaces, in the words of the
  specification: the value is cut at every one of these characters, and the empty pieces
  are dropped.\<close>

fun cutAt :: "('a \<Rightarrow> bool) \<Rightarrow> 'a list \<Rightarrow> 'a list list" where
  "cutAt p [] = [[]]"
| "cutAt p (x # xs) =
     (if p x then [] # cutAt p xs
      else (case cutAt p xs of w # ws \<Rightarrow> (x # w) # ws | [] \<Rightarrow> [[x]]))"

definition whitespacePieces :: "qstring \<Rightarrow> qstring list" where
  "whitespacePieces val = filter (\<lambda>w. w \<noteq> []) (cutAt (\<lambda>c. c = TAB \<or> c = LF \<or> c = SPACE) val)"

section \<open>The argument iterator\<close>

text \<open>The main state of the Unix shell parser.\<close>

datatype MxQuoting = MxBasic | MxSingleQuote | MxDoubleQuote | MxParen | MxSubst | MxGroup | MxMath

record MxState =
  current :: MxQuoting
  dquote :: bool

text \<open>
  An \<^verbatim>\<open>ArgIterator\<close> walks over the string \<open>m_str\<close> that it points to; \<open>m_pos\<close> is the cursor
  and \<open>m_prev\<close> the start of the argument found last, \<open>-1\<close> before the first one.
\<close>

record ArgIterator =
  m_str :: qstring
  m_pos :: nat
  m_prev :: int
  m_simple :: bool
  m_value :: qstring
  m_osType :: OsType

definition ArgIterator_init :: "qstring \<Rightarrow> OsType \<Rightarrow> ArgIterator" where
  "ArgIterator_init str osType =
     \<lparr>m_str = str, m_pos = 0, m_prev = - 1, m_simple = True, m_value = [], m_osType = osType\<rparr>"

text \<open>
  The local variables of the Unix branch of \<^verbatim>\<open>next\<close>. The stacks are lists with the top
  in front. \<^verbatim>\<open>QStack::pop\<close> on an empty stack has no defined result; the model makes it the
  outcome \<open>StackUnderflow\<close>.
\<close>

record nextUnixState =
  nu_pos :: nat
  nu_state :: MxState
  nu_sstack :: "MxState list"
  nu_ostack :: "nat list"
  nu_hadWord :: bool
  nu_simple :: bool
  nu_value :: qstring

text \<open>How the loop is left: by \<^verbatim>\<open>break\<close> or its condition, by the \<^verbatim>\<open>return true\<close> inside the
  scan for the closing backtick, or by a pop of an empty stack. One pass through the body
  gives \<open>Inl\<close> of the state for \<^verbatim>\<open>continue\<close> and for the end of the body, which both go on
  with \<^verbatim>\<open>m_pos++\<close>, and \<open>Inr\<close> of the exit otherwise.\<close>

datatype 's loopExit = Break 's | ReturnTrue 's | StackUnderflow

text \<open>The scan for the closing backtick, from the cursor \<open>pos\<close>: the position of the
  closing backtick, or \<open>None\<close> with the cursor behind the end.\<close>

function skipBackticks :: "qstring \<Rightarrow> nat \<Rightarrow> nat option \<times> nat" where
  "skipBackticks str pos =
     (if length str \<le> pos + 1 then (None, pos + 1)
      else if str ! (pos + 1) = BACKTICK then (Some (pos + 1), pos + 1)
      else skipBackticks str (if str ! (pos + 1) = BSLASH then pos + 2 else pos + 1))"
  by pat_completeness auto
termination
  by (relation "measure (\<lambda>(str, pos). length str - pos)") auto

declare skipBackticks.simps [simp del]

definition popState :: "nextUnixState \<Rightarrow> nextUnixState option" where
  "popState s =
     (case nu_sstack s of
        [] \<Rightarrow> None
      | saved # stack \<Rightarrow> Some (s\<lparr>nu_state := saved, nu_sstack := stack\<rparr>))"

definition pushState :: "nextUnixState \<Rightarrow> nextUnixState" where
  "pushState s = s\<lparr>nu_sstack := nu_state s # nu_sstack s\<rparr>"

definition continueWith :: "nextUnixState option \<Rightarrow> nextUnixState + nextUnixState loopExit" where
  "continueWith r = (case r of None \<Rightarrow> Inr StackUnderflow | Some s \<Rightarrow> Inl s)"

text \<open>The end of the body: \<^verbatim>\<open>m_value += QChar(cc); hadWord = true\<close>.\<close>

definition takeChar :: "qchar \<Rightarrow> nextUnixState \<Rightarrow> nextUnixState + nextUnixState loopExit" where
  "takeChar cc s = Inl (s\<lparr>nu_value := nu_value s @ [cc], nu_hadWord := True\<rparr>)"

definition next_unix_body ::
  "qstring \<Rightarrow> nextUnixState \<Rightarrow> nextUnixState + nextUnixState loopExit" where
  "next_unix_body str s =
     (let cc = str ! nu_pos s; st = nu_state s in
      if current st = MxSingleQuote then
        (if cc = SQUOTE then continueWith (popState s) else takeChar cc s)
      else if cc = BSLASH then
        (let s = s\<lparr>nu_pos := nu_pos s + 1\<rparr> in
         if length str \<le> nu_pos s then Inr (Break s)
         else
           (let cc = str ! nu_pos s;
                s = (if dquote st \<and> cc \<noteq> DQUOTE \<and> cc \<noteq> BSLASH \<and> cc \<noteq> DOLLAR \<and> cc \<noteq> BACKTICK
                     then s\<lparr>nu_value := nu_value s @ [BSLASH]\<rparr> else s)
            in takeChar cc s))
      else if cc = DOLLAR then
        (let s = s\<lparr>nu_pos := nu_pos s + 1\<rparr> in
         if length str \<le> nu_pos s then Inr (Break s)
         else
           (let cc = str ! nu_pos s in
            if cc = LPAREN then
              (let s = pushState s; s = s\<lparr>nu_pos := nu_pos s + 1\<rparr> in
               if length str \<le> nu_pos s then Inr (Break s)
               else if str ! nu_pos s = LPAREN then
                 Inl (s\<lparr>nu_ostack := nu_pos s # nu_ostack s,
                              nu_state := (nu_state s)\<lparr>current := MxMath\<rparr>,
                              nu_simple := False, nu_hadWord := True\<rparr>)
               else
                 Inl (s\<lparr>nu_state := \<lparr>current = MxParen, dquote = False\<rparr>,
                              nu_simple := False, nu_hadWord := True\<rparr>))
            else if cc = LBRACE then
              (let s = pushState s in
               Inl (s\<lparr>nu_state := (nu_state s)\<lparr>current := MxSubst\<rparr>,
                            nu_simple := False, nu_hadWord := True\<rparr>))
            else Inl (s\<lparr>nu_simple := False, nu_hadWord := True\<rparr>)))
      else if cc = BACKTICK then
        (case skipBackticks str (nu_pos s) of
           (None, pos) \<Rightarrow> Inr (ReturnTrue (s\<lparr>nu_pos := pos, nu_simple := False\<rparr>))
         | (Some _, pos) \<Rightarrow> Inl (s\<lparr>nu_pos := pos, nu_simple := False, nu_hadWord := True\<rparr>))
      else if current st = MxDoubleQuote then
        (if cc = DQUOTE then continueWith (popState s) else takeChar cc s)
      else if cc = SQUOTE then
        (if \<not> dquote st then
           (let s = pushState s in
            Inl (s\<lparr>nu_state := (nu_state s)\<lparr>current := MxSingleQuote\<rparr>, nu_hadWord := True\<rparr>))
         else takeChar cc s)
      else if cc = DQUOTE then
        (if \<not> dquote st then
           (let s = pushState s in
            Inl (s\<lparr>nu_state := \<lparr>current = MxDoubleQuote, dquote = True\<rparr>, nu_hadWord := True\<rparr>))
         else takeChar cc s)
      else if current st = MxSubst then
        (if cc = RBRACE then continueWith (popState s) else Inl s)
      else if cc = RPAREN then
        (if current st = MxMath then
           (let s = s\<lparr>nu_pos := nu_pos s + 1\<rparr> in
            if length str \<le> nu_pos s then Inr (Break s)
            else if str ! nu_pos s = RPAREN then
              (case nu_ostack s of
                 [] \<Rightarrow> Inr StackUnderflow
               | _ # ostack \<Rightarrow> continueWith (popState (s\<lparr>nu_ostack := ostack\<rparr>)))
            else
              (case nu_ostack s of
                 [] \<Rightarrow> Inr StackUnderflow
               | pos # ostack \<Rightarrow>
                   (let s = s\<lparr>nu_pos := pos, nu_ostack := ostack,
                                nu_state := \<lparr>current = MxParen, dquote = False\<rparr>\<rparr>
                    in Inl (pushState s))))
         else if current st = MxParen then continueWith (popState s)
         else Inr (Break s))
      else if cc = LPAREN then
        (let s = pushState s in
         Inl (s\<lparr>nu_state := (nu_state s)\<lparr>current := MxParen\<rparr>,
                      nu_simple := False, nu_hadWord := True\<rparr>))
      else if cc = 0x3C \<or> cc = 0x3E \<or> cc = 0x26 \<or> cc = 0x7C \<or> cc = 0x3B then
        (if nu_sstack s = [] then Inr (Break s) else takeChar cc s)
      else if cc = SPACE \<or> cc = TAB then
        (if \<not> nu_hadWord s then Inl s
         else if nu_sstack s = [] then Inr (Break s)
         else takeChar cc s)
      else takeChar cc s)"

text \<open>The loop \<^verbatim>\<open>for (; m_pos < m_str->length(); m_pos++)\<close>. A false hit of \<^verbatim>\<open>$((\<close> moves the
  cursor back, so the loop is defined as a partial function: \<open>None\<close> stands for a run
  without end.\<close>

partial_function (option) next_unix_loop ::
  "qstring \<Rightarrow> nextUnixState \<Rightarrow> nextUnixState loopExit option" where
  "next_unix_loop str s =
     (if nu_pos s < length str then
        (case next_unix_body str s of
           Inl s' \<Rightarrow> next_unix_loop str (s'\<lparr>nu_pos := nu_pos s' + 1\<rparr>)
         | Inr exit \<Rightarrow> Some exit)
      else Some (Break s))"

declare next_unix_loop.simps [code]

text \<open>The local variables of the Windows branch of \<^verbatim>\<open>next\<close>.\<close>

datatype ShellState = ShellBasic | ShellQuoted | ShellEscaped

datatype CrtState = CrtBasic | CrtInWord | CrtClosed | CrtQuoted

datatype VarState = NoVar | NewVar | FullVar

record nextWinState =
  nw_pos :: nat
  nw_shellState :: ShellState
  nw_crtState :: CrtState
  nw_varState :: VarState
  nw_bslashes :: nat
  nw_simple :: bool
  nw_value :: qstring

text \<open>The label \<^verbatim>\<open>doReturn\<close>: the value of \<^verbatim>\<open>next\<close> and the final state.\<close>

definition doReturn :: "nextWinState \<Rightarrow> bool \<times> nextWinState" where
  "doReturn s =
     (nw_crtState s \<noteq> CrtBasic,
      if nw_simple s then s\<lparr>nw_value := nw_value s @ replicate (nw_bslashes s) BSLASH\<rparr>
      else s\<lparr>nw_value := []\<rparr>)"

text \<open>The end of the body: \<^verbatim>\<open>if (shellState == ShellEscaped) shellState = ShellBasic\<close>.\<close>

definition endEscape :: "nextWinState \<Rightarrow> nextWinState" where
  "endEscape s = (if nw_shellState s = ShellEscaped then s\<lparr>nw_shellState := ShellBasic\<rparr> else s)"

definition enterWord :: "nextWinState \<Rightarrow> nextWinState" where
  "enterWord s = (if nw_crtState s \<noteq> CrtQuoted then s\<lparr>nw_crtState := CrtInWord\<rparr> else s)"

text \<open>The pending backslashes and the character go into the value.\<close>

definition emitChar :: "qchar \<Rightarrow> nextWinState \<Rightarrow> nextWinState" where
  "emitChar cc s =
     s\<lparr>nw_value := nw_value s @ replicate (nw_bslashes s) BSLASH @ [cc], nw_bslashes := 0\<rparr>"

text \<open>The body of the loop for the character \<open>cc\<close>, which is 0 behind the end of the
  string: the state for the next pass, or the result of \<^verbatim>\<open>doReturn\<close>.\<close>

definition next_win_body ::
  "platform \<Rightarrow> qchar \<Rightarrow> nextWinState \<Rightarrow> nextWinState + bool \<times> nextWinState" where
  "next_win_body P cc s =
     (if nw_shellState s = ShellBasic \<and> cc = CARET then
        Inl (s\<lparr>nw_varState := NoVar, nw_shellState := ShellEscaped\<rparr>)
      else if (nw_shellState s = ShellBasic \<and> isMetaCharWin cc) \<or> cc = 0 then Inr (doReturn s)
      else if nw_crtState s \<noteq> CrtQuoted \<and> (cc = SPACE \<or> cc = TAB) then
        (if nw_crtState s \<noteq> CrtBasic then Inr (doReturn s) else Inl (endEscape s))
      else if cc = BSLASH then
        Inl (endEscape ((enterWord (s\<lparr>nw_bslashes := nw_bslashes s + 1\<rparr>))\<lparr>nw_varState := NoVar\<rparr>))
      else if cc = DQUOTE then
        (let obslashes = nw_bslashes s;
             s = s\<lparr>nw_varState := NoVar,
                    nw_shellState :=
                      (if nw_shellState s \<noteq> ShellEscaped
                       then (if nw_shellState s = ShellQuoted then ShellBasic else ShellQuoted)
                       else nw_shellState s),
                    nw_bslashes := obslashes div 2\<rparr>
         in if even obslashes then
              (case nw_crtState s of
                 CrtQuoted \<Rightarrow> Inl (s\<lparr>nw_crtState := CrtClosed\<rparr>)
               | CrtClosed \<Rightarrow> Inl (endEscape (emitChar cc (s\<lparr>nw_crtState := CrtInWord\<rparr>)))
               | _ \<Rightarrow> Inl (s\<lparr>nw_crtState := CrtQuoted\<rparr>))
            else Inl (endEscape (emitChar cc (enterWord s))))
      else
        (let s = (if cc = PERCENT then
                    (if nw_varState s = FullVar then s\<lparr>nw_simple := False, nw_varState := NoVar\<rparr>
                     else s\<lparr>nw_varState := NewVar\<rparr>)
                  else if nw_varState s \<noteq> NoVar then
                    s\<lparr>nw_varState :=
                        (if cc = UNDERSCORE \<or> cc = 0x2D \<or> cc = 0x2E \<or> isLetterOrNumber P cc
                         then FullVar else NoVar)\<rparr>
                  else s)
         in Inl (endEscape (emitChar cc (enterWord s)))))"

lemma next_win_body_Inl:
  "next_win_body P cc s = Inl s' \<Longrightarrow> cc \<noteq> 0 \<and> nw_pos s' = nw_pos s"
  by (auto simp: next_win_body_def endEscape_def enterWord_def emitChar_def Let_def
      split: if_splits CrtState.splits)

text \<open>The loop \<^verbatim>\<open>for (;; m_pos++)\<close>.\<close>

function next_win_loop :: "platform \<Rightarrow> qstring \<Rightarrow> nextWinState \<Rightarrow> bool \<times> nextWinState" where
  "next_win_loop P str s =
     (case next_win_body P (if nw_pos s < length str then str ! nw_pos s else 0) s of
        Inl s' \<Rightarrow> next_win_loop P str (s'\<lparr>nw_pos := nw_pos s' + 1\<rparr>)
      | Inr res \<Rightarrow> res)"
  by pat_completeness auto
termination
  apply (relation "measure (\<lambda>(P, str, s). length str - nw_pos s)")
   apply simp
  subgoal for P str s s'
    using next_win_body_Inl [of P "if nw_pos s < length str then str ! nw_pos s else 0" s s']
    by (auto split: if_splits)
  done

declare next_win_loop.simps [simp del]

text \<open>
  \<^verbatim>\<open>next\<close> gives its value and the iterator it leaves. \<open>Undefined\<close> is a run that pops an
  empty stack, and \<open>None\<close> one that does not return.
\<close>

datatype 'a outcome = Done 'a | Undefined

definition "next" :: "platform \<Rightarrow> ArgIterator \<Rightarrow> (bool \<times> ArgIterator) outcome option" where
  "next P it =
     (let prev = m_pos it in
      if m_osType it = OsTypeWindows then
        (let (found, s) = next_win_loop P (m_str it)
               \<lparr>nw_pos = m_pos it, nw_shellState = ShellBasic, nw_crtState = CrtBasic,
                nw_varState = NoVar, nw_bslashes = 0, nw_simple = True, nw_value = []\<rparr>
         in Some (Done (found,
              it\<lparr>m_pos := nw_pos s, m_simple := nw_simple s, m_value := nw_value s,
                 m_prev := (if found then int prev else m_prev it)\<rparr>)))
      else
        (case next_unix_loop (m_str it)
                \<lparr>nu_pos = m_pos it, nu_state = \<lparr>current = MxBasic, dquote = False\<rparr>,
                 nu_sstack = [], nu_ostack = [], nu_hadWord = False, nu_simple = True,
                 nu_value = []\<rparr> of
           None \<Rightarrow> None
         | Some StackUnderflow \<Rightarrow> Some Undefined
         | Some (ReturnTrue s) \<Rightarrow>
             Some (Done (True,
               it\<lparr>m_pos := nu_pos s, m_simple := nu_simple s, m_value := nu_value s,
                  m_prev := int prev\<rparr>))
         | Some (Break s) \<Rightarrow>
             Some (Done (nu_hadWord s,
               it\<lparr>m_pos := nu_pos s, m_simple := nu_simple s,
                  m_value := (if nu_simple s then nu_value s else []),
                  m_prev := (if nu_hadWord s then int prev else m_prev it)\<rparr>))))"

text \<open>\<^verbatim>\<open>isSimple()\<close> and \<^verbatim>\<open>value()\<close> read \<open>m_simple\<close> and \<open>m_value\<close>. The loop of a caller that
  asks for arguments until \<^verbatim>\<open>next\<close> returns false collects the values and whether each
  argument was simple.\<close>

partial_function (option) allArgs ::
  "platform \<Rightarrow> (bool \<times> qstring) list \<Rightarrow> ArgIterator \<Rightarrow> (bool \<times> qstring) list outcome option" where
  "allArgs P acc it =
     (case next P it of
        None \<Rightarrow> None
      | Some Undefined \<Rightarrow> Some Undefined
      | Some (Done (found, it')) \<Rightarrow>
          (if found then allArgs P (acc @ [(m_simple it', m_value it')]) it' else Some (Done acc)))"

declare allArgs.simps [code]

text \<open>
  Command lines that need no shell: the words are made of plain characters, of characters
  behind a backslash, of strings in single quotes and of strings in double quotes that
  hold no dollar sign and no backtick, and blanks or tabs stand between the words. A plain
  character is one that neither \<^verbatim>\<open>next\<close> nor \<^verbatim>\<open>splitArgsUnix\<close> treats in a way of its own.
\<close>

datatype dqItem = DqChar qchar | DqEscaped qchar

datatype piece = Plain qchar | Escaped qchar | SingleQuoted qstring | DoubleQuoted "dqItem list"

fun renderDq :: "dqItem \<Rightarrow> qstring" where
  "renderDq (DqChar c) = [c]"
| "renderDq (DqEscaped c) = [BSLASH, c]"

fun decodeDq :: "dqItem \<Rightarrow> qstring" where
  "decodeDq (DqChar c) = [c]"
| "decodeDq (DqEscaped c) = (if c = DQUOTE \<or> c = BSLASH then [c] else [BSLASH, c])"

fun renderPiece :: "piece \<Rightarrow> qstring" where
  "renderPiece (Plain c) = [c]"
| "renderPiece (Escaped c) = [BSLASH, c]"
| "renderPiece (SingleQuoted q) = SQUOTE # q @ [SQUOTE]"
| "renderPiece (DoubleQuoted items) = DQUOTE # concat (map renderDq items) @ [DQUOTE]"

fun decodePiece :: "piece \<Rightarrow> qstring" where
  "decodePiece (Plain c) = [c]"
| "decodePiece (Escaped c) = [c]"
| "decodePiece (SingleQuoted q) = q"
| "decodePiece (DoubleQuoted items) = concat (map decodeDq items)"

definition renderWord :: "piece list \<Rightarrow> qstring" where
  "renderWord w = concat (map renderPiece w)"

definition decodeWord :: "piece list \<Rightarrow> qstring" where
  "decodeWord w = concat (map decodePiece w)"

definition plainChar :: "platform \<Rightarrow> bool \<Rightarrow> qchar \<Rightarrow> bool" where
  "plainChar P abortOnMeta c =
     (\<not> isSpace P c \<and> c \<noteq> BSLASH \<and> c \<noteq> DOLLAR \<and> c \<noteq> BACKTICK \<and> c \<noteq> SQUOTE \<and> c \<noteq> DQUOTE \<and>
      c \<noteq> LPAREN \<and> c \<noteq> RPAREN \<and> c \<noteq> 0x3C \<and> c \<noteq> 0x3E \<and> c \<noteq> 0x26 \<and> c \<noteq> 0x7C \<and> c \<noteq> 0x3B \<and>
      c \<noteq> TILDE \<and> (abortOnMeta \<longrightarrow> \<not> isMetaUnix c))"

fun dqItemOk :: "dqItem \<Rightarrow> bool" where
  "dqItemOk (DqChar c) = (c \<noteq> DQUOTE \<and> c \<noteq> BSLASH \<and> c \<noteq> DOLLAR \<and> c \<noteq> BACKTICK)"
| "dqItemOk (DqEscaped c) = (c \<noteq> DOLLAR \<and> c \<noteq> BACKTICK)"

fun pieceOk :: "platform \<Rightarrow> bool \<Rightarrow> piece \<Rightarrow> bool" where
  "pieceOk P abortOnMeta (Plain c) = plainChar P abortOnMeta c"
| "pieceOk P abortOnMeta (Escaped c) = True"
| "pieceOk P abortOnMeta (SingleQuoted q) = (SQUOTE \<notin> set q)"
| "pieceOk P abortOnMeta (DoubleQuoted items) = list_all dqItemOk items"

definition wordOk :: "platform \<Rightarrow> bool \<Rightarrow> piece list \<Rightarrow> bool" where
  "wordOk P abortOnMeta w = (w \<noteq> [] \<and> list_all (pieceOk P abortOnMeta) w)"

definition blanks :: "qstring \<Rightarrow> bool" where
  "blanks sep = list_all (\<lambda>c. c = SPACE \<or> c = TAB) sep"

text \<open>A line is a list of words, each with the blanks in front of it.\<close>

definition renderLine :: "(qstring \<times> piece list) list \<Rightarrow> qstring" where
  "renderLine items = concat (map (\<lambda>(sep, w). sep @ renderWord w) items)"

section \<open>Newline normalisation\<close>

text \<open>
  \<^verbatim>\<open>std::unique(first, last, p)\<close> works in place: \<open>result\<close> is the index of the last element
  kept, \<open>first\<close> the index of the element read last; it returns the new logical end. The
  elements behind the new end are left over and chopped off by the caller.
\<close>

function std_unique_loop ::
  "('a \<Rightarrow> 'a \<Rightarrow> bool) \<Rightarrow> 'a list \<Rightarrow> nat \<Rightarrow> nat \<Rightarrow> 'a list \<times> nat" where
  "std_unique_loop p a result first =
     (if Suc first < length a then
        (if \<not> p (a ! result) (a ! Suc first) then
           std_unique_loop p
             (if Suc result \<noteq> Suc first then a[Suc result := a ! Suc first] else a)
             (Suc result) (Suc first)
         else std_unique_loop p a result (Suc first))
      else (a, Suc result))"
  by pat_completeness auto
termination
  by (relation "measure (\<lambda>(p, a, result, first). length a - first)") auto

declare std_unique_loop.simps [simp del]

definition std_unique :: "('a \<Rightarrow> 'a \<Rightarrow> bool) \<Rightarrow> 'a list \<Rightarrow> 'a list \<times> nat" where
  "std_unique p a = (if a = [] then (a, 0) else std_unique_loop p a 0 0)"

definition normalizeNewlines :: "qstring \<Rightarrow> qstring" where
  "normalizeNewlines text =
     (let (res, newEnd) = std_unique (\<lambda>c1 c2. c1 = CR \<and> c2 = CR) text;
          res = chop (length res - newEnd) res
      in qreplace [CR, LF] [LF] res)"

text \<open>The two passes in the words of the specification: a run of carriage returns
  becomes one carriage return; then a carriage return followed by a line feed becomes a
  line feed.\<close>

fun collapse_cr_runs :: "qstring \<Rightarrow> qstring" where
  "collapse_cr_runs (x # y # zs) =
     (if x = CR \<and> y = CR then collapse_cr_runs (y # zs) else x # collapse_cr_runs (y # zs))"
| "collapse_cr_runs xs = xs"

fun crlf_to_lf :: "qstring \<Rightarrow> qstring" where
  "crlf_to_lf (x # y # zs) =
     (if x = CR \<and> y = LF then LF # crlf_to_lf zs else x # crlf_to_lf (y # zs))"
| "crlf_to_lf xs = xs"

section \<open>Synchronous process bookkeeping\<close>

datatype Result = Finished | FinishedError | TerminatedAbnormally | StartFailed | Hang

datatype ExitStatus = NormalExit | CrashExit

record SynchronousProcessResponse =
  result :: Result
  exitCode :: cint
  rawStdOut :: "8 word list"
  rawStdErr :: "8 word list"

definition defaultExitCodeInterpreter :: "cint \<Rightarrow> Result" where
  "defaultExitCodeInterpreter code = (if code \<noteq> 0 then FinishedError else Finished)"

text \<open>The fields of \<^verbatim>\<open>QtcProcessPrivate\<close> that the timeout and exit handling reads or
  writes; \<open>m_eventLoopRunning\<close> stands for the nested event loop that
  \<^verbatim>\<open>m_eventLoop.quit()\<close> leaves.\<close>

record QtcProcessPrivate =
  m_result :: SynchronousProcessResponse
  m_exitCodeInterpreter :: "cint \<Rightarrow> Result"
  m_hangTimerCount :: cint
  m_maxHangTimerCount :: cint
  m_startFailure :: bool
  m_timeOutMessageBoxEnabled :: bool
  m_waitingForUser :: bool
  m_eventLoopRunning :: bool

text \<open>\<^verbatim>\<open>SynchronousProcessResponse::clear\<close> and the state of a \<^verbatim>\<open>QtcProcessPrivate\<close> after
  its member initialisers and \<^verbatim>\<open>clearForRun\<close>.\<close>

definition clear :: "SynchronousProcessResponse \<Rightarrow> SynchronousProcessResponse" where
  "clear r = r\<lparr>result := StartFailed, exitCode := - 1, rawStdOut := [], rawStdErr := []\<rparr>"

definition defaultMaxHangTimerCount :: cint where
  "defaultMaxHangTimerCount = 10"

definition clearedForRun :: QtcProcessPrivate where
  "clearedForRun =
     \<lparr>m_result = clear \<lparr>result = StartFailed, exitCode = 0, rawStdOut = [], rawStdErr = []\<rparr>,
      m_exitCodeInterpreter = defaultExitCodeInterpreter,
      m_hangTimerCount = 0,
      m_maxHangTimerCount = defaultMaxHangTimerCount,
      m_startFailure = False,
      m_timeOutMessageBoxEnabled = False,
      m_waitingForUser = False,
      m_eventLoopRunning = False\<rparr>"

definition INT_MAX :: cint where
  "INT_MAX = 0x7FFFFFFF"

definition qMax :: "cint \<Rightarrow> cint \<Rightarrow> cint" where
  "qMax a b = (if a <s b then b else a)"

text \<open>\<^verbatim>\<open>INT_MAX / 1000\<close> divides two positive values, where the unsigned division of
  words and the truncating division of C++ agree.\<close>

definition setTimeoutS :: "QtcProcessPrivate \<Rightarrow> cint \<Rightarrow> QtcProcessPrivate" where
  "setTimeoutS d timeoutS =
     (if 0 <s timeoutS then d\<lparr>m_maxHangTimerCount := qMax 2 timeoutS\<rparr>
      else d\<lparr>m_maxHangTimerCount := INT_MAX div 1000\<rparr>)"

definition slotFinished :: "QtcProcessPrivate \<Rightarrow> cint \<Rightarrow> ExitStatus \<Rightarrow> QtcProcessPrivate" where
  "slotFinished d code e =
     (let d = d\<lparr>m_hangTimerCount := 0\<rparr>;
          d = (case e of
                 NormalExit \<Rightarrow>
                   d\<lparr>m_result := (m_result d)\<lparr>result := m_exitCodeInterpreter d code,
                                               exitCode := code\<rparr>\<rparr>
               | CrashExit \<Rightarrow>
                   (let d = (if result (m_result d) \<noteq> Hang
                             then d\<lparr>m_result := (m_result d)\<lparr>result := TerminatedAbnormally\<rparr>\<rparr>
                             else d)
                    in d\<lparr>m_result := (m_result d)\<lparr>exitCode := - 1\<rparr>\<rparr>))
      in d\<lparr>m_eventLoopRunning := False\<rparr>)"

section \<open>Channel buffers\<close>

text \<open>
  The text decoder is a service of Qt: \<^verbatim>\<open>QTextCodec::toUnicode(chars, len, state)\<close> converts
  bytes to text and updates the converter state, which keeps an incomplete multi-byte
  sequence for the next call. A codec is a parameter here, with the state of a fresh
  \<^verbatim>\<open>ConverterState\<close>; \<^verbatim>\<open>toUnicode(bytes)\<close> without a state converts from a fresh one.
\<close>

record 'cs TextCodec =
  toUnicode :: "8 word list \<Rightarrow> 'cs \<Rightarrow> qstring \<times> 'cs"
  freshState :: 'cs

definition toUnicodeAll :: "'cs TextCodec \<Rightarrow> 8 word list \<Rightarrow> qstring" where
  "toUnicodeAll codec bytes = fst (toUnicode codec bytes (freshState codec))"

text \<open>Latin-1, the codec without a state, for concrete runs.\<close>

definition latin1Codec :: "unit TextCodec" where
  "latin1Codec = \<lparr>toUnicode = (\<lambda>bytes st. (map ucast bytes, st)), freshState = ()\<rparr>"

text \<open>\<open>hasOutputCallback\<close> tells whether \<^verbatim>\<open>outputCallback\<close> is set; the calls of the callback
  are the lines that \<open>append_bytes\<close> returns.\<close>

record 'cs ChannelBuffer =
  rawData :: "8 word list"
  incompleteLineBuffer :: qstring
  codec :: "'cs TextCodec"
  codecState :: 'cs
  rawDataPos :: nat
  hasOutputCallback :: bool

definition clearForRun :: "'cs ChannelBuffer \<Rightarrow> 'cs ChannelBuffer" where
  "clearForRun b =
     b\<lparr>rawDataPos := 0, rawData := [], codecState := freshState (codec b),
       incompleteLineBuffer := []\<rparr>"

text \<open>\<^verbatim>\<open>QString::lastIndexOf(ch)\<close>, with \<open>-1\<close> when the character does not occur.\<close>

definition lastIndexOf :: "qstring \<Rightarrow> qchar \<Rightarrow> int" where
  "lastIndexOf s c =
     (if c \<in> set s then int (length s) - 1 - int (length (takeWhile (\<lambda>x. x \<noteq> c) (rev s)))
      else - 1)"

definition linesRead :: "'cs ChannelBuffer \<Rightarrow> qstring \<times> 'cs ChannelBuffer" where
  "linesRead b =
     (let (decoded, st) = toUnicode (codec b) (drop (rawDataPos b) (rawData b)) (codecState b);
          b = b\<lparr>incompleteLineBuffer := incompleteLineBuffer b @ decoded, codecState := st,
                 rawDataPos := length (rawData b)\<rparr>;
          lastLineIndex = max (lastIndexOf (incompleteLineBuffer b) LF)
                              (lastIndexOf (incompleteLineBuffer b) CR)
      in if lastLineIndex = - 1 then ([], b)
         else (normalizeNewlines (take (nat (lastLineIndex + 1)) (incompleteLineBuffer b)),
               b\<lparr>incompleteLineBuffer := drop (nat (lastLineIndex + 1)) (incompleteLineBuffer b)\<rparr>))"

text \<open>\<^verbatim>\<open>ChannelBuffer::append\<close> returns the buffer and the argument of the call of the callback, if it is
  called.\<close>

definition append_bytes :: "'cs ChannelBuffer \<Rightarrow> 8 word list \<Rightarrow> bool \<Rightarrow> 'cs ChannelBuffer \<times> qstring option" where
  "append_bytes b bytes emitSignals =
     (if bytes = [] then (b, None)
      else
        (let b = b\<lparr>rawData := rawData b @ bytes\<rparr>
         in if \<not> emitSignals then (b, None)
            else if hasOutputCallback b then
              (case linesRead b of
                 (lines, b) \<Rightarrow> (b, if lines \<noteq> [] then Some lines else None))
            else (b, None)))"

text \<open>A run that receives the output in the given chunks, as the handlers of
  \<^verbatim>\<open>readyReadStandardOutput\<close> do: the buffer at the end and the arguments of the calls of the
  callback in order.\<close>

fun appendAll :: "'cs ChannelBuffer \<Rightarrow> 8 word list list \<Rightarrow> 'cs ChannelBuffer \<times> qstring list" where
  "appendAll b [] = (b, [])"
| "appendAll b (bytes # chunks) =
     (case append_bytes b bytes True of
        (b, out) \<Rightarrow>
          (case appendAll b chunks of
             (b, outs) \<Rightarrow> (b, (case out of None \<Rightarrow> [] | Some lines \<Rightarrow> [lines]) @ outs)))"

text \<open>\<^verbatim>\<open>SynchronousProcessResponse::stdOut\<close>, for the codec of the response.\<close>

definition stdOut :: "'cs TextCodec \<Rightarrow> SynchronousProcessResponse \<Rightarrow> qstring" where
  "stdOut c r = normalizeNewlines (toUnicodeAll c (rawStdOut r))"

text \<open>The texts that a codec makes of the chunks of a run, one after the other.\<close>

fun decodedChunks :: "'cs TextCodec \<Rightarrow> 'cs \<Rightarrow> 8 word list list \<Rightarrow> qstring list" where
  "decodedChunks c st [] = []"
| "decodedChunks c st (bytes # chunks) =
     (case toUnicode c bytes st of (decoded, st') \<Rightarrow> decoded # decodedChunks c st' chunks)"

text \<open>A streaming decoder gives the same text and state for an input received whole or in
  two parts, and makes nothing of no input.\<close>

definition streaming :: "'cs TextCodec \<Rightarrow> bool" where
  "streaming c =
     (\<forall>st a b. toUnicode c [] st = ([], st) \<and>
        toUnicode c (a @ b) st =
          (fst (toUnicode c a st) @ fst (toUnicode c b (snd (toUnicode c a st))),
           snd (toUnicode c b (snd (toUnicode c a st)))))"

text \<open>A buffer as \<^verbatim>\<open>QtcProcessPrivate::clearForRun\<close> leaves it for a process whose output
  callback is set.\<close>

definition bufferForRun :: "'cs TextCodec \<Rightarrow> 'cs ChannelBuffer" where
  "bufferForRun c =
     clearForRun \<lparr>rawData = [], incompleteLineBuffer = [], codec = c, codecState = freshState c,
                   rawDataPos = 0, hasOutputCallback = True\<rparr>"

section \<open>Macro expansion\<close>

text \<open>
  \<^verbatim>\<open>AbstractMacroExpander::findMacro(str, &pos, &ret)\<close> is a virtual function of the caller's
  expander: it looks for a macro in \<open>str\<close> from \<open>pos\<close> on and returns the length of the macro,
  0 if there is none, the position of the macro and its value. Here it is a function of
  the state of the expander, the string and the position, which gives the length, the
  position, the value and the new state of the expander.
\<close>

type_synonym 'x findMacro = "'x \<Rightarrow> qstring \<Rightarrow> nat \<Rightarrow> (nat \<times> nat \<times> qstring) \<times> 'x"

text \<open>\<^verbatim>\<open>str.unicode()[i]\<close>: the data of a \<^verbatim>\<open>QString\<close> ends with a null character, which is what
  the code reads at the position behind the last character. \<^verbatim>\<open>QString::insert(i, s)\<close> for
  a position inside the string or at its end.\<close>

definition charAt :: "qstring \<Rightarrow> nat \<Rightarrow> qchar" where
  "charAt str i = (if i < length str then str ! i else 0)"

definition insertAt :: "qstring \<Rightarrow> nat \<Rightarrow> qstring \<Rightarrow> qstring" where
  "insertAt s pos ins = take pos s @ ins @ drop pos s"

text \<open>
  \<^verbatim>\<open>quoteArgInternalWin(ret, bslashes)\<close> gives the new content of \<open>ret\<close> and the number it
  returns. The loop visits every character of the old content once, since it steps over
  what it inserts: in front of a double quote go as many backslashes as stand in front
  of it already, counted from \<open>bslashes\<close>, and the four characters \<^verbatim>\<open>"\^"\<close>.
\<close>

fun quoteArgInternalWin :: "qstring \<Rightarrow> nat \<Rightarrow> qstring \<times> nat" where
  "quoteArgInternalWin [] bslashes = ([], bslashes)"
| "quoteArgInternalWin (c # r) bslashes =
     (if c = BSLASH then
        (case quoteArgInternalWin r (bslashes + 1) of (out, b) \<Rightarrow> (c # out, b))
      else if c = DQUOTE then
        (case quoteArgInternalWin r 0 of
           (out, b) \<Rightarrow> (replicate bslashes BSLASH @ [DQUOTE, BSLASH, CARET, DQUOTE] @ c # out, b))
      else
        (case quoteArgInternalWin r 0 of (out, b) \<Rightarrow> (c # out, b)))"

text \<open>How the loops of \<^verbatim>\<open>expandMacros\<close> are left: by \<^verbatim>\<open>return false\<close>, by \<^verbatim>\<open>break\<close> or the
  condition of the loop with the string built so far, or by a pop of an empty stack.\<close>

datatype macroExit = ReturnFalse | LoopLeft qstring | PopEmpty

subsection \<open>The Windows branch\<close>

text \<open>The state of \<^verbatim>\<open>CommandLineToArgv\<close> parsing in \<^verbatim>\<open>expandMacros\<close>; the code compares the
  states by their numbers.\<close>

datatype CrtState_mx =
  CrtBasic_mx | CrtNeedWord | CrtInWord_mx | CrtClosed_mx | CrtHadQuote | CrtQuoted_mx | CrtNeedQuote

fun crtRank :: "CrtState_mx \<Rightarrow> nat" where
  "crtRank CrtBasic_mx = 0"
| "crtRank CrtNeedWord = 1"
| "crtRank CrtInWord_mx = 2"
| "crtRank CrtClosed_mx = 3"
| "crtRank CrtHadQuote = 4"
| "crtRank CrtQuoted_mx = 5"
| "crtRank CrtNeedQuote = 6"

text \<open>
  The variables of the Windows branch and the state of the expander. The positions are
  values of type \<^verbatim>\<open>int\<close>; \<open>mw_varPos\<close> is an integer without bound here, because the code adds
  to it after it has set it to \<^verbatim>\<open>INT_MAX\<close>: the sum is, like the negative number of a
  machine that wraps around, neither a position of the string nor \<^verbatim>\<open>INT_MAX\<close>.
\<close>

record 'x macroWinState =
  mw_str :: qstring
  mw_pos :: nat
  mw_varPos :: int
  mw_varLen :: nat
  mw_rsts :: qstring
  mw_shellState :: ShellState
  mw_crtState :: CrtState_mx
  mw_bslashes :: nat
  mw_rbslashes :: nat
  mw_mx :: 'x

text \<open>The block for \<^verbatim>\<open>pos == varPos\<close>: the value is quoted as the state asks for and put in
  the place of the macro, and the next macro is looked for.\<close>

definition expandAtWin ::
  "'x findMacro \<Rightarrow> 'x macroWinState \<Rightarrow> 'x macroWinState + macroExit" where
  "expandAtWin findMacro s =
     (if mw_shellState s = ShellEscaped then Inr ReturnFalse
      else if (mw_shellState s = ShellQuoted) \<noteq> (mw_crtState s = CrtQuoted_mx) then Inr ReturnFalse
      else
        (let s = s\<lparr>mw_rbslashes := mw_rbslashes s + mw_bslashes s, mw_bslashes := 0\<rparr>;
             quoted =
               (if crtRank (mw_crtState s) < crtRank CrtQuoted_mx then
                  (if mw_rsts s = [] then
                     Some (if mw_crtState s = CrtBasic_mx then s\<lparr>mw_crtState := CrtNeedWord\<rparr> else s)
                   else if hasSpecialCharsWin (mw_rsts s) then
                     (if mw_crtState s = CrtClosed_mx then None
                      else
                        (case quoteArgInternalWin (mw_rsts s) 0 of
                           (rsts, tbslashes) \<Rightarrow>
                             Some (s\<lparr>mw_rsts := replicate (mw_rbslashes s) BSLASH @ DQUOTE # rsts,
                                     mw_crtState := CrtNeedQuote, mw_rbslashes := tbslashes\<rparr>)))
                   else
                     (case quoteArgInternalWin (mw_rsts s) (mw_rbslashes s) of
                        (rsts, rbslashes) \<Rightarrow>
                          Some (s\<lparr>mw_crtState := CrtInWord_mx, mw_rsts := rsts,
                                  mw_rbslashes := rbslashes\<rparr>)))
                else
                  (case quoteArgInternalWin (mw_rsts s) (mw_rbslashes s) of
                     (rsts, rbslashes) \<Rightarrow> Some (s\<lparr>mw_rsts := rsts, mw_rbslashes := rbslashes\<rparr>)))
         in case quoted of
              None \<Rightarrow> Inr ReturnFalse
            | Some s \<Rightarrow>
                (let str = replaceAt (mw_str s) (mw_pos s) (mw_varLen s) (mw_rsts s);
                     pos = mw_pos s + length (mw_rsts s)
                 in case findMacro (mw_mx s) str pos of
                      ((varLen, varPos, rsts), mx) \<Rightarrow>
                        Inl (s\<lparr>mw_str := str, mw_pos := pos, mw_varLen := varLen, mw_rsts := rsts,
                               mw_varPos := (if varLen = 0 then sint INT_MAX else int varPos),
                               mw_mx := mx\<rparr>))))"

text \<open>The block for \<^verbatim>\<open>crtState == CrtNeedQuote\<close>: the quote that a value opened is closed
  in front of the next character.\<close>

definition closeQuoteWin :: "'x macroWinState \<Rightarrow> 'x macroWinState" where
  "closeQuoteWin s =
     (if mw_crtState s = CrtNeedQuote then
        s\<lparr>mw_str := insertAt (mw_str s) (mw_pos s) (replicate (mw_rbslashes s) BSLASH @ [DQUOTE]),
          mw_pos := mw_pos s + mw_rbslashes s + 1,
          mw_varPos := mw_varPos s + int (mw_rbslashes s) + 1,
          mw_rbslashes := 0, mw_crtState := CrtHadQuote\<rparr>
      else s)"

definition inWordWin :: "'x macroWinState \<Rightarrow> 'x macroWinState" where
  "inWordWin s =
     (if crtRank (mw_crtState s) < crtRank CrtQuoted_mx then s\<lparr>mw_crtState := CrtInWord_mx\<rparr> else s)"

text \<open>The end of the body behind the character: the loop is left when there is no macro
  any more and no backslash is pending, and an escape ends.\<close>

definition afterCharWin :: "'x macroWinState \<Rightarrow> 'x macroWinState + macroExit" where
  "afterCharWin s =
     (if mw_varPos s = sint INT_MAX \<and> mw_rbslashes s = 0 then Inr (LoopLeft (mw_str s))
      else
        (let s = (if mw_shellState s = ShellEscaped then s\<lparr>mw_shellState := ShellBasic\<rparr> else s)
         in Inl (s\<lparr>mw_pos := mw_pos s + 1\<rparr>)))"

text \<open>The rest of the body, for the character at \<open>pos\<close>.\<close>

definition scanCharWin :: "'x macroWinState \<Rightarrow> 'x macroWinState + macroExit" where
  "scanCharWin s =
     (let cc = charAt (mw_str s) (mw_pos s) in
      if mw_shellState s = ShellBasic \<and> cc = CARET then
        Inl (s\<lparr>mw_shellState := ShellEscaped, mw_pos := mw_pos s + 1\<rparr>)
      else if cc = 0 \<or> cc = SPACE \<or> cc = TAB then
        (let s = (if crtRank (mw_crtState s) < crtRank CrtQuoted_mx then
                    (if mw_crtState s = CrtNeedWord
                     then s\<lparr>mw_str := insertAt (mw_str s) (mw_pos s) [DQUOTE, DQUOTE],
                            mw_pos := mw_pos s + 2, mw_varPos := mw_varPos s + 2\<rparr>
                     else s)\<lparr>mw_crtState := CrtBasic_mx\<rparr>
                  else s)
         in if cc = 0 then Inr (LoopLeft (mw_str s))
            else afterCharWin (s\<lparr>mw_bslashes := 0, mw_rbslashes := 0\<rparr>))
      else if cc = BSLASH then
        afterCharWin (inWordWin (s\<lparr>mw_bslashes := mw_bslashes s + 1\<rparr>))
      else if cc = DQUOTE then
        (let s = (if mw_shellState s \<noteq> ShellEscaped
                  then s\<lparr>mw_shellState :=
                           (if mw_shellState s = ShellQuoted then ShellBasic else ShellQuoted)\<rparr>
                  else s);
             s = (if mw_rbslashes s \<noteq> 0
                  then s\<lparr>mw_str := insertAt (mw_str s) (mw_pos s - 1) (replicate (mw_rbslashes s) BSLASH),
                         mw_pos := mw_pos s + mw_rbslashes s,
                         mw_varPos := mw_varPos s + int (mw_rbslashes s)\<rparr>
                  else s);
             crt =
               (if even (mw_bslashes s) then
                  (case mw_crtState s of
                     CrtQuoted_mx \<Rightarrow> Some CrtClosed_mx
                   | CrtClosed_mx \<Rightarrow> Some CrtInWord_mx
                   | CrtHadQuote \<Rightarrow> None
                   | _ \<Rightarrow> Some CrtQuoted_mx)
                else Some (mw_crtState (inWordWin s)))
         in case crt of
              None \<Rightarrow> Inr ReturnFalse
            | Some c \<Rightarrow> afterCharWin (s\<lparr>mw_crtState := c, mw_bslashes := 0, mw_rbslashes := 0\<rparr>))
      else afterCharWin ((inWordWin s)\<lparr>mw_bslashes := 0, mw_rbslashes := 0\<rparr>))"

definition expandMacros_win_step ::
  "'x findMacro \<Rightarrow> 'x macroWinState \<Rightarrow> 'x macroWinState + macroExit" where
  "expandMacros_win_step findMacro s =
     (if int (mw_pos s) = mw_varPos s then expandAtWin findMacro s else scanCharWin (closeQuoteWin s))"

text \<open>The loop \<^verbatim>\<open>forever\<close>. An expander that finds a macro again and again keeps it running,
  so the loop is a partial function with \<open>None\<close> for a run without end.\<close>

partial_function (option) expandMacros_win_loop ::
  "'x findMacro \<Rightarrow> 'x macroWinState \<Rightarrow> macroExit option" where
  "expandMacros_win_loop findMacro s =
     (case expandMacros_win_step findMacro s of
        Inl s' \<Rightarrow> expandMacros_win_loop findMacro s'
      | Inr exit \<Rightarrow> Some exit)"

declare expandMacros_win_loop.simps [code]

subsection \<open>The Unix branch\<close>

text \<open>The pushed state for the case that \<^verbatim>\<open>$((\<close> turns out not to start an arithmetic
  expression.\<close>

record MxSave =
  sav_str :: qstring
  sav_pos :: nat
  sav_varPos :: nat

record 'x macroUnixState =
  mu_str :: qstring
  mu_pos :: nat
  mu_varPos :: nat
  mu_varLen :: nat
  mu_rsts :: qstring
  mu_state :: MxState
  mu_sstack :: "MxState list"
  mu_ostack :: "MxSave list"
  mu_mx :: 'x

text \<open>The replacement of the regular expression \<^verbatim>\<open>([$`"\\])\<close> by \<^verbatim>\<open>\\\1\<close>: a backslash goes
  in front of every dollar sign, backtick, double quote and backslash.\<close>

definition escapeInDquote :: "qstring \<Rightarrow> qstring" where
  "escapeInDquote rsts =
     concat (map (\<lambda>c. if c = DOLLAR \<or> c = BACKTICK \<or> c = DQUOTE \<or> c = BSLASH then [BSLASH, c] else [c])
       rsts)"

definition escapeSquotes :: "qstring \<Rightarrow> qstring" where
  "escapeSquotes rsts = qreplace [SQUOTE] [SQUOTE, BSLASH, SQUOTE, SQUOTE] rsts"

text \<open>The block for \<^verbatim>\<open>pos == varPos\<close>.\<close>

definition expandAtUnix ::
  "'x findMacro \<Rightarrow> 'x macroUnixState \<Rightarrow> 'x macroUnixState + macroExit" where
  "expandAtUnix findMacro s =
     (let rsts =
            (if dquote (mu_state s) then escapeInDquote (mu_rsts s)
             else if current (mu_state s) = MxSingleQuote then escapeSquotes (mu_rsts s)
             else if mu_rsts s = [] \<or> hasSpecialCharsUnix (mu_rsts s)
               then SQUOTE # escapeSquotes (mu_rsts s) @ [SQUOTE]
             else mu_rsts s);
          str = replaceAt (mu_str s) (mu_pos s) (mu_varLen s) rsts;
          pos = mu_pos s + length rsts
      in case findMacro (mu_mx s) str pos of
           ((varLen, varPos, rsts), mx) \<Rightarrow>
             (if varLen = 0 then Inr (LoopLeft str)
              else Inl (s\<lparr>mu_str := str, mu_pos := pos, mu_varPos := varPos, mu_varLen := varLen,
                          mu_rsts := rsts, mu_mx := mx\<rparr>)))"

text \<open>
  The scan for the closing backtick from \<open>pos2\<close> on: the string, the position of the
  closing backtick and \<open>varPos\<close>, or \<open>None\<close> for \<^verbatim>\<open>return false\<close>. A backslash in front of a
  dollar sign, a backtick, a backslash or, inside double quotes, a double quote is
  removed.
\<close>

function backtickScan :: "qstring \<Rightarrow> nat \<Rightarrow> nat \<Rightarrow> bool \<Rightarrow> (qstring \<times> nat \<times> nat) option" where
  "backtickScan str pos2 varPos dq =
     (if length str \<le> pos2 then None
      else if charAt str pos2 = BACKTICK then Some (str, pos2, varPos)
      else if charAt str pos2 = BSLASH then
        (let cc = charAt str (pos2 + 1) in
         if cc = DOLLAR \<or> cc = BACKTICK \<or> cc = BSLASH \<or> (cc = DQUOTE \<and> dq)
         then backtickScan (removeAt str pos2 1) (pos2 + 1)
                (if pos2 + 1 \<le> varPos then varPos - 1 else varPos) dq
         else backtickScan str (pos2 + 2) varPos dq)
      else backtickScan str (pos2 + 1) varPos dq)"
  by pat_completeness auto
termination
  by (relation "measure (\<lambda>(str, pos2, varPos, dq). length str - pos2)")
    (auto simp: removeAt_def)

declare backtickScan.simps [simp del]

definition popMx :: "'x macroUnixState \<Rightarrow> 'x macroUnixState + macroExit" where
  "popMx s =
     (case mu_sstack s of
        [] \<Rightarrow> Inr PopEmpty
      | saved # stack \<Rightarrow> Inl (s\<lparr>mu_state := saved, mu_sstack := stack, mu_pos := mu_pos s + 1\<rparr>))"

definition pushMx :: "'x macroUnixState \<Rightarrow> 'x macroUnixState" where
  "pushMx s = s\<lparr>mu_sstack := mu_state s # mu_sstack s\<rparr>"

definition advance :: "'x macroUnixState \<Rightarrow> 'x macroUnixState + macroExit" where
  "advance s = Inl (s\<lparr>mu_pos := mu_pos s + 1\<rparr>)"

text \<open>The rest of the body, for the character at \<open>pos\<close>.\<close>

definition scanCharUnix :: "'x macroUnixState \<Rightarrow> 'x macroUnixState + macroExit" where
  "scanCharUnix s =
     (let cc = charAt (mu_str s) (mu_pos s); st = mu_state s in
      if current st = MxSingleQuote then
        (if cc = SQUOTE then popMx s else advance s)
      else if cc = BSLASH then
        (if mu_varPos s < mu_pos s + 2 then Inr ReturnFalse
         else Inl (s\<lparr>mu_pos := mu_pos s + 2\<rparr>))
      else if cc = DOLLAR then
        (let s = s\<lparr>mu_pos := mu_pos s + 1\<rparr>; cc = charAt (mu_str s) (mu_pos s) in
         if cc = LPAREN then
           (let s = pushMx s in
            if charAt (mu_str s) (mu_pos s + 1) = LPAREN then
              Inl (s\<lparr>mu_ostack :=
                       \<lparr>sav_str = mu_str s, sav_pos = mu_pos s + 2, sav_varPos = mu_varPos s\<rparr> #
                       mu_ostack s,
                     mu_state := (mu_state s)\<lparr>current := MxMath\<rparr>,
                     mu_pos := mu_pos s + 2\<rparr>)
            else advance (s\<lparr>mu_state := \<lparr>current = MxParen, dquote = False\<rparr>\<rparr>))
         else if cc = LBRACE then
           (let s = pushMx s in advance (s\<lparr>mu_state := (mu_state s)\<lparr>current := MxSubst\<rparr>\<rparr>))
         else advance s)
      else if cc = BACKTICK then
        (let str = replaceAt (mu_str s) (mu_pos s) 1 [DOLLAR, LPAREN, SPACE];
             pos = mu_pos s + 3
         in case backtickScan str pos (mu_varPos s + 2) (dquote st) of
              None \<Rightarrow> Inr ReturnFalse
            | Some (str, pos2, varPos) \<Rightarrow>
                (let s = pushMx (s\<lparr>mu_str := str[pos2 := RPAREN], mu_pos := pos, mu_varPos := varPos\<rparr>)
                 in Inl (s\<lparr>mu_state := \<lparr>current = MxParen, dquote = False\<rparr>\<rparr>)))
      else if current st = MxDoubleQuote then
        (if cc = DQUOTE then popMx s else advance s)
      else if cc = SQUOTE then
        (if \<not> dquote st
         then (let s = pushMx s in advance (s\<lparr>mu_state := (mu_state s)\<lparr>current := MxSingleQuote\<rparr>\<rparr>))
         else advance s)
      else if cc = DQUOTE then
        (if \<not> dquote st
         then (let s = pushMx s
               in advance (s\<lparr>mu_state := \<lparr>current = MxDoubleQuote, dquote = True\<rparr>\<rparr>))
         else advance s)
      else if current st = MxSubst then
        (if cc = RBRACE then popMx s else advance s)
      else if cc = RPAREN then
        (if current st = MxMath then
           (if charAt (mu_str s) (mu_pos s + 1) = RPAREN then
              (case mu_sstack s of
                 [] \<Rightarrow> Inr PopEmpty
               | saved # stack \<Rightarrow>
                   Inl (s\<lparr>mu_state := saved, mu_sstack := stack, mu_pos := mu_pos s + 2\<rparr>))
            else
              (case mu_ostack s of
                 [] \<Rightarrow> Inr PopEmpty
               | sav # ostack \<Rightarrow>
                   Inl (pushMx (s\<lparr>mu_varPos := sav_varPos sav, mu_pos := sav_pos sav,
                                  mu_str := sav_str sav, mu_ostack := ostack,
                                  mu_state := \<lparr>current = MxParen, dquote = False\<rparr>\<rparr>))))
         else if current st = MxParen then popMx s
         else Inr (LoopLeft (mu_str s)))
      else if cc = RBRACE then
        (if current st = MxGroup then popMx s else Inr (LoopLeft (mu_str s)))
      else if cc = LPAREN then
        (let s = pushMx s in advance (s\<lparr>mu_state := (mu_state s)\<lparr>current := MxParen\<rparr>\<rparr>))
      else if cc = LBRACE then
        (let s = pushMx s in advance (s\<lparr>mu_state := (mu_state s)\<lparr>current := MxGroup\<rparr>\<rparr>))
      else advance s)"

definition expandMacros_unix_step ::
  "'x findMacro \<Rightarrow> 'x macroUnixState \<Rightarrow> 'x macroUnixState + macroExit" where
  "expandMacros_unix_step findMacro s =
     (if mu_pos s = mu_varPos s then expandAtUnix findMacro s else scanCharUnix s)"

text \<open>The loop \<^verbatim>\<open>while (pos < str.length())\<close>, a partial function as in the Windows
  branch.\<close>

partial_function (option) expandMacros_unix_loop ::
  "'x findMacro \<Rightarrow> 'x macroUnixState \<Rightarrow> macroExit option" where
  "expandMacros_unix_loop findMacro s =
     (if mu_pos s < length (mu_str s) then
        (case expandMacros_unix_step findMacro s of
           Inl s' \<Rightarrow> expandMacros_unix_loop findMacro s'
         | Inr exit \<Rightarrow> Some exit)
      else Some (LoopLeft (mu_str s)))"

declare expandMacros_unix_loop.simps [code]

subsection \<open>The function\<close>

text \<open>
  \<^verbatim>\<open>expandMacros(cmd, mx, osType)\<close> works on the copy \<open>str\<close> of \<^verbatim>\<open>*cmd\<close> and stores it in \<^verbatim>\<open>*cmd\<close>
  in front of its last \<^verbatim>\<open>return true\<close>. The model gives the value returned and the content
  of \<^verbatim>\<open>*cmd\<close> at the return.
\<close>

definition expandMacros ::
  "'x findMacro \<Rightarrow> 'x \<Rightarrow> qstring \<Rightarrow> OsType \<Rightarrow> (bool \<times> qstring) outcome option" where
  "expandMacros findMacro mx cmd osType =
     (if cmd = [] then Some (Done (True, cmd))
      else
        (case findMacro mx cmd 0 of
           ((varLen, varPos, rsts), mx) \<Rightarrow>
             (if varLen = 0 then Some (Done (True, cmd))
              else
                (case (if osType = OsTypeWindows then
                         expandMacros_win_loop findMacro
                           \<lparr>mw_str = cmd, mw_pos = 0, mw_varPos = int varPos, mw_varLen = varLen,
                            mw_rsts = rsts, mw_shellState = ShellBasic, mw_crtState = CrtBasic_mx,
                            mw_bslashes = 0, mw_rbslashes = 0, mw_mx = mx\<rparr>
                       else
                         expandMacros_unix_loop findMacro
                           \<lparr>mu_str = cmd, mu_pos = 0, mu_varPos = varPos, mu_varLen = varLen,
                            mu_rsts = rsts, mu_state = \<lparr>current = MxBasic, dquote = False\<rparr>,
                            mu_sstack = [], mu_ostack = [], mu_mx = mx\<rparr>) of
                   None \<Rightarrow> None
                 | Some ReturnFalse \<Rightarrow> Some (Done (False, cmd))
                 | Some (LoopLeft str) \<Rightarrow> Some (Done (True, str))
                 | Some PopEmpty \<Rightarrow> Some Undefined))))"

text \<open>An expander for examples: the macro is the single character \<open>name\<close>, with the value
  \<open>val\<close>; the expander has no state.\<close>

definition charMacro :: "qchar \<Rightarrow> qstring \<Rightarrow> unit findMacro" where
  "charMacro name val mx str pos =
     (case indexOf str name pos of
        None \<Rightarrow> ((0, pos, []), mx)
      | Some i \<Rightarrow> ((1, i, val), mx))"



section \<open>Facts about lists\<close>

lemma drop_Cons_nth:
  "drop n xs = y # ys \<Longrightarrow> n < length xs \<and> xs ! n = y \<and> drop (Suc n) xs = ys"
proof -
  assume d: "drop n xs = y # ys"
  then have n: "n < length xs" by (cases "n < length xs") simp_all
  from Cons_nth_drop_Suc [OF n] d show ?thesis using n by simp
qed

lemma drop_append_shift: "drop n xs = ys @ zs \<Longrightarrow> drop (n + length ys) xs = zs"
proof -
  assume d: "drop n xs = ys @ zs"
  have "drop (n + length ys) xs = drop (length ys) (drop n xs)"
    by (simp add: add.commute)
  then show ?thesis by (simp add: d)
qed

section \<open>Properties of splitting on Windows\<close>

lemma isWhiteSpaceWin_simps [simp]:
  "\<not> isWhiteSpaceWin DQUOTE" "\<not> isWhiteSpaceWin BSLASH" "isWhiteSpaceWin SPACE" "isWhiteSpaceWin TAB"
  by (simp_all add: isWhiteSpaceWin_def)

lemma doSplitArgsWin_arg_Nil [simp]: "doSplitArgsWin_arg arg q [] = (arg, q, [])"
  by (simp add: doSplitArgsWin_arg.simps [of arg q "[]"] doSplitArgsWin_quote_def)

lemma doSplitArgsWin_arg_plain:
  "c \<noteq> BSLASH \<Longrightarrow> c \<noteq> DQUOTE \<Longrightarrow> q \<or> \<not> isWhiteSpaceWin c \<Longrightarrow>
     doSplitArgsWin_arg arg q (c # rest) = doSplitArgsWin_arg (arg @ [c]) q rest"
  by (auto simp: doSplitArgsWin_arg.simps [of arg q "c # rest"] doSplitArgsWin_quote_def)

lemma doSplitArgsWin_arg_space:
  "isWhiteSpaceWin c \<Longrightarrow> doSplitArgsWin_arg arg False (c # rest) = (arg, False, c # rest)"
  by (auto simp: doSplitArgsWin_arg.simps [of arg False "c # rest"] doSplitArgsWin_quote_def
      isWhiteSpaceWin_def)

lemma doSplitArgsWin_arg_open:
  "doSplitArgsWin_arg arg False (DQUOTE # rest) = doSplitArgsWin_arg arg True rest"
  by (simp add: doSplitArgsWin_arg.simps [of arg False "DQUOTE # rest"] doSplitArgsWin_quote_def)

lemma doSplitArgsWin_arg_close:
  "rest = [] \<or> hd rest \<noteq> DQUOTE \<Longrightarrow>
     doSplitArgsWin_arg arg True (DQUOTE # rest) = doSplitArgsWin_arg arg False rest"
  by (auto simp: doSplitArgsWin_arg.simps [of arg True "DQUOTE # rest"] doSplitArgsWin_quote_def)

lemma doSplitArgsWin_arg_close2:
  "doSplitArgsWin_arg arg True (DQUOTE # DQUOTE # rest) = doSplitArgsWin_arg (arg @ [DQUOTE]) False rest"
  by (simp add: doSplitArgsWin_arg.simps [of arg True "DQUOTE # DQUOTE # rest"] doSplitArgsWin_quote_def)

lemma takeWhile_bslashes:
  "rest = [] \<or> hd rest \<noteq> BSLASH \<Longrightarrow>
     takeWhile (\<lambda>c. c = BSLASH) (replicate n BSLASH @ rest) = replicate n BSLASH \<and>
     dropWhile (\<lambda>c. c = BSLASH) (replicate n BSLASH @ rest) = rest"
  by (induction n) (cases rest; auto)+

lemma doSplitArgsWin_arg_bslashes_end:
  "doSplitArgsWin_arg arg q (replicate n BSLASH) = (arg @ replicate n BSLASH, q, [])"
  using takeWhile_bslashes [of "[]" n]
  by (simp add: doSplitArgsWin_arg.simps [of arg q "replicate n BSLASH"] doSplitArgsWin_quote_def)

lemma doSplitArgsWin_arg_bslashes_plain:
  "c \<noteq> BSLASH \<Longrightarrow> c \<noteq> DQUOTE \<Longrightarrow> q \<or> \<not> isWhiteSpaceWin c \<Longrightarrow>
     doSplitArgsWin_arg arg q (replicate n BSLASH @ c # rest) =
       doSplitArgsWin_arg (arg @ replicate n BSLASH @ [c]) q rest"
  using takeWhile_bslashes [of "c # rest" n]
  by (auto simp: doSplitArgsWin_arg.simps [of arg q "replicate n BSLASH @ c # rest"]
      doSplitArgsWin_quote_def)

lemma doSplitArgsWin_arg_bslashes_space:
  "isWhiteSpaceWin c \<Longrightarrow>
     doSplitArgsWin_arg arg False (replicate n BSLASH @ c # rest) =
       (arg @ replicate n BSLASH, False, c # rest)"
  using takeWhile_bslashes [of "c # rest" n]
  by (auto simp: doSplitArgsWin_arg.simps [of arg False "replicate n BSLASH @ c # rest"]
      doSplitArgsWin_quote_def isWhiteSpaceWin_def)

lemma doSplitArgsWin_arg_bslashes_odd_quote:
  "odd n \<Longrightarrow>
     doSplitArgsWin_arg arg q (replicate n BSLASH @ DQUOTE # rest) =
       doSplitArgsWin_arg (arg @ replicate (n div 2) BSLASH @ [DQUOTE]) q rest"
  using takeWhile_bslashes [of "DQUOTE # rest" n]
  by (simp add: doSplitArgsWin_arg.simps [of arg q "replicate n BSLASH @ DQUOTE # rest"]
      doSplitArgsWin_quote_def)

lemma doSplitArgsWin_arg_bslashes_even_quote:
  "even n \<Longrightarrow>
     doSplitArgsWin_arg arg q (replicate n BSLASH @ DQUOTE # rest) =
       doSplitArgsWin_arg (arg @ replicate (n div 2) BSLASH) q (DQUOTE # rest)"
  using takeWhile_bslashes [of "DQUOTE # rest" n]
  by (simp add: doSplitArgsWin_arg.simps [of arg q "replicate n BSLASH @ DQUOTE # rest"]
      doSplitArgsWin_arg.simps [of "arg @ replicate (n div 2) BSLASH" q "DQUOTE # rest"]
      doSplitArgsWin_quote_def)


lemma doSplitArgsWin_arg_unfold:
  assumes "doSplitArgsWin_quote inquote (length (takeWhile (\<lambda>c. c = BSLASH) rest))
             (dropWhile (\<lambda>c. c = BSLASH) rest) = (copy, q, r, n)"
  shows "doSplitArgsWin_arg arg inquote rest =
     (if r = [] \<or> (\<not> q \<and> isWhiteSpaceWin (hd r)) then (arg @ replicate n BSLASH, q, r)
      else doSplitArgsWin_arg
             (if copy then (arg @ replicate n BSLASH) @ [hd r] else arg @ replicate n BSLASH) q (tl r))"
  using assms by (simp add: doSplitArgsWin_arg.simps [of arg inquote rest] Let_def)

lemma doSplitArgsWin_arg_inquote_open:
  "q \<Longrightarrow> DQUOTE \<notin> set t \<Longrightarrow> snd (doSplitArgsWin_arg arg q t) = (True, [])"
proof (induction arg q t rule: doSplitArgsWin_arg.induct)
  case (1 arg q t)
  define r where "r = dropWhile (\<lambda>c. c = BSLASH) t"
  define n where "n = length (takeWhile (\<lambda>c. c = BSLASH) t)"
  have "set r \<subseteq> set t" unfolding r_def by (auto dest: set_dropWhileD)
  with "1.prems" have nq: "DQUOTE \<notin> set r" by auto
  then have c: "doSplitArgsWin_quote q n r = (True, q, r, n)"
    by (cases r) (auto simp: doSplitArgsWin_quote_def)
  note u = doSplitArgsWin_arg_unfold [OF c [unfolded r_def n_def], folded r_def n_def, of arg]
  show ?case
  proof (cases "r = []")
    case True
    with u "1.prems" show ?thesis by simp
  next
    case False
    have "DQUOTE \<notin> set (tl r)" using nq False by (cases r) auto
    with "1.IH" [of True "(q, r, n)" q "(r, n)" r n "arg @ replicate n BSLASH"] c False "1.prems"
    have "snd (doSplitArgsWin_arg ((arg @ replicate n BSLASH) @ [hd r]) q (tl r)) = (True, [])"
      by (simp add: r_def n_def)
    with u False "1.prems" show ?thesis by simp
  qed
qed

lemma doSplitArgsWin_arg_word:
  "\<forall>c\<in>set w. c \<noteq> BSLASH \<and> c \<noteq> DQUOTE \<and> \<not> isWhiteSpaceWin c \<Longrightarrow>
     doSplitArgsWin_arg arg False (w @ rest) = doSplitArgsWin_arg (arg @ w) False rest"
  by (induction w arbitrary: arg) (simp_all add: doSplitArgsWin_arg_plain)

text \<open>One argument of a text without double quote that does not end in a backslash and
  stands in front of an opening quote: the scan stops at the first blank of the text, or
  it runs into the quote and to the end of the input.\<close>

lemma doSplitArgsWin_arg_to_quote:
  assumes "DQUOTE \<notin> set u" and "u = [] \<or> last u \<noteq> BSLASH" and "DQUOTE \<notin> set t"
  shows "\<exists>a q r. doSplitArgsWin_arg arg False (u @ DQUOTE # t) = (a, q, r) \<and>
      ((q \<and> r = []) \<or>
       (\<not> q \<and> (\<exists>v u'. r = u' @ DQUOTE # t \<and> u' \<noteq> [] \<and> isWhiteSpaceWin (hd u') \<and> u = v @ u')))"
  using assms(1,2)
proof (induction "length u" arbitrary: u arg rule: less_induct)
  case less
  show ?case
  proof (cases "u = []")
    case True
    have "snd (doSplitArgsWin_arg arg True t) = (True, [])"
      using assms(3) by (simp add: doSplitArgsWin_arg_inquote_open)
    then obtain a where "doSplitArgsWin_arg arg True t = (a, True, [])"
      by (cases "doSplitArgsWin_arg arg True t") auto
    with True show ?thesis by (auto simp: doSplitArgsWin_arg_open)
  next
    case False
    define n where "n = length (takeWhile (\<lambda>c. c = BSLASH) u)"
    define u1 where "u1 = dropWhile (\<lambda>c. c = BSLASH) u"
    have tw: "takeWhile (\<lambda>c. c = BSLASH) u = replicate n BSLASH"
    proof -
      have "\<forall>x\<in>set (takeWhile (\<lambda>c. c = BSLASH) u). x = BSLASH"
        by (auto dest: set_takeWhileD)
      then show ?thesis unfolding n_def by (simp add: replicate_length_same)
    qed
    have u: "u = replicate n BSLASH @ u1"
      using takeWhile_dropWhile_id [of "\<lambda>c. c = BSLASH" u] tw u1_def by simp
    have "u1 \<noteq> []"
    proof
      assume "u1 = []"
      with u have "u = replicate n BSLASH" by simp
      with False have "last u = BSLASH" by (cases n) auto
      with less.prems(2) False show False by simp
    qed
    then obtain c u2 where u1: "u1 = c # u2" by (cases u1) auto
    have c: "c \<noteq> BSLASH"
      using hd_dropWhile [of "\<lambda>c. c = BSLASH" u] u1 u1_def by (metis list.distinct(1) list.sel(1))
    have cq: "c \<noteq> DQUOTE" and nq2: "DQUOTE \<notin> set u2"
      using less.prems(1) u u1 by auto
    have whole: "u @ DQUOTE # t = replicate n BSLASH @ c # u2 @ DQUOTE # t"
      using u u1 by simp
    show ?thesis
    proof (cases "isWhiteSpaceWin c")
      case True
      then have "doSplitArgsWin_arg arg False (u @ DQUOTE # t) =
          (arg @ replicate n BSLASH, False, c # u2 @ DQUOTE # t)"
        unfolding whole by (rule doSplitArgsWin_arg_bslashes_space)
      moreover have "c # u2 @ DQUOTE # t = (c # u2) @ DQUOTE # t" by simp
      moreover have "u = replicate n BSLASH @ (c # u2)" using u u1 by simp
      ultimately show ?thesis using True by (metis list.distinct(1) list.sel(1))
    next
      case ws: False
      have step: "doSplitArgsWin_arg arg False (u @ DQUOTE # t) =
          doSplitArgsWin_arg (arg @ replicate n BSLASH @ [c]) False (u2 @ DQUOTE # t)"
        unfolding whole using c cq ws by (intro doSplitArgsWin_arg_bslashes_plain) simp_all
      have len: "length u2 < length u" using u u1 by simp
      have last2: "u2 = [] \<or> last u2 \<noteq> BSLASH"
        using less.prems(2) u u1 by (cases "u2 = []") auto
      from less.hyps [OF len nq2 last2, of "arg @ replicate n BSLASH @ [c]"]
      obtain a q r where res: "doSplitArgsWin_arg (arg @ replicate n BSLASH @ [c]) False (u2 @ DQUOTE # t)
            = (a, q, r)"
        and alt: "(q \<and> r = []) \<or>
          (\<not> q \<and> (\<exists>v u'. r = u' @ DQUOTE # t \<and> u' \<noteq> [] \<and> isWhiteSpaceWin (hd u') \<and> u2 = v @ u'))"
        by blast
      from alt have "(q \<and> r = []) \<or>
          (\<not> q \<and> (\<exists>v u'. r = u' @ DQUOTE # t \<and> u' \<noteq> [] \<and> isWhiteSpaceWin (hd u') \<and> u = v @ u'))"
      proof
        assume "q \<and> r = []"
        then show ?thesis by simp
      next
        assume "\<not> q \<and> (\<exists>v u'. r = u' @ DQUOTE # t \<and> u' \<noteq> [] \<and> isWhiteSpaceWin (hd u') \<and> u2 = v @ u')"
        then obtain v u' where q: "\<not> q" and r: "r = u' @ DQUOTE # t" "u' \<noteq> []" "isWhiteSpaceWin (hd u')"
          and v: "u2 = v @ u'"
          by blast
        have "u = (replicate n BSLASH @ c # v) @ u'" using u u1 v by simp
        with q r show ?thesis by blast
      qed
      with step res show ?thesis by simp
    qed
  qed
qed

lemma doSplitArgsWin_loop_open_quote:
  "DQUOTE \<notin> set pre \<Longrightarrow> pre = [] \<or> last pre \<noteq> BSLASH \<Longrightarrow> DQUOTE \<notin> set t \<Longrightarrow>
     doSplitArgsWin_loop ret (pre @ DQUOTE # t) = (BadQuoting, [])"
proof (induction "length pre" arbitrary: pre ret rule: less_induct)
  case less
  let ?pre2 = "dropWhile isWhiteSpaceWin pre"
  have d: "dropWhile isWhiteSpaceWin (pre @ DQUOTE # t) = ?pre2 @ DQUOTE # t"
    by (simp add: dropWhile_append)
  obtain v0 where v0: "pre = v0 @ ?pre2"
    using takeWhile_dropWhile_id [of isWhiteSpaceWin pre] by metis
  have nq2: "DQUOTE \<notin> set ?pre2"
    using less.prems(1) by (auto dest: set_dropWhileD)
  have last2: "?pre2 = [] \<or> last ?pre2 \<noteq> BSLASH"
  proof (cases "?pre2 = []")
    case False
    with v0 have "last pre = last ?pre2" by (metis last_appendR)
    moreover from False v0 have "pre \<noteq> []" by auto
    ultimately show ?thesis using less.prems(2) by simp
  qed simp
  from doSplitArgsWin_arg_to_quote [OF nq2 last2 less.prems(3), of "[]"]
  obtain a q r where res: "doSplitArgsWin_arg [] False (?pre2 @ DQUOTE # t) = (a, q, r)"
    and alt: "(q \<and> r = []) \<or>
      (\<not> q \<and> (\<exists>v u'. r = u' @ DQUOTE # t \<and> u' \<noteq> [] \<and> isWhiteSpaceWin (hd u') \<and> ?pre2 = v @ u'))"
    by blast
  from alt show ?case
  proof
    assume "q \<and> r = []"
    with res show ?thesis
      by (simp add: doSplitArgsWin_loop.simps [of ret "pre @ DQUOTE # t"] d)
  next
    assume "\<not> q \<and> (\<exists>v u'. r = u' @ DQUOTE # t \<and> u' \<noteq> [] \<and> isWhiteSpaceWin (hd u') \<and> ?pre2 = v @ u')"
    then obtain v u' where q: "\<not> q" and r: "r = u' @ DQUOTE # t" and ne: "u' \<noteq> []"
      and ws: "isWhiteSpaceWin (hd u')" and v: "?pre2 = v @ u'"
      by blast
    have "v \<noteq> []"
    proof
      assume "v = []"
      with v ne ws hd_dropWhile [of isWhiteSpaceWin pre] show False by auto
    qed
    then have "length u' < length ?pre2" using arg_cong [OF v, of length] by simp
    also have "\<dots> \<le> length pre" by (rule length_dropWhile_le)
    finally have shorter: "length u' < length pre" .
    have nq': "DQUOTE \<notin> set u'" using nq2 v by (metis Un_iff set_append)
    have last': "u' = [] \<or> last u' \<noteq> BSLASH"
      using last2 v ne by (metis last_appendR append_is_Nil_conv)
    have "doSplitArgsWin_loop ret (pre @ DQUOTE # t) = doSplitArgsWin_loop (ret @ [a]) (u' @ DQUOTE # t)"
      using res q r by (simp add: doSplitArgsWin_loop.simps [of ret "pre @ DQUOTE # t"] d)
    also have "\<dots> = (BadQuoting, [])"
      using less.hyps [OF shorter nq' last' less.prems(3)] .
    finally show ?thesis .
  qed
qed


lemma skipQuotedWin_no_quote:
  "p < length args \<Longrightarrow> \<forall>j. p < j \<and> j < length args \<longrightarrow> args ! j \<noteq> DQUOTE \<Longrightarrow>
     skipQuotedWin args p = length args"
proof (induction args p rule: skipQuotedWin.induct)
  case (1 args p)
  show ?case
  proof (cases "length args \<le> Suc p")
    case True
    with "1.prems" have "Suc p = length args" by simp
    with True show ?thesis by (simp add: skipQuotedWin.simps [of args p])
  next
    case False
    with "1.prems" have nq: "args ! Suc p \<noteq> DQUOTE" by simp
    with False have "skipQuotedWin args p = skipQuotedWin args (Suc p)"
      by (simp add: skipQuotedWin.simps [of args p])
    also have "\<dots> = length args"
      using "1.IH" [OF False nq] False "1.prems" by simp
    finally show ?thesis .
  qed
qed

lemma prepareArgsWin_scan_end:
  "length args \<le> p \<Longrightarrow> prepareArgsWin_scan args p = (SplitOk, args)"
  by (simp add: prepareArgsWin_scan.simps [of args p])

lemma prepareArgsWin_scan_skip:
  assumes "\<And>i. p \<le> i \<Longrightarrow> i < q \<Longrightarrow>
      args ! i \<noteq> CARET \<and> args ! i \<noteq> DQUOTE \<and> \<not> isMetaCharWin (args ! i)"
    and "p \<le> q" and "q \<le> length args"
  shows "prepareArgsWin_scan args p = prepareArgsWin_scan args q"
  using assms
proof (induction "q - p" arbitrary: p)
  case 0
  then show ?case by simp
next
  case (Suc n)
  then have p: "p < q" "p < length args" by simp_all
  from Suc.prems(1) [of p] p have c: "args ! p \<noteq> CARET" "args ! p \<noteq> DQUOTE" "\<not> isMetaCharWin (args ! p)"
    by simp_all
  have "prepareArgsWin_scan args (p + 1) = prepareArgsWin_scan args q"
  proof (rule Suc.hyps(1))
    show "n = q - (p + 1)" using Suc.hyps(2) by simp
    show "args ! i \<noteq> CARET \<and> args ! i \<noteq> DQUOTE \<and> \<not> isMetaCharWin (args ! i)"
      if "p + 1 \<le> i" "i < q" for i
      using that Suc.prems(1) [of i] by simp
  qed (use p Suc.prems in simp_all)
  with p c show ?case by (simp add: prepareArgsWin_scan.simps [of args p])
qed

lemma prepareArgsWin_scan_open_quote:
  assumes "DQUOTE \<notin> set pre" and "CARET \<notin> set pre" and "\<forall>c\<in>set pre. \<not> isMetaCharWin c"
    and "DQUOTE \<notin> set t"
  shows "prepareArgsWin_scan (pre @ DQUOTE # t) 0 = (SplitOk, pre @ DQUOTE # t)"
proof -
  let ?args = "pre @ DQUOTE # t"
  have "prepareArgsWin_scan ?args 0 = prepareArgsWin_scan ?args (length pre)"
  proof (rule prepareArgsWin_scan_skip)
    fix i
    assume "i < length pre"
    then have "?args ! i = pre ! i" "pre ! i \<in> set pre" by (simp_all add: nth_append)
    with assms(1,2,3) show "?args ! i \<noteq> CARET \<and> ?args ! i \<noteq> DQUOTE \<and> \<not> isMetaCharWin (?args ! i)"
      by metis
  qed simp_all
  also have "\<dots> = prepareArgsWin_scan ?args (skipQuotedWin ?args (length pre) + 1)"
    by (simp add: prepareArgsWin_scan.simps [of ?args "length pre"])
  also have "skipQuotedWin ?args (length pre) = length ?args"
  proof (rule skipQuotedWin_no_quote)
    show "\<forall>j. length pre < j \<and> j < length ?args \<longrightarrow> ?args ! j \<noteq> DQUOTE"
    proof (intro allI impI)
      fix j
      assume j: "length pre < j \<and> j < length ?args"
      then have "?args ! j = t ! (j - length pre - 1)" "j - length pre - 1 < length t"
        by (auto simp: nth_append nth_Cons')
      with assms(4) show "?args ! j \<noteq> DQUOTE" by (metis nth_mem)
    qed
  qed simp
  also have "prepareArgsWin_scan ?args (length ?args + 1) = (SplitOk, ?args)"
    by (rule prepareArgsWin_scan_end) simp
  finally show ?thesis .
qed

lemma envExpandWin_no_percent:
  "PERCENT \<notin> set args \<Longrightarrow> envExpandWin P args env pwd = args"
proof -
  assume "PERCENT \<notin> set args"
  then have "indexOf args PERCENT 0 = None" by (simp add: indexOf_None)
  then show ?thesis
    by (simp add: envExpandWin_def envExpandWin_loop.simps [of P env pwd args 0 None])
qed

text \<open>The prepare phase of \<open>abortOnMeta\<close> accepts an open quote: it removes a leading
  \<^verbatim>\<open>@\<close> and leaves the rest as it is.\<close>

lemma prepareArgsWin_open_quote:
  assumes "DQUOTE \<notin> set pre" and "CARET \<notin> set pre" and "\<forall>c\<in>set pre. \<not> isMetaCharWin c"
    and "DQUOTE \<notin> set t" and "PERCENT \<notin> set (pre @ t)"
  shows "prepareArgsWin P (pre @ DQUOTE # t) env pwd =
     (SplitOk, createWindowsArgs
        ((if pre \<noteq> [] \<and> hd pre = ATSIGN then tl pre else pre) @ DQUOTE # t))"
proof -
  let ?args = "pre @ DQUOTE # t"
  let ?pre' = "if pre \<noteq> [] \<and> hd pre = ATSIGN then tl pre else pre"
  have np: "PERCENT \<notin> set ?args" using assms(5) by simp
  then have i: "indexOf ?args PERCENT 0 = None" by (simp add: indexOf_None)
  have ex: "(case env of Some e \<Rightarrow> envExpandWin P ?args e pwd | None \<Rightarrow> ?args) = ?args"
    using np by (cases env) (simp_all add: envExpandWin_no_percent)
  have strip: "(if ?args \<noteq> [] \<and> ?args ! 0 = ATSIGN then removeAt ?args 0 1 else ?args) = ?pre' @ DQUOTE # t"
    by (cases pre) (simp_all add: removeAt_def)
  have sub: "set ?pre' \<subseteq> set pre" by (cases pre) auto
  have "prepareArgsWin_scan (?pre' @ DQUOTE # t) 0 = (SplitOk, ?pre' @ DQUOTE # t)"
    using assms(1,2,3,4) sub by (intro prepareArgsWin_scan_open_quote) auto
  then show ?thesis
    unfolding prepareArgsWin_def ex using i
    by (simp only: strip Let_def) simp
qed

lemma prepareArgsWin_scan_no_meta:
  "\<forall>c\<in>set args. \<not> isMetaCharWin c \<Longrightarrow> fst (prepareArgsWin_scan args p) = SplitOk"
proof (induction args p rule: prepareArgsWin_scan.induct)
  case (1 args p)
  show ?case
  proof (cases "p < length args")
    case False
    then show ?thesis by (simp add: prepareArgsWin_scan.simps [of args p])
  next
    case True
    have rm: "\<forall>c\<in>set (removeAt args p 1). \<not> isMetaCharWin c"
      using "1.prems" by (auto simp: removeAt_def dest: in_set_takeD in_set_dropD)
    have nm: "\<not> isMetaCharWin (args ! p)" using "1.prems" True by simp
    show ?thesis
      using True nm "1.IH"(1) [OF True refl _ rm] "1.IH"(2) [OF True refl _ _ "1.prems"]
        "1.IH"(3) [OF True refl _ _ _ "1.prems"]
      by (simp add: prepareArgsWin_scan.simps [of args p] Let_def)
  qed
qed

lemma envExpandWin_loop_unknown:
  assumes "unknownRefs P env pwd args"
    and "case prev of None \<Rightarrow> True
         | Some pv \<Rightarrow> pv < off \<and> args ! pv = PERCENT \<and> (\<forall>k. pv < k \<and> k < off \<longrightarrow> args ! k \<noteq> PERCENT)"
  shows "envExpandWin_loop P env pwd args off prev = args"
  using assms
proof (induction P env pwd args off prev rule: envExpandWin_loop.induct)
  case (1 P env pwd args off prev)
  show ?case
  proof (cases "indexOf args PERCENT off")
    case None
    then show ?thesis by (simp add: envExpandWin_loop.simps [of P env pwd args off prev])
  next
    case (Some that)
    note ix = indexOf_Some [OF Some]
    have inv': "case Some that of None \<Rightarrow> True
         | Some pv \<Rightarrow> pv < that + 1 \<and> args ! pv = PERCENT \<and>
             (\<forall>k. pv < k \<and> k < that + 1 \<longrightarrow> args ! k \<noteq> PERCENT)"
      using ix by auto
    show ?thesis
    proof (cases prev)
      case None
      with Some "1.IH"(1) [OF Some None "1.prems"(1) inv'] show ?thesis
        by (simp add: envExpandWin_loop.simps [of P env pwd args off None])
    next
      case (Some pv)
      with "1.prems"(2) have pv: "pv < off" "args ! pv = PERCENT"
        "\<forall>k. pv < k \<and> k < off \<longrightarrow> args ! k \<noteq> PERCENT" by auto
      have between: "\<forall>k. pv < k \<and> k < that \<longrightarrow> args ! k \<noteq> PERCENT"
        using pv(3) ix by (metis not_le_imp_less)
      have "PERCENT \<notin> set (mid args (pv + 1) (that - pv - 1))"
      proof
        assume "PERCENT \<in> set (mid args (pv + 1) (that - pv - 1))"
        then obtain k where k: "k < length (mid args (pv + 1) (that - pv - 1))"
          "mid args (pv + 1) (that - pv - 1) ! k = PERCENT"
          by (auto simp: in_set_conv_nth)
        then have "args ! (pv + 1 + k) = PERCENT" and "pv + 1 + k < that"
          using ix by (auto simp: mid_def)
        with between show False by simp
      qed
      moreover have "that \<in> set [0..<length args]" "pv \<in> set [0..<that]"
        using ix pv by auto
      ultimately have val: "envValueWin P env pwd (toUpper P (mid args (pv + 1) (that - pv - 1))) = []"
        using "1.prems"(1) pv(2) ix unfolding unknownRefs_def by blast
      from "1.IH"(3) [OF \<open>indexOf args PERCENT off = Some that\<close> Some refl refl _ "1.prems"(1) inv'] val
      have "envExpandWin_loop P env pwd args (that + 1) (Some that) = args" by simp
      with val Some \<open>indexOf args PERCENT off = Some that\<close> show ?thesis
        by (simp add: envExpandWin_loop.simps [of P env pwd args off "Some pv"] Let_def)
    qed
  qed
qed


text \<open>
  Claim C3, as the code has it. Only the prepare phase of \<open>abortOnMeta\<close> accepts a double
  quote that is still open at the end of the string; \<^verbatim>\<open>doSplitArgsWin\<close> does not. For every
  input made of a prefix without double quote that does not end in a backslash, an opening
  double quote and a rest without double quote
  \<^item> \<^verbatim>\<open>doSplitArgsWin\<close> reports \<open>BadQuoting\<close> and returns no words;
  \<^item> so does \<^verbatim>\<open>splitArgsWin\<close> without \<open>abortOnMeta\<close>, when there is no environment or the
    input has no percent sign;
  \<^item> when the input has no percent sign and the prefix has no circumflex and no
    metacharacter, the prepare phase reports \<open>SplitOk\<close>, and \<^verbatim>\<open>splitArgsWin\<close> with
    \<open>abortOnMeta\<close> returns no words, with \<open>BadQuoting\<close> in the status variable of a caller
    whose variable holds \<open>SplitOk\<close> at the call.
\<close>

theorem doSplitArgsWin_unterminated_quote:
  assumes "DQUOTE \<notin> set pre" and "pre = [] \<or> last pre \<noteq> BSLASH" and "DQUOTE \<notin> set t"
  shows "doSplitArgsWin (pre @ DQUOTE # t) = (BadQuoting, []) \<and>
    (env = None \<or> PERCENT \<notin> set (pre @ t) \<longrightarrow>
       splitArgsWin P (pre @ DQUOTE # t) False err env pwd = ([], map_option (\<lambda>_. BadQuoting) err)) \<and>
    (PERCENT \<notin> set (pre @ t) \<and> CARET \<notin> set pre \<and> (\<forall>c\<in>set pre. \<not> isMetaCharWin c) \<longrightarrow>
       fst (prepareArgsWin P (pre @ DQUOTE # t) env pwd) = SplitOk \<and>
       splitArgsWin P (pre @ DQUOTE # t) True (Some SplitOk) env pwd = ([], Some BadQuoting) \<and>
       splitArgsWin P (pre @ DQUOTE # t) True None env pwd = ([], None))"
proof (intro conjI impI)
  let ?args = "pre @ DQUOTE # t"
  show bad: "doSplitArgsWin ?args = (BadQuoting, [])"
    unfolding doSplitArgsWin_def using assms by (rule doSplitArgsWin_loop_open_quote)
  {
    assume "env = None \<or> PERCENT \<notin> set (pre @ t)"
    then have "(case env of Some e \<Rightarrow> envExpandWin P ?args e pwd | None \<Rightarrow> ?args) = ?args"
      by (cases env) (auto simp: envExpandWin_no_percent)
    then show "splitArgsWin P ?args False err env pwd = ([], map_option (\<lambda>_. BadQuoting) err)"
      using bad by (simp add: splitArgsWin_def)
  }
  {
    assume a: "PERCENT \<notin> set (pre @ t) \<and> CARET \<notin> set pre \<and> (\<forall>c\<in>set pre. \<not> isMetaCharWin c)"
    let ?pre' = "if pre \<noteq> [] \<and> hd pre = ATSIGN then tl pre else pre"
    have prep: "prepareArgsWin P ?args env pwd = (SplitOk, createWindowsArgs (?pre' @ DQUOTE # t))"
      using assms(1,3) a by (intro prepareArgsWin_open_quote) simp_all
    have nq': "DQUOTE \<notin> set ?pre'" using assms(1) by (cases pre) auto
    have last': "?pre' = [] \<or> last ?pre' \<noteq> BSLASH"
      using assms(2) by (cases pre) (auto split: if_splits)
    have bad': "doSplitArgsWin (?pre' @ DQUOTE # t) = (BadQuoting, [])"
      unfolding doSplitArgsWin_def using nq' last' assms(3) by (rule doSplitArgsWin_loop_open_quote)
    show "fst (prepareArgsWin P ?args env pwd) = SplitOk" by (simp add: prep)
    show "splitArgsWin P ?args True (Some SplitOk) env pwd = ([], Some BadQuoting)"
      using bad' by (simp add: splitArgsWin_def prep toWindowsArgs_def createWindowsArgs_def)
    show "splitArgsWin P ?args True None env pwd = ([], None)"
      using bad' by (simp add: splitArgsWin_def prep toWindowsArgs_def createWindowsArgs_def)
  }
qed

theorem doSplitArgsWin_unterminated_quote_witness:
  "doSplitArgsWin (fromLatin1 ''@c:'' @ BSLASH # fromLatin1 ''a '' @ DQUOTE # fromLatin1 ''b & c'') =
     (BadQuoting, []) \<and>
   splitArgsWin asciiHost (fromLatin1 ''@c:'' @ BSLASH # fromLatin1 ''a '' @ DQUOTE # fromLatin1 ''b & c'')
     False (Some SplitOk) None None = ([], Some BadQuoting) \<and>
   fst (prepareArgsWin asciiHost
     (fromLatin1 ''@c:'' @ BSLASH # fromLatin1 ''a '' @ DQUOTE # fromLatin1 ''b & c'') None None) = SplitOk \<and>
   splitArgsWin asciiHost (fromLatin1 ''@c:'' @ BSLASH # fromLatin1 ''a '' @ DQUOTE # fromLatin1 ''b & c'')
     True (Some SplitOk) None None = ([], Some BadQuoting) \<and>
   splitArgsWin asciiHost (fromLatin1 ''@c:'' @ BSLASH # fromLatin1 ''a '' @ DQUOTE # fromLatin1 ''b & c'')
     True None None None = ([], None)"
proof -
  let ?pre = "fromLatin1 ''@c:'' @ BSLASH # fromLatin1 ''a ''"
  let ?t = "fromLatin1 ''b & c''"
  have h: "DQUOTE \<notin> set ?pre" "?pre = [] \<or> last ?pre \<noteq> BSLASH" "DQUOTE \<notin> set ?t"
    "PERCENT \<notin> set (?pre @ ?t) \<and> CARET \<notin> set ?pre \<and> (\<forall>c\<in>set ?pre. \<not> isMetaCharWin c)"
    by (simp_all add: fromLatin1_def isMetaCharWin_def bitTest_def)
  from doSplitArgsWin_unterminated_quote [OF h(1,2,3), of None asciiHost "Some SplitOk" None] h(4)
  show ?thesis by simp
qed

text \<open>The claim as stated, an unterminated trailing quote splits with \<open>SplitOk\<close>, fails
  on \<^verbatim>\<open>"abc\<close>: the prepare phase reports \<open>SplitOk\<close>, the split \<open>BadQuoting\<close>.\<close>

theorem splitArgsWin_unterminated_quote_counterexample:
  "fst (prepareArgsWin asciiHost [DQUOTE, 0x61, 0x62, 0x63] None None) = SplitOk \<and>
   splitArgsWin asciiHost [DQUOTE, 0x61, 0x62, 0x63] True (Some SplitOk) None None
     = ([], Some BadQuoting) \<and>
   splitArgsWin asciiHost [DQUOTE, 0x61, 0x62, 0x63] False (Some SplitOk) None None
     = ([], Some BadQuoting)"
  by code_simp

lemma indexOf_first:
  "c \<notin> set s \<Longrightarrow> indexOf (pre @ s @ c # r) c (length pre) = Some (length pre + length s)"
proof -
  assume "c \<notin> set s"
  then have all: "\<And>x. x \<in> set s \<Longrightarrow> x \<noteq> c" by auto
  have "dropWhile (\<lambda>x. x \<noteq> c) (s @ c # r) = c # r" "takeWhile (\<lambda>x. x \<noteq> c) (s @ c # r) = s"
    using all by (simp_all add: dropWhile_append2 takeWhile_append2)
  then show ?thesis by (simp add: indexOf_def)
qed

lemma indexOf_absent: "c \<notin> set s \<Longrightarrow> indexOf (pre @ s) c (length pre) = None"
  by (simp add: indexOf_None)

lemma joinSegs_Cons: "segs \<noteq> [] \<Longrightarrow> joinSegs (s # segs) = s @ PERCENT # joinSegs segs"
  by (cases segs) simp_all

text \<open>One turn of the loop of \<^verbatim>\<open>envExpandWin\<close>, for each of its four ways.\<close>

lemma envExpandWin_loop_end:
  "indexOf args PERCENT off = None \<Longrightarrow> envExpandWin_loop P env pwd args off prev = args"
  by (subst envExpandWin_loop.simps) simp

lemma envExpandWin_loop_first:
  "indexOf args PERCENT off = Some that \<Longrightarrow>
     envExpandWin_loop P env pwd args off None = envExpandWin_loop P env pwd args (that + 1) (Some that)"
  by (subst envExpandWin_loop.simps) simp

lemma envExpandWin_loop_value:
  "indexOf args PERCENT off = Some that \<Longrightarrow>
   envValueWin P env pwd (toUpper P (mid args (pv + 1) (that - pv - 1))) = val \<Longrightarrow> val \<noteq> [] \<Longrightarrow>
     envExpandWin_loop P env pwd args off (Some pv) =
     envExpandWin_loop P env pwd (replaceAt args pv (that - pv + 1) val) (pv + length val) None"
  by (subst envExpandWin_loop.simps) (simp add: Let_def)

lemma envExpandWin_loop_no_value:
  "indexOf args PERCENT off = Some that \<Longrightarrow>
   envValueWin P env pwd (toUpper P (mid args (pv + 1) (that - pv - 1))) = [] \<Longrightarrow>
     envExpandWin_loop P env pwd args off (Some pv) =
     envExpandWin_loop P env pwd args (that + 1) (Some that)"
  by (subst envExpandWin_loop.simps) (simp add: Let_def)

text \<open>The loop of \<^verbatim>\<open>envExpandWin\<close> does what the scan over the stretches says, both with no
  percent sign open and with the percent sign in front of the rest open.\<close>

lemma envExpandWin_loop_segs:
  assumes "\<forall>s\<in>set segs. PERCENT \<notin> set s" and "segs \<noteq> []"
  shows "envExpandWin_loop P env pwd (pre @ joinSegs segs) (length pre) None =
      pre @ expandSegs P env pwd False segs \<and>
    envExpandWin_loop P env pwd (pre @ PERCENT # joinSegs segs) (Suc (length pre)) (Some (length pre)) =
      pre @ expandSegs P env pwd True segs"
  using assms
proof (induction segs arbitrary: pre)
  case Nil
  then show ?case by simp
next
  case (Cons s segs)
  from Cons.prems have s: "PERCENT \<notin> set s" and rest: "\<forall>s\<in>set segs. PERCENT \<notin> set s"
    by simp_all
  show ?case
  proof (cases "segs = []")
    case True
    have "indexOf (pre @ s) PERCENT (length pre) = None"
      using s by (rule indexOf_absent)
    then have c: "envExpandWin_loop P env pwd (pre @ s) (length pre) None = pre @ s"
      by (rule envExpandWin_loop_end)
    have "indexOf ((pre @ [PERCENT]) @ s) PERCENT (length (pre @ [PERCENT])) = None"
      using s by (rule indexOf_absent)
    then have "indexOf (pre @ PERCENT # s) PERCENT (Suc (length pre)) = None" by simp
    then have o: "envExpandWin_loop P env pwd (pre @ PERCENT # s) (Suc (length pre)) (Some (length pre)) =
        pre @ PERCENT # s"
      by (rule envExpandWin_loop_end)
    from c o True show ?thesis by simp
  next
    case False
    then obtain s' segs' where segs: "segs = s' # segs'" by (cases segs) auto
    note js = joinSegs_Cons [OF False, of s]
    note ih = Cons.IH [OF rest False]
    have closed: "envExpandWin_loop P env pwd (pre @ joinSegs (s # segs)) (length pre) None =
        pre @ expandSegs P env pwd False (s # segs)"
    proof -
      let ?args = "pre @ s @ PERCENT # joinSegs segs"
      have ix: "indexOf ?args PERCENT (length pre) = Some (length pre + length s)"
        using s by (rule indexOf_first)
      have "envExpandWin_loop P env pwd ?args (length pre) None =
          envExpandWin_loop P env pwd ?args (length pre + length s + 1) (Some (length pre + length s))"
        by (rule envExpandWin_loop_first [OF ix])
      also have "\<dots> = (pre @ s) @ expandSegs P env pwd True segs"
        using ih [of "pre @ s"] by simp
      finally show ?thesis by (simp add: js)
    qed
    have opened: "envExpandWin_loop P env pwd (pre @ PERCENT # joinSegs (s # segs)) (Suc (length pre))
          (Some (length pre)) = pre @ expandSegs P env pwd True (s # segs)"
    proof -
      let ?args = "pre @ PERCENT # s @ PERCENT # joinSegs segs"
      let ?that = "Suc (length pre + length s)"
      have "indexOf ((pre @ [PERCENT]) @ s @ PERCENT # joinSegs segs) PERCENT (length (pre @ [PERCENT])) =
          Some (length (pre @ [PERCENT]) + length s)"
        using s by (rule indexOf_first)
      then have ix: "indexOf ?args PERCENT (Suc (length pre)) = Some ?that" by simp
      have m: "mid ?args (length pre + 1) (?that - length pre - 1) = s"
        by (simp add: mid_def)
      have var: "envValueWin P env pwd (toUpper P (mid ?args (length pre + 1) (?that - length pre - 1))) =
          refValue P env pwd s"
        by (simp only: m refValue_def)
      show ?thesis
      proof (cases "refValue P env pwd s = []")
        case True
        have "envExpandWin_loop P env pwd ?args (Suc (length pre)) (Some (length pre)) =
            envExpandWin_loop P env pwd ?args (?that + 1) (Some ?that)"
          by (rule envExpandWin_loop_no_value [OF ix]) (simp only: var True)
        also have "\<dots> = (pre @ PERCENT # s) @ expandSegs P env pwd True segs"
          using ih [of "pre @ PERCENT # s"] by simp
        finally show ?thesis using True by (simp add: js segs)
      next
        case val: False
        let ?val = "refValue P env pwd s"
        have rep: "replaceAt ?args (length pre) (?that - length pre + 1) ?val = pre @ ?val @ joinSegs segs"
          by (simp add: replaceAt_def)
        have "envExpandWin_loop P env pwd ?args (Suc (length pre)) (Some (length pre)) =
            envExpandWin_loop P env pwd (replaceAt ?args (length pre) (?that - length pre + 1) ?val)
              (length pre + length ?val) None"
          by (rule envExpandWin_loop_value [OF ix var val])
        also have "\<dots> = (pre @ ?val) @ expandSegs P env pwd False segs"
          unfolding rep using ih [of "pre @ ?val"] by simp
        finally show ?thesis using val by (simp add: js segs)
      qed
    qed
    from closed opened show ?thesis by (simp add: js)
  qed
qed

lemma segsOf_not_Nil [simp]: "segsOf refs rest \<noteq> []"
  by (cases refs) auto

lemma joinSegs_segsOf: "joinSegs (segsOf refs rest) = renderRefs refs @ rest"
proof (induction refs)
  case Nil
  show ?case by (simp add: renderRefs_def)
next
  case (Cons r refs)
  obtain lit name where r: "r = (lit, name)" by (cases r)
  have "joinSegs (lit # name # segsOf refs rest) = lit @ PERCENT # name @ PERCENT # joinSegs (segsOf refs rest)"
    by (simp add: joinSegs_Cons)
  with Cons r show ?case by (simp add: renderRefs_def)
qed

lemma segsOf_percent_free:
  "refsOk P env pwd u refs \<Longrightarrow> PERCENT \<notin> set rest \<Longrightarrow> \<forall>s\<in>set (segsOf refs rest). PERCENT \<notin> set s"
  by (induction refs arbitrary: u) auto

lemma expandSegs_segsOf:
  assumes "refsOk P env pwd u refs"
  shows "expandSegs P env pwd False (segsOf refs rest) = expectedRefs P env pwd refs @ rest \<and>
    (u \<longrightarrow> expandSegs P env pwd True (segsOf refs rest) = PERCENT # expectedRefs P env pwd refs @ rest)"
  using assms
proof (induction refs arbitrary: u)
  case Nil
  show ?case by (simp add: expectedRefs_def)
next
  case (Cons r refs)
  obtain lit name where r: "r = (lit, name)" by (cases r)
  from Cons.prems r have ok: "refsOk P env pwd (refValue P env pwd name = []) refs"
    and unk: "u \<longrightarrow> refValue P env pwd lit = []"
    by simp_all
  note ih = Cons.IH [OF ok]
  have name: "expandSegs P env pwd True (name # segsOf refs rest) =
      (if refValue P env pwd name \<noteq> [] then refValue P env pwd name else PERCENT # name @ [PERCENT]) @
      expectedRefs P env pwd refs @ rest"
  proof (cases "refValue P env pwd name = []")
    case True
    with ih have "expandSegs P env pwd True (segsOf refs rest) = PERCENT # expectedRefs P env pwd refs @ rest"
      by simp
    with True show ?thesis by (cases "segsOf refs rest") simp_all
  next
    case False
    with ih show ?thesis by (cases "segsOf refs rest") simp_all
  qed
  have e: "expectedRefs P env pwd (r # refs) @ rest =
      lit @ (if refValue P env pwd name \<noteq> [] then refValue P env pwd name else PERCENT # name @ [PERCENT]) @
      expectedRefs P env pwd refs @ rest"
    by (simp add: expectedRefs_def r)
  have "expandSegs P env pwd False (segsOf (r # refs) rest) = expectedRefs P env pwd (r # refs) @ rest"
    unfolding e by (simp add: r name)
  moreover have "expandSegs P env pwd True (segsOf (r # refs) rest) =
      PERCENT # expectedRefs P env pwd (r # refs) @ rest" if "u"
    unfolding e using that unk by (simp add: r name)
  ultimately show ?case by simp
qed

lemma envExpandWin_segs:
  "\<forall>s\<in>set segs. PERCENT \<notin> set s \<Longrightarrow> segs \<noteq> [] \<Longrightarrow>
     envExpandWin P (joinSegs segs) env pwd = expandSegs P env pwd False segs"
  using envExpandWin_loop_segs [of segs P env pwd "[]"] by (simp add: envExpandWin_def)

lemma splitSegs_not_Nil [simp]: "splitSegs args \<noteq> []"
  by (induction args) (auto split: list.splits)

lemma joinSegs_splitSegs: "joinSegs (splitSegs args) = args"
proof (induction args)
  case Nil
  show ?case by simp
next
  case (Cons c r)
  obtain s segs where sp: "splitSegs r = s # segs"
    using splitSegs_not_Nil [of r] by (cases "splitSegs r") auto
  show ?case
  proof (cases "c = PERCENT")
    case True
    with Cons show ?thesis by (simp add: joinSegs_Cons)
  next
    case False
    with Cons sp show ?thesis by (cases segs) simp_all
  qed
qed

lemma splitSegs_percent_free: "\<forall>s\<in>set (splitSegs args). PERCENT \<notin> set s"
  by (induction args) (auto split: list.splits)

lemma envExpandWin_splitSegs:
  "envExpandWin P args env pwd = expandSegs P env pwd False (splitSegs args)"
  using envExpandWin_segs [OF splitSegs_percent_free splitSegs_not_Nil, of P args env pwd]
  by (simp add: joinSegs_splitSegs)

text \<open>
  Claim C9, as the code has it. When an environment is supplied,
  \<^item> \<^verbatim>\<open>envExpandWin\<close> does, on every command line, what the scan over the stretches between
    the percent signs says: it replaces an open stretch that has a value, with the percent
    signs around it, and keeps every other one;
  \<^item> in a command line with well separated references it replaces every reference that
    has a value and leaves every reference without value as it is;
  \<^item> it leaves a command line unchanged in which no stretch between two consecutive
    percent signs has a value;
  \<^item> the percent sign is not in the set of metacharacters, and \<^verbatim>\<open>prepareArgsWin\<close> reports
    \<open>SplitOk\<close> whenever the expanded command line has no metacharacter.
\<close>

theorem envExpandWin_unknown_refs_verbatim:
  "envExpandWin P args env pwd = expandSegs P env pwd False (splitSegs args) \<and>
   (refsOk P env pwd False refs \<and> PERCENT \<notin> set rest \<longrightarrow>
      envExpandWin P (renderRefs refs @ rest) env pwd = expectedRefs P env pwd refs @ rest) \<and>
   (unknownRefs P env pwd args \<longrightarrow> envExpandWin P args env pwd = args) \<and>
   \<not> isMetaCharWin PERCENT \<and>
   ((\<forall>c\<in>set (envExpandWin P args env pwd). \<not> isMetaCharWin c) \<longrightarrow>
      fst (prepareArgsWin P args (Some env) pwd) = SplitOk)"
proof (intro conjI impI)
  show "envExpandWin P args env pwd = expandSegs P env pwd False (splitSegs args)"
    by (rule envExpandWin_splitSegs)
next
  assume a: "refsOk P env pwd False refs \<and> PERCENT \<notin> set rest"
  then have "\<forall>s\<in>set (segsOf refs rest). PERCENT \<notin> set s"
    by (intro segsOf_percent_free [of P env pwd False]) simp_all
  then have "envExpandWin P (joinSegs (segsOf refs rest)) env pwd =
      expandSegs P env pwd False (segsOf refs rest)"
    by (intro envExpandWin_segs) simp_all
  with a show "envExpandWin P (renderRefs refs @ rest) env pwd = expectedRefs P env pwd refs @ rest"
    using expandSegs_segsOf [of P env pwd False refs rest] by (simp add: joinSegs_segsOf)
next
  assume "unknownRefs P env pwd args"
  then show "envExpandWin P args env pwd = args"
    unfolding envExpandWin_def by (rule envExpandWin_loop_unknown) simp
next
  show "\<not> isMetaCharWin PERCENT"
    by (simp add: isMetaCharWin_def bitTest_def)
next
  let ?x = "envExpandWin P args env pwd"
  assume nm: "\<forall>c\<in>set ?x. \<not> isMetaCharWin c"
  then have "\<forall>c\<in>set (removeAt ?x 0 1). \<not> isMetaCharWin c"
    by (auto simp: removeAt_def dest: in_set_dropD)
  with nm have "fst (prepareArgsWin_scan (if ?x \<noteq> [] \<and> ?x ! 0 = ATSIGN then removeAt ?x 0 1 else ?x) 0)
      = SplitOk"
    by (simp add: prepareArgsWin_scan_no_meta)
  then show "fst (prepareArgsWin P args (Some env) pwd) = SplitOk"
    by (simp add: prepareArgsWin_def Let_def split_beta)
qed

theorem envExpandWin_unknown_refs_verbatim_witness:
  "envExpandWin asciiHost (fromLatin1 ''%A% x %B%'')
      (environmentOf [(fromLatin1 ''B'', fromLatin1 ''v'')]) None = fromLatin1 ''%A% x v'' \<and>
   envExpandWin asciiHost (fromLatin1 ''a %FOO% b%'')
      (environmentOf [(fromLatin1 ''BAR'', fromLatin1 ''x'')]) None = fromLatin1 ''a %FOO% b%'' \<and>
   fst (prepareArgsWin asciiHost (fromLatin1 ''a %FOO% b%'')
      (Some (environmentOf [(fromLatin1 ''BAR'', fromLatin1 ''x'')])) None) = SplitOk"
proof -
  let ?env = "environmentOf [(fromLatin1 ''B'', fromLatin1 ''v'')]"
  let ?env2 = "environmentOf [(fromLatin1 ''BAR'', fromLatin1 ''x'')]"
  have ok: "refsOk asciiHost ?env None False [([], fromLatin1 ''A''), (fromLatin1 '' x '', fromLatin1 ''B'')] \<and>
      PERCENT \<notin> set []"
    by code_simp
  have r: "renderRefs [([], fromLatin1 ''A''), (fromLatin1 '' x '', fromLatin1 ''B'')] @ [] =
      fromLatin1 ''%A% x %B%''"
    by code_simp
  have e: "expectedRefs asciiHost ?env None [([], fromLatin1 ''A''), (fromLatin1 '' x '', fromLatin1 ''B'')] @ [] =
      fromLatin1 ''%A% x v''"
    by code_simp
  have h: "unknownRefs asciiHost ?env2 None (fromLatin1 ''a %FOO% b%'')"
    by code_simp
  have nm: "\<forall>c\<in>set (fromLatin1 ''a %FOO% b%''). \<not> isMetaCharWin c"
    by code_simp
  from envExpandWin_unknown_refs_verbatim
    [where P = asciiHost and args = "[]" and env = ?env and pwd = None and rest = "[]"
      and refs = "[([], fromLatin1 ''A''), (fromLatin1 '' x '', fromLatin1 ''B'')]", THEN conjunct2]
    ok r e
  have one: "envExpandWin asciiHost (fromLatin1 ''%A% x %B%'') ?env None = fromLatin1 ''%A% x v''"
    by simp
  from envExpandWin_unknown_refs_verbatim
    [where P = asciiHost and args = "fromLatin1 ''a %FOO% b%''" and env = ?env2 and pwd = None
      and refs = "[]" and rest = "[]", THEN conjunct2] h nm
  have two: "envExpandWin asciiHost (fromLatin1 ''a %FOO% b%'') ?env2 None = fromLatin1 ''a %FOO% b%'' \<and>
      fst (prepareArgsWin asciiHost (fromLatin1 ''a %FOO% b%'') (Some ?env2) None) = SplitOk"
    by simp
  from one two show ?thesis by simp
qed

text \<open>The claim as stated, every reference with an empty value stays as it is, fails on
  \<^verbatim>\<open>%A%B%\<close> where only \<open>B\<close> is set: the percent sign that closes \<^verbatim>\<open>%A%\<close> also opens
  \<^verbatim>\<open>%B%\<close> and is replaced with it.\<close>

theorem envExpandWin_unknown_ref_counterexample:
  "expandedValueForKey (environmentOf [(fromLatin1 ''B'', fromLatin1 ''v'')]) (fromLatin1 ''A'') = [] \<and>
   envExpandWin asciiHost (fromLatin1 ''%A%B%'')
      (environmentOf [(fromLatin1 ''B'', fromLatin1 ''v'')]) None = fromLatin1 ''%Av''"
  by code_simp

section \<open>Properties of splitting on Unix\<close>

lemma splitArgsUnix_run_Inl:
  "splitArgsUnix_step P abortOnMeta env pwd l s = Inl (l', s') \<Longrightarrow>
     splitArgsUnix_run P abortOnMeta env pwd l s = splitArgsUnix_run P abortOnMeta env pwd l' s'"
  by (simp add: splitArgsUnix_run.simps [of P abortOnMeta env pwd l s])

lemma splitArgsUnix_run_Inr:
  "splitArgsUnix_step P abortOnMeta env pwd l s = Inr res \<Longrightarrow>
     splitArgsUnix_run P abortOnMeta env pwd l s = res"
  by (simp add: splitArgsUnix_run.simps [of P abortOnMeta env pwd l s])

lemma isSpace_ascii [simp]:
  "isSpace P SPACE" "\<not> isSpace P SQUOTE" "\<not> isSpace P BSLASH" "\<not> isSpace P DQUOTE"
  "\<not> isSpace P DOLLAR"
  by (simp_all add: isSpace_def)

lemma run_outer_Nil:
  "dropWhile (isSpace P) (su_rest s) = [] \<Longrightarrow>
     splitArgsUnix_run P a env pwd L_outer s = (SplitOk, su_ret s)"
  by (rule splitArgsUnix_run_Inr) (simp add: splitArgsUnix_step_def del: dropWhile_eq_Nil_conv)

lemma run_getc_Cons:
  "su_rest s = c # r \<Longrightarrow>
     splitArgsUnix_run P a env pwd L_getc s = splitArgsUnix_run P a env pwd (L_nextc c) (s\<lparr>su_rest := r\<rparr>)"
  by (rule splitArgsUnix_run_Inl) (simp add: splitArgsUnix_step_def)

lemma run_getc_Nil:
  "su_rest s = [] \<Longrightarrow> splitArgsUnix_run P a env pwd L_getc s = (SplitOk, wordsAtEnd s)"
proof -
  assume r: "su_rest s = []"
  let ?s = "s\<lparr>su_ret := wordsAtEnd s\<rparr>"
  have "splitArgsUnix_run P a env pwd L_getc s = splitArgsUnix_run P a env pwd L_endword s"
    by (rule splitArgsUnix_run_Inl) (simp add: splitArgsUnix_step_def r)
  also have "\<dots> = splitArgsUnix_run P a env pwd L_outer ?s"
    by (rule splitArgsUnix_run_Inl) (simp add: splitArgsUnix_step_def)
  also have "\<dots> = (SplitOk, su_ret ?s)"
    by (rule run_outer_Nil) (simp add: r)
  finally show ?thesis by simp
qed

lemma run_nextc_word:
  "\<not> isSpace P c \<Longrightarrow>
     splitArgsUnix_run P a env pwd (L_nextc c) s = splitArgsUnix_run P a env pwd (L_word c) s"
  by (rule splitArgsUnix_run_Inl) (simp add: splitArgsUnix_step_def)

lemma run_nextc_space:
  "isSpace P c \<Longrightarrow>
     splitArgsUnix_run P a env pwd (L_nextc c) s =
       splitArgsUnix_run P a env pwd L_outer (s\<lparr>su_ret := wordsAtEnd s\<rparr>)"
proof -
  assume sp: "isSpace P c"
  have "splitArgsUnix_run P a env pwd (L_nextc c) s = splitArgsUnix_run P a env pwd L_endword s"
    by (rule splitArgsUnix_run_Inl) (simp add: splitArgsUnix_step_def sp)
  also have "\<dots> = splitArgsUnix_run P a env pwd L_outer (s\<lparr>su_ret := wordsAtEnd s\<rparr>)"
    by (rule splitArgsUnix_run_Inl) (simp add: splitArgsUnix_step_def)
  finally show ?thesis .
qed

lemma run_word_plain:
  "c \<noteq> SQUOTE \<Longrightarrow> c \<noteq> DQUOTE \<Longrightarrow> c \<noteq> DOLLAR \<Longrightarrow> c \<noteq> BSLASH \<Longrightarrow> \<not> isMetaUnix c \<Longrightarrow>
     splitArgsUnix_run P a env pwd (L_word c) s =
       splitArgsUnix_run P a env pwd L_getc (s\<lparr>su_cret := su_cret s @ [c], su_hadWord := True\<rparr>)"
  by (rule splitArgsUnix_run_Inl) (simp add: splitArgsUnix_step_def)

lemma run_word_bslash:
  "su_rest s = c # r \<Longrightarrow>
     splitArgsUnix_run P a env pwd (L_word BSLASH) s =
       splitArgsUnix_run P a env pwd L_getc
         (s\<lparr>su_cret := su_cret s @ [c], su_hadWord := True, su_rest := r\<rparr>)"
  by (rule splitArgsUnix_run_Inl) (simp add: splitArgsUnix_step_def)

lemma run_word_squote:
  "dropWhile (\<lambda>x. x \<noteq> SQUOTE) (su_rest s) = q # r \<Longrightarrow>
     splitArgsUnix_run P a env pwd (L_word SQUOTE) s =
       splitArgsUnix_run P a env pwd L_getc
         (s\<lparr>su_cret := su_cret s @ takeWhile (\<lambda>x. x \<noteq> SQUOTE) (su_rest s),
            su_hadWord := True, su_rest := r\<rparr>)"
  by (rule splitArgsUnix_run_Inl) (simp add: splitArgsUnix_step_def)

lemma run_outer_Cons:
  "dropWhile (isSpace P) (su_rest s) = c # r \<Longrightarrow> c \<noteq> TILDE \<Longrightarrow>
     splitArgsUnix_run P a env pwd L_outer s =
       splitArgsUnix_run P a env pwd (L_word c)
         (s\<lparr>su_cret := [], su_hadWord := False, su_rest := r\<rparr>)"
  by (rule splitArgsUnix_run_Inl) (simp add: splitArgsUnix_step_def)


lemma cutAt_not_Nil [simp]: "cutAt p xs \<noteq> []"
  by (induction xs) (auto split: list.splits)

lemma splitValue_Cons: "splitValue (cc # val) s = splitValue val (splitValueChar cc s)"
  by (simp add: splitValue_def)

lemma splitValue_pieces:
  "su_hadWord s = (su_cret s \<noteq> []) \<Longrightarrow>
     wordsAtEnd (splitValue val s) =
     su_ret s @ filter (\<lambda>w. w \<noteq> [])
       (case cutAt (\<lambda>c. c = TAB \<or> c = LF \<or> c = SPACE) val of w # ws \<Rightarrow> (su_cret s @ w) # ws | [] \<Rightarrow> [])"
proof (induction val arbitrary: s)
  case Nil
  then show ?case by (simp add: splitValue_def wordsAtEnd_def)
next
  case (Cons cc val)
  let ?p = "\<lambda>c. c = TAB \<or> c = LF \<or> c = SPACE"
  obtain w ws where cut: "cutAt ?p val = w # ws"
    by (cases "cutAt ?p val") simp_all
  let ?s = "splitValueChar cc s"
  show ?case
  proof (cases "?p cc")
    case True
    have inv: "su_hadWord ?s = (su_cret ?s \<noteq> [])"
      using True Cons.prems by (auto simp: splitValueChar_def)
    have ret: "su_ret ?s = su_ret s @ filter (\<lambda>w. w \<noteq> []) [su_cret s]" and cr: "su_cret ?s = []"
      using True Cons.prems by (auto simp: splitValueChar_def)
    have "wordsAtEnd (splitValue (cc # val) s) = wordsAtEnd (splitValue val ?s)"
      by (simp add: splitValue_Cons)
    also have "\<dots> = (su_ret s @ filter (\<lambda>w. w \<noteq> []) [su_cret s]) @ filter (\<lambda>w. w \<noteq> []) (w # ws)"
      using Cons.IH [OF inv] cut by (simp add: ret cr)
    also have "\<dots> = su_ret s @ filter (\<lambda>w. w \<noteq> [])
       (case cutAt ?p (cc # val) of w # ws \<Rightarrow> (su_cret s @ w) # ws | [] \<Rightarrow> [])"
      using True cut by simp
    finally show ?thesis .
  next
    case False
    have inv: "su_hadWord ?s = (su_cret ?s \<noteq> [])"
      using False by (auto simp: splitValueChar_def)
    have ret: "su_ret ?s = su_ret s" and cr: "su_cret ?s = su_cret s @ [cc]"
      using False by (auto simp: splitValueChar_def)
    have "wordsAtEnd (splitValue (cc # val) s) = wordsAtEnd (splitValue val ?s)"
      by (simp add: splitValue_Cons)
    also have "\<dots> = su_ret s @ filter (\<lambda>w. w \<noteq> []) (((su_cret s @ [cc]) @ w) # ws)"
      using Cons.IH [OF inv] cut by (simp add: ret cr)
    also have "\<dots> = su_ret s @ filter (\<lambda>w. w \<noteq> [])
       (case cutAt ?p (cc # val) of w # ws \<Rightarrow> (su_cret s @ w) # ws | [] \<Rightarrow> [])"
      using False cut by simp
    finally show ?thesis .
  qed
qed


lemma splitValue_whitespacePieces:
  "su_cret s = [] \<Longrightarrow> \<not> su_hadWord s \<Longrightarrow>
     wordsAtEnd (splitValue val s) = su_ret s @ whitespacePieces val"
  using splitValue_pieces [of s val]
  by (cases "cutAt (\<lambda>c. c = TAB \<or> c = LF \<or> c = SPACE) val") (simp_all add: whitespacePieces_def)

lemma splitArgsUnix_echo_bare:
  assumes "constFind env (fromLatin1 ''FOO'') = Some key"
  shows "splitArgsUnix P (fromLatin1 ''echo $FOO'') abortOnMeta (Some env) pwd =
     (SplitOk, fromLatin1 ''echo'' # whitespacePieces (expandedValueForKey env key))"
proof -
  let ?s = "\<lparr>su_ret = [fromLatin1 ''echo''], su_cret = [], su_hadWord = False, su_rest = []\<rparr>"
  have "splitArgsUnix P (fromLatin1 ''echo $FOO'') abortOnMeta (Some env) pwd =
      (SplitOk, wordsAtEnd (splitValue (expandedValueForKey env key) ?s))"
    using assms
    by (simp add: splitArgsUnix_def fromLatin1_def splitArgsUnix_run.simps splitArgsUnix_step_def
        isSpace_def isMetaUnix_def bitTest_def isLetterOrNumber_def readVarStart_def
        envValueUnix_def pwdName_def wordsAtEnd_def Let_def)
  also have "wordsAtEnd (splitValue (expandedValueForKey env key) ?s) =
      fromLatin1 ''echo'' # whitespacePieces (expandedValueForKey env key)"
    by (simp add: splitValue_whitespacePieces)
  finally show ?thesis .
qed

lemma splitArgsUnix_echo_quoted:
  assumes "constFind env (fromLatin1 ''FOO'') = Some key"
  shows "splitArgsUnix P (fromLatin1 ''echo '' @ DQUOTE # fromLatin1 ''$FOO'' @ [DQUOTE])
      abortOnMeta (Some env) pwd =
     (SplitOk, [fromLatin1 ''echo'', expandedValueForKey env key])"
  using assms
  by (simp add: splitArgsUnix_def fromLatin1_def splitArgsUnix_run.simps splitArgsUnix_step_def
      isSpace_def isMetaUnix_def bitTest_def isLetterOrNumber_def readVarStart_def
      envValueUnix_def pwdName_def wordsAtEnd_def Let_def)

text \<open>
  Claim C4. For every environment that has an entry for \<open>FOO\<close>, splitting
  \<^verbatim>\<open>echo $FOO\<close> on Unix gives \<open>echo\<close> followed by the pieces of the value between tabs,
  line feeds and spaces, and splitting \<^verbatim>\<open>echo "$FOO"\<close> gives \<open>echo\<close> and the value as one
  word, both with \<open>SplitOk\<close>; for the value \<^verbatim>\<open>x y\<close> these are \<open>echo, x, y\<close> and
  \<open>echo, x y\<close>.
\<close>

theorem splitArgs_unix_env_expansion:
  assumes "constFind env (fromLatin1 ''FOO'') = Some key"
    and "osType \<noteq> OsTypeWindows"
  shows "splitArgs P (fromLatin1 ''echo $FOO'') osType abortOnMeta (Some e) (Some env) pwd =
      (fromLatin1 ''echo'' # whitespacePieces (expandedValueForKey env key), Some SplitOk) \<and>
    splitArgs P (fromLatin1 ''echo '' @ DQUOTE # fromLatin1 ''$FOO'' @ [DQUOTE]) osType abortOnMeta
        (Some e) (Some env) pwd =
      ([fromLatin1 ''echo'', expandedValueForKey env key], Some SplitOk) \<and>
    whitespacePieces (fromLatin1 ''x y'') = [fromLatin1 ''x'', fromLatin1 ''y'']"
proof -
  have "whitespacePieces (fromLatin1 ''x y'') = [fromLatin1 ''x'', fromLatin1 ''y'']"
    by (simp add: whitespacePieces_def fromLatin1_def)
  with assms show ?thesis
    by (simp add: splitArgs_def splitArgsUnix_echo_bare splitArgsUnix_echo_quoted)
qed

theorem splitArgs_unix_env_expansion_witness:
  "splitArgs asciiHost (fromLatin1 ''echo $FOO'') OsTypeLinux False (Some BadQuoting)
      (Some (environmentOf [(fromLatin1 ''FOO'', fromLatin1 ''x y'')])) None =
      ([fromLatin1 ''echo'', fromLatin1 ''x'', fromLatin1 ''y''], Some SplitOk) \<and>
   splitArgs asciiHost (fromLatin1 ''echo '' @ DQUOTE # fromLatin1 ''$FOO'' @ [DQUOTE]) OsTypeLinux
      False (Some BadQuoting) (Some (environmentOf [(fromLatin1 ''FOO'', fromLatin1 ''x y'')])) None =
      ([fromLatin1 ''echo'', fromLatin1 ''x y''], Some SplitOk)"
proof -
  let ?env = "environmentOf [(fromLatin1 ''FOO'', fromLatin1 ''x y'')]"
  have f: "constFind ?env (fromLatin1 ''FOO'') = Some (fromLatin1 ''FOO'')"
    by (simp add: environmentOf_def)
  have v: "expandedValueForKey ?env (fromLatin1 ''FOO'') = fromLatin1 ''x y''"
    by (simp add: environmentOf_def)
  have o: "OsTypeLinux \<noteq> OsTypeWindows" by simp
  from splitArgs_unix_env_expansion [OF f o, of asciiHost False BadQuoting None] v
  show ?thesis by simp
qed

section \<open>Properties of quoting\<close>

lemma bitTest_below: "length iqm = 16 \<Longrightarrow> bitTest iqm c \<Longrightarrow> unat c \<in> set [0..<128]"
  by (simp add: bitTest_def)

lemma meta_special_table:
  "\<forall>n\<in>set [0..<128].
     bitTest [0x00, 0x00, 0x00, 0x00, 0xdc, 0x07, 0x00, 0xd8,
        0x00, 0x00, 0x00, 0x38, 0x01, 0x00, 0x00, 0x38] (of_nat n) \<longrightarrow>
     bitTest [0xff, 0xff, 0xff, 0xff, 0xdf, 0x07, 0x00, 0xd8,
        0x00, 0x00, 0x00, 0x38, 0x01, 0x00, 0x00, 0x78] (of_nat n)"
  by code_simp

lemma isMetaUnix_special: "isMetaUnix c \<Longrightarrow> isSpecialCharUnix c"
proof -
  assume m: "isMetaUnix c"
  then have "unat c \<in> set [0..<128]"
    unfolding isMetaUnix_def by (rule bitTest_below [rotated]) simp
  from meta_special_table [rule_format, OF this] m show ?thesis
    by (simp add: isMetaUnix_def isSpecialCharUnix_def)
qed

lemma isSpecialCharUnix_simps [simp]:
  "isSpecialCharUnix SQUOTE" "isSpecialCharUnix DQUOTE" "isSpecialCharUnix DOLLAR"
  "isSpecialCharUnix BSLASH" "isSpecialCharUnix TILDE"
  by (simp_all add: isSpecialCharUnix_def bitTest_def)

lemma hasSpecialCharsUnix_iff: "hasSpecialCharsUnix s \<longleftrightarrow> (\<exists>c\<in>set s. isSpecialCharUnix c)"
  by (simp add: hasSpecialCharsUnix_def list_ex_iff)

lemma hasSpecialCharsWin_iff: "hasSpecialCharsWin s \<longleftrightarrow> (\<exists>c\<in>set s. isSpecialCharWin c)"
  by (simp add: hasSpecialCharsWin_def list_ex_iff)

lemma unspecial_plain:
  assumes "\<not> isSpecialCharUnix c"
  shows "c \<noteq> SQUOTE" "c \<noteq> DQUOTE" "c \<noteq> DOLLAR" "c \<noteq> BSLASH" "c \<noteq> TILDE" "\<not> isMetaUnix c"
  using assms isMetaUnix_special by auto

lemma run_getc_plain_word:
  "\<forall>c\<in>set w. \<not> isSpecialCharUnix c \<and> \<not> isSpace P c \<Longrightarrow>
     splitArgsUnix_run P a env pwd L_getc
       \<lparr>su_ret = ret, su_cret = cret, su_hadWord = True, su_rest = w\<rparr> =
     (SplitOk, ret @ [cret @ w])"
proof (induction w arbitrary: cret)
  case Nil
  then show ?case by (simp add: run_getc_Nil wordsAtEnd_def)
next
  case (Cons c w)
  then have c: "\<not> isSpecialCharUnix c" "\<not> isSpace P c" by simp_all
  note p = unspecial_plain [OF c(1)]
  have "splitArgsUnix_run P a env pwd L_getc
       \<lparr>su_ret = ret, su_cret = cret, su_hadWord = True, su_rest = c # w\<rparr> =
     splitArgsUnix_run P a env pwd (L_nextc c)
       \<lparr>su_ret = ret, su_cret = cret, su_hadWord = True, su_rest = w\<rparr>"
    by (simp add: run_getc_Cons [of _ c w])
  also have "\<dots> = splitArgsUnix_run P a env pwd (L_word c)
       \<lparr>su_ret = ret, su_cret = cret, su_hadWord = True, su_rest = w\<rparr>"
    using c(2) by (rule run_nextc_word)
  also have "\<dots> = splitArgsUnix_run P a env pwd L_getc
       \<lparr>su_ret = ret, su_cret = cret @ [c], su_hadWord = True, su_rest = w\<rparr>"
    using p by (simp add: run_word_plain)
  also have "\<dots> = (SplitOk, ret @ [(cret @ [c]) @ w])"
    using Cons.prems by (intro Cons.IH) simp
  finally show ?case by simp
qed

lemma splitArgsUnix_plain_word:
  assumes "s \<noteq> []" and "\<forall>c\<in>set s. \<not> isSpecialCharUnix c \<and> \<not> isSpace P c"
  shows "splitArgsUnix P s a env pwd = (SplitOk, [s])"
proof -
  from assms(1) obtain c w where s: "s = c # w" by (cases s) auto
  with assms(2) have c: "\<not> isSpecialCharUnix c" "\<not> isSpace P c"
    and w: "\<forall>c\<in>set w. \<not> isSpecialCharUnix c \<and> \<not> isSpace P c" by simp_all
  note p = unspecial_plain [OF c(1)]
  let ?s0 = "\<lparr>su_ret = [], su_cret = [], su_hadWord = False, su_rest = c # w\<rparr>"
  have "splitArgsUnix_run P a env pwd L_outer ?s0 =
      splitArgsUnix_run P a env pwd (L_word c)
        \<lparr>su_ret = [], su_cret = [], su_hadWord = False, su_rest = w\<rparr>"
    using run_outer_Cons [of P ?s0 c w a env pwd] c(2) p(5) by simp
  also have "\<dots> = splitArgsUnix_run P a env pwd L_getc
        \<lparr>su_ret = [], su_cret = [c], su_hadWord = True, su_rest = w\<rparr>"
    using p by (simp add: run_word_plain)
  also have "\<dots> = (SplitOk, [] @ [[c] @ w])"
    using w by (rule run_getc_plain_word)
  finally show ?thesis by (simp add: splitArgsUnix_def s)
qed

lemma qreplace_squote_Nil: "qreplace [SQUOTE] esc [] = []"
  by (simp add: qreplace.simps)

lemma qreplace_squote_Cons:
  "qreplace [SQUOTE] esc (x # xs) =
     (if x = SQUOTE then esc @ qreplace [SQUOTE] esc xs else x # qreplace [SQUOTE] esc xs)"
  by (simp add: qreplace.simps [of _ _ "x # xs"])

lemma run_word_squote_skip:
  "x \<noteq> SQUOTE \<Longrightarrow>
     splitArgsUnix_run P a env pwd (L_word SQUOTE)
       \<lparr>su_ret = ret, su_cret = cret, su_hadWord = hw, su_rest = x # r\<rparr> =
     splitArgsUnix_run P a env pwd (L_word SQUOTE)
       \<lparr>su_ret = ret, su_cret = cret @ [x], su_hadWord = hw', su_rest = r\<rparr>"
  by (cases "dropWhile (\<lambda>x. x \<noteq> SQUOTE) r")
     (simp_all add: splitArgsUnix_step_def
        splitArgsUnix_run.simps [of P a env pwd "L_word SQUOTE"
          "\<lparr>su_ret = ret, su_cret = cret, su_hadWord = hw, su_rest = x # r\<rparr>"]
        splitArgsUnix_run.simps [of P a env pwd "L_word SQUOTE"
          "\<lparr>su_ret = ret, su_cret = cret @ [x], su_hadWord = hw', su_rest = r\<rparr>"]
        del: dropWhile_eq_Nil_conv)

lemma run_word_squote_quoted:
  "splitArgsUnix_run P a env pwd (L_word SQUOTE)
     \<lparr>su_ret = ret, su_cret = cret, su_hadWord = hw,
        su_rest = qreplace [SQUOTE] [SQUOTE, BSLASH, SQUOTE, SQUOTE] s @ [SQUOTE]\<rparr> =
   (SplitOk, ret @ [cret @ s])"
proof (induction s arbitrary: cret hw)
  case Nil
  have "splitArgsUnix_run P a env pwd (L_word SQUOTE)
      \<lparr>su_ret = ret, su_cret = cret, su_hadWord = hw, su_rest = [SQUOTE]\<rparr> =
    splitArgsUnix_run P a env pwd L_getc
      \<lparr>su_ret = ret, su_cret = cret, su_hadWord = True, su_rest = []\<rparr>"
    by (simp add: run_word_squote [of _ SQUOTE "[]"])
  then show ?case by (simp add: run_getc_Nil wordsAtEnd_def qreplace_squote_Nil)
next
  case (Cons x xs)
  let ?q = "qreplace [SQUOTE] [SQUOTE, BSLASH, SQUOTE, SQUOTE] xs @ [SQUOTE]"
  show ?case
  proof (cases "x = SQUOTE")
    case False
    then show ?thesis
      using run_word_squote_skip [OF False, of P a env pwd ret cret hw ?q hw] Cons.IH [of "cret @ [x]" hw]
      by (simp add: qreplace_squote_Cons)
  next
    case True
    have "splitArgsUnix_run P a env pwd (L_word SQUOTE)
        \<lparr>su_ret = ret, su_cret = cret, su_hadWord = hw,
           su_rest = SQUOTE # BSLASH # SQUOTE # SQUOTE # ?q\<rparr> =
      splitArgsUnix_run P a env pwd L_getc
        \<lparr>su_ret = ret, su_cret = cret, su_hadWord = True, su_rest = BSLASH # SQUOTE # SQUOTE # ?q\<rparr>"
      by (simp add: run_word_squote [of _ SQUOTE "BSLASH # SQUOTE # SQUOTE # ?q"])
    also have "\<dots> = splitArgsUnix_run P a env pwd (L_word BSLASH)
        \<lparr>su_ret = ret, su_cret = cret, su_hadWord = True, su_rest = SQUOTE # SQUOTE # ?q\<rparr>"
      by (simp add: run_getc_Cons [of _ BSLASH "SQUOTE # SQUOTE # ?q"] run_nextc_word)
    also have "\<dots> = splitArgsUnix_run P a env pwd L_getc
        \<lparr>su_ret = ret, su_cret = cret @ [SQUOTE], su_hadWord = True, su_rest = SQUOTE # ?q\<rparr>"
      by (simp add: run_word_bslash [of _ SQUOTE "SQUOTE # ?q"])
    also have "\<dots> = splitArgsUnix_run P a env pwd (L_word SQUOTE)
        \<lparr>su_ret = ret, su_cret = cret @ [SQUOTE], su_hadWord = True, su_rest = ?q\<rparr>"
      by (simp add: run_getc_Cons [of _ SQUOTE ?q] run_nextc_word)
    also have "\<dots> = (SplitOk, ret @ [(cret @ [SQUOTE]) @ xs])"
      by (rule Cons.IH)
    finally show ?thesis using True by (simp add: qreplace_squote_Cons)
  qed
qed

lemma splitArgsUnix_quoteArgUnix:
  assumes "hasSpecialCharsUnix s \<or> (\<forall>c\<in>set s. \<not> isSpace P c)"
  shows "splitArgsUnix P (quoteArgUnix s) a env pwd = (SplitOk, [s])"
proof (cases "s = []")
  case True
  have "splitArgsUnix P [SQUOTE, SQUOTE] a env pwd = (SplitOk, [[]])"
    using run_word_squote_quoted [of P a env pwd "[]" "[]" False "[]"]
      run_outer_Cons [of P "\<lparr>su_ret = [], su_cret = [], su_hadWord = False, su_rest = [SQUOTE, SQUOTE]\<rparr>"
        SQUOTE "[SQUOTE]" a env pwd]
    by (simp add: splitArgsUnix_def qreplace_squote_Nil)
  with True show ?thesis by (simp add: quoteArgUnix_def)
next
  case ne: False
  show ?thesis
  proof (cases "hasSpecialCharsUnix s")
    case True
    let ?q = "qreplace [SQUOTE] [SQUOTE, BSLASH, SQUOTE, SQUOTE] s @ [SQUOTE]"
    have "splitArgsUnix P (SQUOTE # ?q) a env pwd = (SplitOk, [s])"
      using run_word_squote_quoted [of P a env pwd "[]" "[]" False s]
        run_outer_Cons [of P "\<lparr>su_ret = [], su_cret = [], su_hadWord = False, su_rest = SQUOTE # ?q\<rparr>"
          SQUOTE ?q a env pwd]
      by (simp add: splitArgsUnix_def)
    with True ne show ?thesis by (simp add: quoteArgUnix_def)
  next
    case False
    with assms have "\<forall>c\<in>set s. \<not> isSpecialCharUnix c \<and> \<not> isSpace P c"
      by (auto simp: hasSpecialCharsUnix_iff)
    with ne have "splitArgsUnix P s a env pwd = (SplitOk, [s])"
      by (rule splitArgsUnix_plain_word)
    with False ne show ?thesis by (simp add: quoteArgUnix_def)
  qed
qed

lemma isSpecialCharWin_simps [simp]:
  "isSpecialCharWin SPACE" "isSpecialCharWin TAB" "isSpecialCharWin DQUOTE"
  "isSpecialCharWin CARET" "\<not> isSpecialCharWin BSLASH" "\<not> isSpecialCharWin PERCENT"
  "\<not> isSpecialCharWin ATSIGN"
  by (simp_all add: isSpecialCharWin_def bitTest_def)

lemma escapeQuotesWin_no_quote:
  "DQUOTE \<notin> set s \<Longrightarrow> escapeQuotesWin n s = replicate n BSLASH @ s"
  by (induction s arbitrary: n) (auto simp: replicate_app_Cons_same)

lemma takeWhile_eq_replicate:
  "takeWhile (\<lambda>c. c = x) w = replicate (length (takeWhile (\<lambda>c. c = x) w)) x"
  by (induction w) auto

lemma bslash_run_split:
  obtains n r where "w = replicate n BSLASH @ r" and "r = [] \<or> hd r \<noteq> BSLASH"
proof
  show "w = replicate (length (takeWhile (\<lambda>c. c = BSLASH) w)) BSLASH @ dropWhile (\<lambda>c. c = BSLASH) w"
  proof -
    have "takeWhile (\<lambda>c. c = BSLASH) w = replicate (length (takeWhile (\<lambda>c. c = BSLASH) w)) BSLASH"
      by (rule takeWhile_eq_replicate)
    then show ?thesis
      using takeWhile_dropWhile_id [of "\<lambda>c. c = BSLASH" w] by metis
  qed
  show "dropWhile (\<lambda>c. c = BSLASH) w = [] \<or> hd (dropWhile (\<lambda>c. c = BSLASH) w) \<noteq> BSLASH"
    using hd_dropWhile [of "\<lambda>c. c = BSLASH" w] by blast
qed

lemma doSplitArgsWin_arg_unquoted_word:
  "\<forall>c\<in>set w. c \<noteq> DQUOTE \<and> \<not> isWhiteSpaceWin c \<Longrightarrow>
     doSplitArgsWin_arg arg False w = (arg @ w, False, [])"
proof (induction "length w" arbitrary: w arg rule: less_induct)
  case less
  obtain n r where w: "w = replicate n BSLASH @ r" and r: "r = [] \<or> hd r \<noteq> BSLASH"
    by (rule bslash_run_split)
  show ?case
  proof (cases r)
    case Nil
    with w show ?thesis by (simp add: doSplitArgsWin_arg_bslashes_end)
  next
    case (Cons c r')
    with r w less.prems have c: "c \<noteq> BSLASH" "c \<noteq> DQUOTE" "\<not> isWhiteSpaceWin c"
      and r': "\<forall>c\<in>set r'. c \<noteq> DQUOTE \<and> \<not> isWhiteSpaceWin c"
      by auto
    have "length r' < length w" using w Cons by simp
    from less.hyps [OF this r', of "arg @ replicate n BSLASH @ [c]"] c w Cons
    show ?thesis by (simp add: doSplitArgsWin_arg_bslashes_plain)
  qed
qed

lemma doSplitArgsWin_arg_quoted_body:
  "DQUOTE \<notin> set body \<Longrightarrow> body = [] \<or> last body \<noteq> BSLASH \<Longrightarrow>
     doSplitArgsWin_arg arg True (body @ DQUOTE # rest) =
     doSplitArgsWin_arg (arg @ body) True (DQUOTE # rest)"
proof (induction "length body" arbitrary: body arg rule: less_induct)
  case less
  obtain n r where b: "body = replicate n BSLASH @ r" and r: "r = [] \<or> hd r \<noteq> BSLASH"
    by (rule bslash_run_split)
  show ?case
  proof (cases r)
    case Nil
    have "n = 0"
    proof (rule ccontr)
      assume "n \<noteq> 0"
      then have "last (replicate n BSLASH) = BSLASH" "replicate n BSLASH \<noteq> []" by simp_all
      with b Nil less.prems(2) show False by simp
    qed
    with b Nil have "body = []" by simp
    then show ?thesis by simp
  next
    case (Cons c r')
    with r b less.prems have c: "c \<noteq> BSLASH" "c \<noteq> DQUOTE"
      and r': "DQUOTE \<notin> set r'" "r' = [] \<or> last r' \<noteq> BSLASH"
      by auto
    have "length r' < length body" using b Cons by simp
    from less.hyps [OF this r', of "arg @ replicate n BSLASH @ [c]"] c b Cons
    show ?thesis
      using doSplitArgsWin_arg_bslashes_plain [of c True arg n "r' @ DQUOTE # rest"]
      by simp
  qed
qed

lemma trailing_bslashes_split:
  fixes s :: qstring
  defines "k \<equiv> length (takeWhile (\<lambda>c. c = BSLASH) (rev s))"
  shows "drop (length s - k) s = replicate k BSLASH"
    and "take (length s - k) s = [] \<or> last (take (length s - k) s) \<noteq> BSLASH"
    and "set (take (length s - k) s) \<subseteq> set s"
proof -
  let ?t = "takeWhile (\<lambda>c. c = BSLASH) (rev s)"
  let ?d = "dropWhile (\<lambda>c. c = BSLASH) (rev s)"
  have tk: "?t = replicate k BSLASH"
    unfolding k_def by (rule takeWhile_eq_replicate)
  have "rev s = ?t @ ?d" by simp
  then have "s = rev ?d @ rev ?t" by (metis rev_append rev_rev_ident)
  then have s: "s = rev ?d @ replicate k BSLASH" using tk by simp
  have ld: "length (rev ?d) = length s - k"
    using arg_cong [OF s, of length] by simp
  have tke: "take (length s - k) s = rev ?d"
    using s ld by (metis append_eq_conv_conj)
  have dre: "drop (length s - k) s = replicate k BSLASH"
    using s ld by (metis append_eq_conv_conj)
  show "drop (length s - k) s = replicate k BSLASH" by (rule dre)
  show "take (length s - k) s = [] \<or> last (take (length s - k) s) \<noteq> BSLASH"
  proof (cases "?d = []")
    case True
    then show ?thesis using tke by simp
  next
    case False
    then have "hd ?d \<noteq> BSLASH" using hd_dropWhile [of "\<lambda>c. c = BSLASH" "rev s"] by blast
    then show ?thesis using tke False by (simp add: last_rev)
  qed
  show "set (take (length s - k) s) \<subseteq> set s" by (rule set_take_subset)
qed

lemma doSplitArgsWin_single:
  "doSplitArgsWin_arg [] False (c # r) = (w, False, []) \<Longrightarrow> \<not> isWhiteSpaceWin c \<Longrightarrow>
     doSplitArgsWin (c # r) = (SplitOk, [w])"
  by (simp add: doSplitArgsWin_def doSplitArgsWin_loop.simps [of "[]" "c # r"]
      doSplitArgsWin_loop.simps [of "[w]" "[]"])

lemma doSplitArgsWin_quoteArgWin:
  assumes "DQUOTE \<notin> set s"
  shows "doSplitArgsWin (quoteArgWin s) = (SplitOk, [s])"
proof (cases "s = []")
  case True
  have "doSplitArgsWin_arg [] False [DQUOTE, DQUOTE] = ([], False, [])"
    by (simp add: doSplitArgsWin_arg_open doSplitArgsWin_arg_close)
  then have "doSplitArgsWin [DQUOTE, DQUOTE] = (SplitOk, [[]])"
    by (rule doSplitArgsWin_single) simp
  with True show ?thesis by (simp add: quoteArgWin_def)
next
  case ne: False
  show ?thesis
  proof (cases "hasSpecialCharsWin s")
    case False
    then have "\<forall>c\<in>set s. c \<noteq> DQUOTE \<and> \<not> isWhiteSpaceWin c"
      by (auto simp: hasSpecialCharsWin_iff isWhiteSpaceWin_def)
    then have a: "doSplitArgsWin_arg [] False s = ([] @ s, False, [])"
      by (rule doSplitArgsWin_arg_unquoted_word)
    from ne obtain c r where s: "s = c # r" by (cases s) auto
    with \<open>\<forall>c\<in>set s. c \<noteq> DQUOTE \<and> \<not> isWhiteSpaceWin c\<close> have "\<not> isWhiteSpaceWin c" by simp
    with a s have "doSplitArgsWin s = (SplitOk, [s])"
      using doSplitArgsWin_single [of c r s] by simp
    with False ne show ?thesis by (simp add: quoteArgWin_def)
  next
    case True
    define k where "k = length (takeWhile (\<lambda>c. c = BSLASH) (rev s))"
    define body where "body = take (length s - k) s"
    have tr: "drop (length s - k) s = replicate k BSLASH"
      and bl: "body = [] \<or> last body \<noteq> BSLASH"
      and bs: "set body \<subseteq> set s"
      unfolding k_def body_def by (rule trailing_bslashes_split)+
    have esc: "escapeQuotesWin 0 s = s"
      using assms by (simp add: escapeQuotesWin_no_quote)
    have q: "quoteArgWin s = DQUOTE # body @ DQUOTE # replicate k BSLASH"
      using True ne by (simp add: quoteArgWin_def esc Let_def k_def [symmetric] body_def [symmetric] tr)
    have nq: "DQUOTE \<notin> set body" using bs assms by auto
    have "doSplitArgsWin_arg [] False (DQUOTE # body @ DQUOTE # replicate k BSLASH)
        = doSplitArgsWin_arg [] True (body @ DQUOTE # replicate k BSLASH)"
      by (rule doSplitArgsWin_arg_open)
    also have "\<dots> = doSplitArgsWin_arg ([] @ body) True (DQUOTE # replicate k BSLASH)"
      using nq bl by (rule doSplitArgsWin_arg_quoted_body)
    also have "\<dots> = doSplitArgsWin_arg body False (replicate k BSLASH)"
      by (cases k) (simp_all add: doSplitArgsWin_arg_close)
    also have "\<dots> = (body @ replicate k BSLASH, False, [])"
      by (rule doSplitArgsWin_arg_bslashes_end)
    also have "body @ replicate k BSLASH = s"
      using tr by (metis append_take_drop_id body_def)
    finally have "doSplitArgsWin (DQUOTE # body @ DQUOTE # replicate k BSLASH) = (SplitOk, [s])"
      by (rule doSplitArgsWin_single) simp
    with q show ?thesis by simp
  qed
qed

lemma meta_special_table_win:
  "\<forall>n\<in>set [0..<128].
     bitTest [0x00, 0x00, 0x00, 0x00, 0x40, 0x03, 0x00, 0x50,
        0x00, 0x00, 0x00, 0x00, 0x00, 0x00, 0x00, 0x10] (of_nat n) \<longrightarrow>
     bitTest [0xff, 0xff, 0xff, 0xff, 0x45, 0x13, 0x00, 0x78,
        0x00, 0x00, 0x00, 0x40, 0x00, 0x00, 0x00, 0x10] (of_nat n)"
  by code_simp

lemma isMetaCharWin_special: "isMetaCharWin c \<Longrightarrow> isSpecialCharWin c"
proof -
  assume m: "isMetaCharWin c"
  then have "unat c \<in> set [0..<128]"
    unfolding isMetaCharWin_def by (rule bitTest_below [rotated]) simp
  from meta_special_table_win [rule_format, OF this] m show ?thesis
    by (simp add: isMetaCharWin_def isSpecialCharWin_def)
qed

lemma isMetaCharWin_simps [simp]: "\<not> isMetaCharWin BSLASH" "\<not> isMetaCharWin DQUOTE"
  by (simp_all add: isMetaCharWin_def bitTest_def)

text \<open>Putting the closing quote in front of the trailing backslashes, as \<^verbatim>\<open>quoteArgWin\<close>
  does it, gives the quoted form.\<close>

lemma closing_quote_append:
  fixes x y :: qstring
  assumes "x \<noteq> []" and "last x \<noteq> BSLASH"
  defines "i \<equiv> \<lambda>w :: qstring. length w - length (takeWhile (\<lambda>c. c = BSLASH) (rev w))"
  shows "take (i (x @ y)) (x @ y) @ DQUOTE # drop (i (x @ y)) (x @ y) =
    x @ take (i y) y @ DQUOTE # drop (i y) y"
proof -
  let ?P = "\<lambda>c. c = BSLASH"
  have rx: "takeWhile ?P (rev x) = []"
    using assms(1,2) by (cases x rule: rev_cases) simp_all
  have "length (takeWhile ?P (rev y @ rev x)) = length (takeWhile ?P (rev y))"
  proof (cases "\<forall>c\<in>set (rev y). ?P c")
    case True
    then have "takeWhile ?P (rev y @ rev x) = rev y @ takeWhile ?P (rev x)"
      by (intro takeWhile_append2) simp
    then have a: "takeWhile ?P (rev y @ rev x) = rev y"
      by (simp only: rx append_Nil2)
    from True have b: "takeWhile ?P (rev y) = rev y"
      by (simp add: takeWhile_eq_all_conv)
    show ?thesis by (simp only: a b)
  next
    case False
    then obtain c where "c \<in> set (rev y)" "\<not> ?P c" by blast
    then have "takeWhile ?P (rev y @ rev x) = takeWhile ?P (rev y)"
      by (rule takeWhile_append1)
    then show ?thesis by simp
  qed
  then have ix: "i (x @ y) = length x + i y"
    using length_takeWhile_le [of ?P "rev y"] by (simp add: i_def)
  show ?thesis unfolding ix by simp
qed

lemma closing_quote_bslashes:
  "take (length (replicate n BSLASH) - length (takeWhile (\<lambda>c. c = BSLASH) (rev (replicate n BSLASH))))
      (replicate n BSLASH) @
    DQUOTE # drop (length (replicate n BSLASH) -
      length (takeWhile (\<lambda>c. c = BSLASH) (rev (replicate n BSLASH)))) (replicate n BSLASH) =
    DQUOTE # replicate n BSLASH"
proof -
  have "takeWhile (\<lambda>c. c = BSLASH) (replicate n BSLASH) = replicate n BSLASH"
    by (simp add: takeWhile_eq_all_conv)
  then show ?thesis by simp
qed

lemma escapeQuotesWin_closed:
  "take (length (escapeQuotesWin n s) - length (takeWhile (\<lambda>c. c = BSLASH) (rev (escapeQuotesWin n s))))
      (escapeQuotesWin n s) @
    DQUOTE # drop (length (escapeQuotesWin n s) -
      length (takeWhile (\<lambda>c. c = BSLASH) (rev (escapeQuotesWin n s)))) (escapeQuotesWin n s) =
    quotedTailWin True n s"
proof (induction s arbitrary: n)
  case Nil
  show ?case using closing_quote_bslashes [of n] by simp
next
  case (Cons c r)
  show ?case
  proof (cases "c = BSLASH")
    case True
    with Cons [of "Suc n"] show ?thesis by simp
  next
    case nb: False
    show ?thesis
    proof (cases "c = DQUOTE")
      case True
      let ?x = "DQUOTE # replicate (2 * n) BSLASH @ [BSLASH, CARET, DQUOTE, DQUOTE]"
      have e: "escapeQuotesWin n (c # r) = ?x @ escapeQuotesWin 0 r"
        using True nb by simp
      have t: "quotedTailWin True n (c # r) = ?x @ quotedTailWin True 0 r"
        using True nb by simp
      show ?thesis
        unfolding e t using closing_quote_append [of ?x "escapeQuotesWin 0 r"] Cons [of 0]
        by simp
    next
      case False
      let ?x = "replicate n BSLASH @ [c]"
      have e: "escapeQuotesWin n (c # r) = ?x @ escapeQuotesWin 0 r"
        using False nb by simp
      have t: "quotedTailWin True n (c # r) = ?x @ quotedTailWin True 0 r"
        using False nb by simp
      show ?thesis
        unfolding e t using closing_quote_append [of ?x "escapeQuotesWin 0 r"] Cons [of 0] nb
        by simp
    qed
  qed
qed

lemma quoteArgWin_quoted:
  "s = [] \<or> hasSpecialCharsWin s \<Longrightarrow> quoteArgWin s = DQUOTE # quotedTailWin True 0 s"
  using escapeQuotesWin_closed [of 0 s] by (auto simp: quoteArgWin_def Let_def)

lemma quoteArgWin_unquoted:
  "s \<noteq> [] \<Longrightarrow> \<not> hasSpecialCharsWin s \<Longrightarrow> quoteArgWin s = s"
  by (simp add: quoteArgWin_def)

lemma quotedTailWin_set:
  "set (quotedTailWin caret n s) \<subseteq> set s \<union> {DQUOTE, BSLASH, CARET}"
  by (induction s arbitrary: n) (auto split: if_splits)

lemma quoteArgWin_set: "set (quoteArgWin s) \<subseteq> set s \<union> {DQUOTE, BSLASH, CARET}"
proof (cases "s = [] \<or> hasSpecialCharsWin s")
  case True
  then show ?thesis using quotedTailWin_set [of True 0 s] by (auto simp: quoteArgWin_quoted)
next
  case False
  then show ?thesis by (auto simp: quoteArgWin_unquoted)
qed

text \<open>The prepare phase of \<open>abortOnMeta\<close>, step by step: a stretch of plain characters,
  a quoted stretch, and a circumflex with the character behind it.\<close>

lemma prepareArgsWin_scan_run:
  assumes "\<forall>c\<in>set w. c \<noteq> CARET \<and> c \<noteq> DQUOTE \<and> \<not> isMetaCharWin c"
  shows "prepareArgsWin_scan (pre @ w @ rest) (length pre) =
    prepareArgsWin_scan (pre @ w @ rest) (length pre + length w)"
proof (rule prepareArgsWin_scan_skip)
  fix i
  assume i: "length pre \<le> i" "i < length pre + length w"
  then have "(pre @ w @ rest) ! i = w ! (i - length pre)" "i - length pre < length w"
    by (auto simp: nth_append)
  then have "(pre @ w @ rest) ! i \<in> set w" by simp
  with assms show "(pre @ w @ rest) ! i \<noteq> CARET \<and> (pre @ w @ rest) ! i \<noteq> DQUOTE \<and>
      \<not> isMetaCharWin ((pre @ w @ rest) ! i)"
    by blast
qed simp_all

lemma skipQuotedWin_closing:
  "DQUOTE \<notin> set body \<Longrightarrow>
     skipQuotedWin (pre @ c # body @ DQUOTE # rest) (length pre) = length pre + length body + 1"
proof (induction body arbitrary: pre c)
  case Nil
  have "(pre @ c # DQUOTE # rest) ! Suc (length pre) = DQUOTE"
    by (simp add: nth_append)
  then show ?case
    by (simp add: skipQuotedWin.simps [of _ "length pre"])
next
  case (Cons b body)
  have at: "(pre @ c # (b # body) @ DQUOTE # rest) ! Suc (length pre) = b"
    by (simp add: nth_append)
  from Cons.prems have b: "b \<noteq> DQUOTE" and nb: "DQUOTE \<notin> set body" by auto
  have "skipQuotedWin (pre @ c # (b # body) @ DQUOTE # rest) (length pre) =
      skipQuotedWin ((pre @ [c]) @ b # body @ DQUOTE # rest) (length (pre @ [c]))"
    using at b by (simp add: skipQuotedWin.simps [of _ "length pre"])
  also have "\<dots> = length (pre @ [c]) + length body + 1"
    using nb by (rule Cons.IH)
  finally show ?case by simp
qed

lemma prepareArgsWin_scan_quote:
  assumes "DQUOTE \<notin> set body"
  shows "prepareArgsWin_scan (pre @ DQUOTE # body @ DQUOTE # rest) (length pre) =
    prepareArgsWin_scan (pre @ DQUOTE # body @ DQUOTE # rest) (length pre + length body + 2)"
proof -
  let ?args = "pre @ DQUOTE # body @ DQUOTE # rest"
  have sk: "skipQuotedWin ?args (length pre) = length pre + length body + 1"
    using assms by (rule skipQuotedWin_closing)
  have at: "?args ! length pre = DQUOTE" by (simp add: nth_append)
  show ?thesis
    by (simp add: prepareArgsWin_scan.simps [of ?args "length pre"] sk at)
qed

lemma prepareArgsWin_scan_caret:
  "prepareArgsWin_scan (pre @ CARET # c # rest) (length pre) =
     prepareArgsWin_scan (pre @ c # rest) (length pre + 1)"
proof -
  let ?args = "pre @ CARET # c # rest"
  have at: "?args ! length pre = CARET" by (simp add: nth_append)
  have rm: "removeAt ?args (length pre) 1 = pre @ c # rest" by (simp add: removeAt_def)
  show ?thesis
    using rm by (simp add: prepareArgsWin_scan.simps [of ?args "length pre"] at)
qed

text \<open>The prepare phase removes the circumflexes of a quoted argument and nothing else.\<close>

lemma prepareArgsWin_scan_quoted:
  "DQUOTE \<notin> set body \<Longrightarrow>
     prepareArgsWin_scan (pre @ DQUOTE # body @ quotedTailWin True n s) (length pre) =
       (SplitOk, pre @ DQUOTE # body @ quotedTailWin False n s)"
proof (induction s arbitrary: pre body n)
  case Nil
  let ?args = "pre @ DQUOTE # body @ DQUOTE # replicate n BSLASH"
  have "prepareArgsWin_scan ?args (length pre) = prepareArgsWin_scan ?args (length pre + length body + 2)"
    using Nil by (rule prepareArgsWin_scan_quote)
  also have "\<dots> = prepareArgsWin_scan ((pre @ DQUOTE # body @ [DQUOTE]) @ replicate n BSLASH @ [])
      (length (pre @ DQUOTE # body @ [DQUOTE]))"
    by simp
  also have "\<dots> = prepareArgsWin_scan ((pre @ DQUOTE # body @ [DQUOTE]) @ replicate n BSLASH @ [])
      (length (pre @ DQUOTE # body @ [DQUOTE]) + length (replicate n BSLASH))"
    by (rule prepareArgsWin_scan_run) simp
  also have "\<dots> = (SplitOk, (pre @ DQUOTE # body @ [DQUOTE]) @ replicate n BSLASH @ [])"
    by (rule prepareArgsWin_scan_end) simp
  finally show ?case by simp
next
  case (Cons c r)
  show ?case
  proof (cases "c = BSLASH")
    case True
    with Cons.IH [OF Cons.prems, of pre "Suc n"] show ?thesis by simp
  next
    case nb: False
    show ?thesis
    proof (cases "c = DQUOTE")
      case True
      let ?run = "replicate (2 * n) BSLASH @ [BSLASH]"
      let ?p1 = "pre @ DQUOTE # body @ [DQUOTE]"
      let ?p2 = "?p1 @ ?run"
      let ?args = "pre @ DQUOTE # body @ DQUOTE # (?run @ CARET # DQUOTE # DQUOTE # quotedTailWin True 0 r)"
      have "prepareArgsWin_scan ?args (length pre) =
          prepareArgsWin_scan ?args (length pre + length body + 2)"
        using Cons.prems by (rule prepareArgsWin_scan_quote)
      also have "\<dots> = prepareArgsWin_scan (?p1 @ ?run @ CARET # DQUOTE # DQUOTE # quotedTailWin True 0 r)
          (length ?p1)"
        by simp
      also have "\<dots> = prepareArgsWin_scan (?p1 @ ?run @ CARET # DQUOTE # DQUOTE # quotedTailWin True 0 r)
          (length ?p1 + length ?run)"
        by (rule prepareArgsWin_scan_run) simp
      also have "\<dots> = prepareArgsWin_scan (?p2 @ CARET # DQUOTE # DQUOTE # quotedTailWin True 0 r)
          (length ?p2)"
        by (simp add: algebra_simps)
      also have "\<dots> = prepareArgsWin_scan (?p2 @ DQUOTE # DQUOTE # quotedTailWin True 0 r)
          (length ?p2 + 1)"
        by (rule prepareArgsWin_scan_caret)
      also have "\<dots> = prepareArgsWin_scan ((?p2 @ [DQUOTE]) @ DQUOTE # [] @ quotedTailWin True 0 r)
          (length (?p2 @ [DQUOTE]))"
        by simp
      also have "\<dots> = (SplitOk, (?p2 @ [DQUOTE]) @ DQUOTE # [] @ quotedTailWin False 0 r)"
        by (rule Cons.IH) simp
      finally show ?thesis using True nb by simp
    next
      case False
      let ?body = "body @ replicate n BSLASH @ [c]"
      have "DQUOTE \<notin> set ?body" using Cons.prems False by simp
      from Cons.IH [OF this, of pre 0] False nb show ?thesis by simp
    qed
  qed
qed

text \<open>Splitting gives back the argument from what the prepare phase leaves of its quoted
  form.\<close>

lemma doSplitArgsWin_arg_quotedTail:
  "doSplitArgsWin_arg arg True (quotedTailWin False n s) = (arg @ replicate n BSLASH @ s, False, [])"
proof (induction s arbitrary: arg n)
  case Nil
  have "doSplitArgsWin_arg arg True (DQUOTE # replicate n BSLASH) =
      doSplitArgsWin_arg arg False (replicate n BSLASH)"
    by (rule doSplitArgsWin_arg_close) (cases n; simp)
  then show ?case by (simp add: doSplitArgsWin_arg_bslashes_end)
next
  case (Cons c r)
  show ?case
  proof (cases "c = BSLASH")
    case True
    with Cons [of arg "Suc n"] show ?thesis by (simp add: replicate_app_Cons_same)
  next
    case nb: False
    show ?thesis
    proof (cases "c = DQUOTE")
      case True
      let ?t = "quotedTailWin False 0 r"
      have odd: "odd (Suc (2 * n))" "Suc (2 * n) div 2 = n" by simp_all
      have "doSplitArgsWin_arg arg True
          (DQUOTE # replicate (Suc (2 * n)) BSLASH @ DQUOTE # DQUOTE # ?t) =
        doSplitArgsWin_arg arg False (replicate (Suc (2 * n)) BSLASH @ DQUOTE # DQUOTE # ?t)"
        by (rule doSplitArgsWin_arg_close) simp
      also have "\<dots> = doSplitArgsWin_arg (arg @ replicate n BSLASH @ [DQUOTE]) False (DQUOTE # ?t)"
        using doSplitArgsWin_arg_bslashes_odd_quote [OF odd(1), of arg False "DQUOTE # ?t"]
        by (simp only: odd(2))
      also have "\<dots> = doSplitArgsWin_arg (arg @ replicate n BSLASH @ [DQUOTE]) True ?t"
        by (rule doSplitArgsWin_arg_open)
      also have "\<dots> = ((arg @ replicate n BSLASH @ [DQUOTE]) @ replicate 0 BSLASH @ r, False, [])"
        by (rule Cons)
      finally show ?thesis
        using True nb by (simp add: replicate_app_Cons_same)
    next
      case False
      have "doSplitArgsWin_arg arg True (replicate n BSLASH @ c # quotedTailWin False 0 r) =
          doSplitArgsWin_arg (arg @ replicate n BSLASH @ [c]) True (quotedTailWin False 0 r)"
        using nb False by (intro doSplitArgsWin_arg_bslashes_plain) simp_all
      also have "\<dots> = ((arg @ replicate n BSLASH @ [c]) @ replicate 0 BSLASH @ r, False, [])"
        by (rule Cons)
      finally show ?thesis using False nb by simp
    qed
  qed
qed

lemma doSplitArgsWin_quotedTail:
  "doSplitArgsWin (DQUOTE # quotedTailWin False 0 s) = (SplitOk, [s])"
proof -
  have "doSplitArgsWin_arg [] False (DQUOTE # quotedTailWin False 0 s) =
      doSplitArgsWin_arg [] True (quotedTailWin False 0 s)"
    by (rule doSplitArgsWin_arg_open)
  also have "\<dots> = ([] @ replicate 0 BSLASH @ s, False, [])"
    by (rule doSplitArgsWin_arg_quotedTail)
  finally have "doSplitArgsWin_arg [] False (DQUOTE # quotedTailWin False 0 s) = (s, False, [])"
    by simp
  then show ?thesis by (rule doSplitArgsWin_single) simp
qed

lemma envKeepsWin_expand:
  "envKeepsWin P env pwd args \<Longrightarrow>
     (case env of Some e \<Rightarrow> envExpandWin P args e pwd | None \<Rightarrow> args) = args"
proof (cases env)
  case None
  then show ?thesis by simp
next
  case (Some en)
  assume "envKeepsWin P env pwd args"
  with Some have "unknownRefs P en pwd args" by (simp add: envKeepsWin_def)
  then have "envExpandWin_loop P en pwd args 0 None = args"
    by (rule envExpandWin_loop_unknown) simp
  with Some show ?thesis by (simp add: envExpandWin_def)
qed

text \<open>With \<open>abortOnMeta\<close>, the prepare phase and the split give back every argument that
  is quoted or does not begin with \<^verbatim>\<open>@\<close>.\<close>

lemma prepare_split_quoteArgWin:
  assumes "env = None \<longrightarrow> PERCENT \<notin> set s"
    and "envKeepsWin P env pwd (quoteArgWin s)"
    and "hasSpecialCharsWin s \<or> s = [] \<or> hd s \<noteq> ATSIGN"
  shows "\<exists>args. prepareArgsWin P (quoteArgWin s) env pwd = (SplitOk, createWindowsArgs args) \<and>
    doSplitArgsWin args = (SplitOk, [s])"
proof -
  let ?q = "quoteArgWin s"
  have "env = None \<longrightarrow> PERCENT \<notin> set ?q"
    using assms(1) quoteArgWin_set [of s] by auto
  then have first: "\<not> (env = None \<and> indexOf ?q PERCENT 0 \<noteq> None)"
    by (cases env) (simp_all add: indexOf_None)
  note ex = envKeepsWin_expand [OF assms(2)]
  have "\<exists>args. prepareArgsWin_scan ?q 0 = (SplitOk, args) \<and> doSplitArgsWin args = (SplitOk, [s]) \<and>
      (?q = [] \<or> ?q ! 0 \<noteq> ATSIGN)"
  proof (cases "s = [] \<or> hasSpecialCharsWin s")
    case True
    then have q: "?q = DQUOTE # quotedTailWin True 0 s" by (rule quoteArgWin_quoted)
    have "prepareArgsWin_scan ([] @ DQUOTE # [] @ quotedTailWin True 0 s) (length ([] :: qstring)) =
        (SplitOk, [] @ DQUOTE # [] @ quotedTailWin False 0 s)"
      by (rule prepareArgsWin_scan_quoted) simp
    then have "prepareArgsWin_scan ?q 0 = (SplitOk, DQUOTE # quotedTailWin False 0 s)"
      by (simp add: q)
    moreover have "?q ! 0 \<noteq> ATSIGN" by (simp add: q)
    ultimately show ?thesis using doSplitArgsWin_quotedTail [of s] by blast
  next
    case False
    then have q: "?q = s" by (simp add: quoteArgWin_unquoted)
    from False have plain: "\<forall>c\<in>set s. \<not> isSpecialCharWin c"
      by (simp add: hasSpecialCharsWin_iff)
    then have run: "\<forall>c\<in>set s. c \<noteq> CARET \<and> c \<noteq> DQUOTE \<and> \<not> isMetaCharWin c"
      using isMetaCharWin_special by auto
    have "prepareArgsWin_scan ([] @ s @ []) (length ([] :: qstring)) =
        prepareArgsWin_scan ([] @ s @ []) (length ([] :: qstring) + length s)"
      using run by (rule prepareArgsWin_scan_run)
    also have "\<dots> = (SplitOk, [] @ s @ [])"
      by (rule prepareArgsWin_scan_end) simp
    finally have sc: "prepareArgsWin_scan s 0 = (SplitOk, s)" by simp
    from run have "DQUOTE \<notin> set s" by auto
    then have "doSplitArgsWin (quoteArgWin s) = (SplitOk, [s])"
      by (rule doSplitArgsWin_quoteArgWin)
    moreover have "s ! 0 \<noteq> ATSIGN"
      using False assms(3) by (cases s) auto
    ultimately show ?thesis using sc q by simp
  qed
  then obtain args where sc: "prepareArgsWin_scan ?q 0 = (SplitOk, args)"
    and sp: "doSplitArgsWin args = (SplitOk, [s])" and at: "?q = [] \<or> ?q ! 0 \<noteq> ATSIGN"
    by blast
  have "prepareArgsWin P ?q env pwd = (SplitOk, createWindowsArgs args)"
    unfolding prepareArgsWin_def ex using first at sc by (auto simp: Let_def)
  with sp show ?thesis by blast
qed

text \<open>
  Claim C1, as the code has it. Quoting one argument and splitting the result gives back
  exactly that argument with \<open>SplitOk\<close>
  \<^item> on Unix, with or without \<open>abortOnMeta\<close> and an environment, for every argument that
    has a character of the set to be quoted or has no character that \<^verbatim>\<open>QChar::isSpace\<close>
    accepts;
  \<^item> on Windows without \<open>abortOnMeta\<close>, for every argument free of double quotes (the
    circumflex that \<^verbatim>\<open>quoteArgWin\<close> puts in front of an embedded quote is only removed by
    the prepare phase of \<open>abortOnMeta\<close>), when the environment expansion has nothing to
    replace in the quoted argument;
  \<^item> on Windows with \<open>abortOnMeta\<close>, for every argument, double quotes and backslashes
    included, that is quoted or does not begin with \<^verbatim>\<open>@\<close>, when the environment expansion
    has nothing to replace in the quoted argument, the argument has no percent sign if no
    environment is passed, and the caller passes no status variable or one that holds
    \<open>SplitOk\<close>.
  Leading and trailing whitespace of the argument does not matter for any of them.
\<close>

theorem quoteArg_splitArgs_roundtrip:
  "(osType \<noteq> OsTypeWindows \<and> (hasSpecialCharsUnix s \<or> (\<forall>c\<in>set s. \<not> isSpace P c)) \<longrightarrow>
      splitArgs P (joinArgs [s] osType) osType abortOnMeta (Some e) env pwd = ([s], Some SplitOk)) \<and>
   (DQUOTE \<notin> set s \<and> envKeepsWin P env pwd (joinArgs [s] OsTypeWindows) \<longrightarrow>
      splitArgs P (joinArgs [s] OsTypeWindows) OsTypeWindows False (Some e) env pwd
        = ([s], Some SplitOk)) \<and>
   ((env = None \<longrightarrow> PERCENT \<notin> set s) \<and> envKeepsWin P env pwd (joinArgs [s] OsTypeWindows) \<and>
    (hasSpecialCharsWin s \<or> s = [] \<or> hd s \<noteq> ATSIGN) \<and> (err = None \<or> err = Some SplitOk) \<longrightarrow>
      splitArgs P (joinArgs [s] OsTypeWindows) OsTypeWindows True err env pwd = ([s], err))"
proof (intro conjI impI)
  assume "osType \<noteq> OsTypeWindows \<and> (hasSpecialCharsUnix s \<or> (\<forall>c\<in>set s. \<not> isSpace P c))"
  then have os: "osType \<noteq> OsTypeWindows" and h: "hasSpecialCharsUnix s \<or> (\<forall>c\<in>set s. \<not> isSpace P c)"
    by simp_all
  from os have "joinArgs [s] osType = quoteArgUnix s"
    by (simp add: joinArgs_def addArg_def quoteArg_def)
  with os splitArgsUnix_quoteArgUnix [OF h, of abortOnMeta env pwd]
  show "splitArgs P (joinArgs [s] osType) osType abortOnMeta (Some e) env pwd = ([s], Some SplitOk)"
    by (simp add: splitArgs_def)
next
  have j: "joinArgs [s] OsTypeWindows = quoteArgWin s"
    by (simp add: joinArgs_def addArg_def quoteArg_def)
  assume a: "DQUOTE \<notin> set s \<and> envKeepsWin P env pwd (joinArgs [s] OsTypeWindows)"
  then have sp: "doSplitArgsWin (quoteArgWin s) = (SplitOk, [s])"
    by (intro doSplitArgsWin_quoteArgWin) simp
  from a have ex: "(case env of Some e \<Rightarrow> envExpandWin P (quoteArgWin s) e pwd | None \<Rightarrow> quoteArgWin s) =
      quoteArgWin s"
    by (intro envKeepsWin_expand) (simp add: j)
  show "splitArgs P (joinArgs [s] OsTypeWindows) OsTypeWindows False (Some e) env pwd
      = ([s], Some SplitOk)"
    by (simp add: splitArgs_def splitArgsWin_def j ex sp)
next
  have j: "joinArgs [s] OsTypeWindows = quoteArgWin s"
    by (simp add: joinArgs_def addArg_def quoteArg_def)
  assume a: "(env = None \<longrightarrow> PERCENT \<notin> set s) \<and> envKeepsWin P env pwd (joinArgs [s] OsTypeWindows) \<and>
    (hasSpecialCharsWin s \<or> s = [] \<or> hd s \<noteq> ATSIGN) \<and> (err = None \<or> err = Some SplitOk)"
  then obtain args where pr: "prepareArgsWin P (quoteArgWin s) env pwd = (SplitOk, createWindowsArgs args)"
    and sp: "doSplitArgsWin args = (SplitOk, [s])"
    using prepare_split_quoteArgWin [of env s P pwd] by (auto simp: j)
  from a have "err = None \<or> err = Some SplitOk" by simp
  then show "splitArgs P (joinArgs [s] OsTypeWindows) OsTypeWindows True err env pwd = ([s], err)"
    by (auto simp: splitArgs_def splitArgsWin_def j pr sp toWindowsArgs_def createWindowsArgs_def)
qed

theorem quoteArg_splitArgs_roundtrip_witness:
  "splitArgs asciiHost (joinArgs [fromLatin1 ''it's a $test''] OsTypeLinux) OsTypeLinux True
      (Some BadQuoting) None None = ([fromLatin1 ''it's a $test''], Some SplitOk) \<and>
   splitArgs asciiHost (joinArgs [fromLatin1 ''a %b'' @ [BSLASH]] OsTypeWindows) OsTypeWindows False
      (Some BadQuoting) (Some (environmentOf [])) None = ([fromLatin1 ''a %b'' @ [BSLASH]], Some SplitOk) \<and>
   joinArgs [0x61 # BSLASH # DQUOTE # fromLatin1 ''b & c''] OsTypeWindows =
      DQUOTE # 0x61 # DQUOTE # BSLASH # BSLASH # BSLASH # CARET # DQUOTE # DQUOTE #
        fromLatin1 ''b & c'' @ [DQUOTE] \<and>
   splitArgs asciiHost (joinArgs [0x61 # BSLASH # DQUOTE # fromLatin1 ''b & c''] OsTypeWindows)
      OsTypeWindows True (Some SplitOk) None None =
      ([0x61 # BSLASH # DQUOTE # fromLatin1 ''b & c''], Some SplitOk)"
proof -
  let ?w = "fromLatin1 ''a %b'' @ [BSLASH]"
  let ?q = "0x61 # BSLASH # DQUOTE # fromLatin1 ''b & c''"
  have u: "OsTypeLinux \<noteq> OsTypeWindows \<and>
      (hasSpecialCharsUnix (fromLatin1 ''it's a $test'') \<or>
       (\<forall>c\<in>set (fromLatin1 ''it's a $test''). \<not> isSpace asciiHost c))"
    by (simp add: hasSpecialCharsUnix_iff fromLatin1_def)
  have w: "DQUOTE \<notin> set ?w \<and>
      envKeepsWin asciiHost (Some (environmentOf [])) None (joinArgs [?w] OsTypeWindows)"
    by code_simp
  have q: "(None = (None :: Environment option) \<longrightarrow> PERCENT \<notin> set ?q) \<and>
      envKeepsWin asciiHost None None (joinArgs [?q] OsTypeWindows) \<and>
      (hasSpecialCharsWin ?q \<or> ?q = [] \<or> hd ?q \<noteq> ATSIGN) \<and>
      (Some SplitOk = None \<or> Some SplitOk = Some SplitOk)"
    by code_simp
  have j: "joinArgs [?q] OsTypeWindows =
      DQUOTE # 0x61 # DQUOTE # BSLASH # BSLASH # BSLASH # CARET # DQUOTE # DQUOTE #
        fromLatin1 ''b & c'' @ [DQUOTE]"
    by code_simp
  from quoteArg_splitArgs_roundtrip [where osType = OsTypeLinux and s = "fromLatin1 ''it's a $test''"
      and P = asciiHost and abortOnMeta = True and e = BadQuoting and env = None and pwd = None] u
  have one: "splitArgs asciiHost (joinArgs [fromLatin1 ''it's a $test''] OsTypeLinux) OsTypeLinux True
      (Some BadQuoting) None None = ([fromLatin1 ''it's a $test''], Some SplitOk)"
    by blast
  from quoteArg_splitArgs_roundtrip [where s = ?w and P = asciiHost and e = BadQuoting
      and env = "Some (environmentOf [])" and pwd = None] w
  have two: "splitArgs asciiHost (joinArgs [?w] OsTypeWindows) OsTypeWindows False
      (Some BadQuoting) (Some (environmentOf [])) None = ([?w], Some SplitOk)"
    by blast
  from quoteArg_splitArgs_roundtrip [where s = ?q and P = asciiHost and err = "Some SplitOk"
      and env = None and pwd = None] q
  have three: "splitArgs asciiHost (joinArgs [?q] OsTypeWindows) OsTypeWindows True (Some SplitOk) None None =
      ([?q], Some SplitOk)"
    by blast
  from one two three j show ?thesis by blast
qed

text \<open>The claim as stated fails for arguments without leading or trailing whitespace. On
  Windows the argument that is one double quote is quoted as \<^verbatim>\<open>""\^"""\<close> and split into
  \<^verbatim>\<open>\^"\<close> without \<open>abortOnMeta\<close>; with \<open>abortOnMeta\<close> the argument \<^verbatim>\<open>@a\<close> comes back as \<^verbatim>\<open>a\<close>,
  the argument \<^verbatim>\<open>a%\<close> is refused by the prepare phase when no environment is passed, and no
  word comes back when the caller's status variable holds an error at the call; with the
  environment in which \<open>A\<close> is \<open>v\<close> the argument \<^verbatim>\<open>%A%\<close> comes back as \<open>v\<close>. On Unix the
  argument \<open>a\<close>, no-break space, \<open>b\<close> is left unquoted and split into two words.\<close>

theorem quoteArg_splitArgs_roundtrip_counterexample:
  "joinArgs [[DQUOTE]] OsTypeWindows = [DQUOTE, DQUOTE, BSLASH, CARET, DQUOTE, DQUOTE, DQUOTE] \<and>
   splitArgs asciiHost (joinArgs [[DQUOTE]] OsTypeWindows) OsTypeWindows False (Some SplitOk) None None
     = ([[BSLASH, CARET, DQUOTE]], Some SplitOk) \<and>
   splitArgs asciiHost (joinArgs [[ATSIGN, 0x61]] OsTypeWindows) OsTypeWindows True (Some SplitOk)
       None None
     = ([[0x61]], Some SplitOk) \<and>
   splitArgs asciiHost (joinArgs [[0x61, PERCENT]] OsTypeWindows) OsTypeWindows True None None None
     = ([], None) \<and>
   fst (prepareArgsWin asciiHost (joinArgs [[0x61, PERCENT]] OsTypeWindows) None None) = FoundMeta \<and>
   splitArgs asciiHost (joinArgs [[0x61]] OsTypeWindows) OsTypeWindows True (Some BadQuoting) None None
     = ([], Some BadQuoting) \<and>
   splitArgs asciiHost (joinArgs [[PERCENT, 0x41, PERCENT]] OsTypeWindows) OsTypeWindows False
       (Some SplitOk) (Some (environmentOf [([0x41], [0x76])])) None
     = ([[0x76]], Some SplitOk) \<and>
   joinArgs [[0x61, 0xA0, 0x62]] OsTypeLinux = [0x61, 0xA0, 0x62] \<and>
   \<not> isSpace asciiHost 0x61 \<and> \<not> isSpace asciiHost 0x62 \<and>
   splitArgs asciiHost (joinArgs [[0x61, 0xA0, 0x62]] OsTypeLinux) OsTypeLinux False (Some SplitOk)
       None None
     = ([[0x61], [0x62]], Some SplitOk)"
  by code_simp

section \<open>Properties of the argument iterator\<close>

lemma next_unix_loop_Inl:
  "nu_pos s < length str \<Longrightarrow> next_unix_body str s = Inl s' \<Longrightarrow>
     next_unix_loop str s = next_unix_loop str (s'\<lparr>nu_pos := nu_pos s' + 1\<rparr>)"
  by (subst next_unix_loop.simps) simp

lemma next_unix_loop_Inr:
  "nu_pos s < length str \<Longrightarrow> next_unix_body str s = Inr exit \<Longrightarrow>
     next_unix_loop str s = Some exit"
  by (subst next_unix_loop.simps) simp

lemma next_unix_loop_end:
  "length str \<le> nu_pos s \<Longrightarrow> next_unix_loop str s = Some (Break s)"
  by (subst next_unix_loop.simps) simp

definition basicState :: "nextUnixState \<Rightarrow> bool" where
  "basicState s = (nu_state s = \<lparr>current = MxBasic, dquote = False\<rparr> \<and> nu_sstack s = [])"

lemma isSpace_TAB [simp]: "isSpace P TAB"
  by (simp add: isSpace_def)

lemma loop_plain:
  assumes "drop (nu_pos s) str = c # rest" and "basicState s" and "plainChar P a c"
  shows "next_unix_loop str s =
     next_unix_loop str (s\<lparr>nu_pos := nu_pos s + 1, nu_value := nu_value s @ [c], nu_hadWord := True\<rparr>)"
proof -
  from drop_Cons_nth [OF assms(1)] have n: "nu_pos s < length str" and c: "str ! nu_pos s = c"
    by simp_all
  from assms(3) have sp: "c \<noteq> SPACE" "c \<noteq> TAB"
    by (auto simp: plainChar_def)
  have "next_unix_body str s = Inl (s\<lparr>nu_value := nu_value s @ [c], nu_hadWord := True\<rparr>)"
    using assms(2,3) c sp
    by (simp add: next_unix_body_def basicState_def plainChar_def takeChar_def Let_def)
  from next_unix_loop_Inl [OF n this] show ?thesis by (cases s) simp
qed

lemma loop_escaped:
  assumes "drop (nu_pos s) str = BSLASH # c # rest" and "basicState s"
  shows "next_unix_loop str s =
     next_unix_loop str (s\<lparr>nu_pos := nu_pos s + 2, nu_value := nu_value s @ [c], nu_hadWord := True\<rparr>)"
proof -
  from drop_Cons_nth [OF assms(1)] have n: "nu_pos s < length str" and b: "str ! nu_pos s = BSLASH"
    and d: "drop (Suc (nu_pos s)) str = c # rest"
    by simp_all
  from drop_Cons_nth [OF d] have n': "Suc (nu_pos s) < length str" and c: "str ! Suc (nu_pos s) = c"
    by simp_all
  have "next_unix_body str s =
      Inl (s\<lparr>nu_pos := nu_pos s + 1, nu_value := nu_value s @ [c], nu_hadWord := True\<rparr>)"
    using assms(2) b c n'
    by (simp add: next_unix_body_def basicState_def takeChar_def Let_def)
  from next_unix_loop_Inl [OF n this] show ?thesis by (cases s) simp
qed

lemma loop_in_squote:
  assumes "drop (nu_pos s) str = q @ rest" and "current (nu_state s) = MxSingleQuote"
    and "SQUOTE \<notin> set q" and "nu_hadWord s"
  shows "next_unix_loop str s =
     next_unix_loop str (s\<lparr>nu_value := nu_value s @ q, nu_pos := nu_pos s + length q\<rparr>)"
  using assms
proof (induction q arbitrary: s)
  case Nil
  then show ?case by (cases s) simp
next
  case (Cons c q)
  from Cons.prems(1) have d: "drop (nu_pos s) str = c # q @ rest" by simp
  from drop_Cons_nth [OF d] have n: "nu_pos s < length str" and c: "str ! nu_pos s = c"
    and d': "drop (Suc (nu_pos s)) str = q @ rest"
    by simp_all
  let ?s1 = "s\<lparr>nu_value := nu_value s @ [c], nu_hadWord := True, nu_pos := nu_pos s + 1\<rparr>"
  have "next_unix_body str s = Inl (s\<lparr>nu_value := nu_value s @ [c], nu_hadWord := True\<rparr>)"
    using Cons.prems(2,3) c by (simp add: next_unix_body_def takeChar_def Let_def)
  from next_unix_loop_Inl [OF n this]
  have "next_unix_loop str s = next_unix_loop str ?s1" by simp
  also have "\<dots> = next_unix_loop str
      (?s1\<lparr>nu_value := nu_value ?s1 @ q, nu_pos := nu_pos ?s1 + length q\<rparr>)"
    using Cons.prems(2,3) d' by (intro Cons.IH) simp_all
  also have "?s1\<lparr>nu_value := nu_value ?s1 @ q, nu_pos := nu_pos ?s1 + length q\<rparr> =
      s\<lparr>nu_value := nu_value s @ c # q, nu_pos := nu_pos s + length (c # q)\<rparr>"
    using Cons.prems(4) by (cases s) simp
  finally show ?case .
qed

lemma loop_squoted:
  assumes "drop (nu_pos s) str = SQUOTE # q @ SQUOTE # rest" and "basicState s"
    and "SQUOTE \<notin> set q"
  shows "next_unix_loop str s =
     next_unix_loop str
       (s\<lparr>nu_value := nu_value s @ q, nu_hadWord := True, nu_pos := nu_pos s + (length q + 2)\<rparr>)"
proof -
  from drop_Cons_nth [OF assms(1)] have n: "nu_pos s < length str" and c: "str ! nu_pos s = SQUOTE"
    and d: "drop (Suc (nu_pos s)) str = q @ SQUOTE # rest"
    by simp_all
  let ?q = "\<lparr>current = MxSingleQuote, dquote = False\<rparr>"
  let ?s0 = "s\<lparr>nu_sstack := [nu_state s], nu_state := ?q, nu_hadWord := True\<rparr>"
  let ?s1 = "?s0\<lparr>nu_pos := nu_pos s + 1\<rparr>"
  let ?s2 = "?s1\<lparr>nu_value := nu_value ?s1 @ q, nu_pos := nu_pos ?s1 + length q\<rparr>"
  have "next_unix_body str s = Inl ?s0"
    using assms(2) c by (simp add: next_unix_body_def basicState_def pushState_def Let_def)
  from next_unix_loop_Inl [OF n this]
  have "next_unix_loop str s = next_unix_loop str ?s1" by simp
  also have "\<dots> = next_unix_loop str ?s2"
    using assms(3) d by (intro loop_in_squote) simp_all
  finally have one: "next_unix_loop str s = next_unix_loop str ?s2" .
  have d2: "drop (nu_pos ?s2) str = SQUOTE # rest"
    using drop_append_shift [OF d] by simp
  from drop_Cons_nth [OF d2] have n2: "nu_pos ?s2 < length str" and c2: "str ! nu_pos ?s2 = SQUOTE"
    by simp_all
  have "next_unix_body str ?s2 = Inl (?s2\<lparr>nu_state := nu_state s, nu_sstack := []\<rparr>)"
    using c2 by (simp add: next_unix_body_def continueWith_def popState_def Let_def)
  from next_unix_loop_Inl [OF n2 this] one
  have "next_unix_loop str s =
      next_unix_loop str (?s2\<lparr>nu_state := nu_state s, nu_sstack := [], nu_pos := nu_pos ?s2 + 1\<rparr>)"
    by simp
  also have "?s2\<lparr>nu_state := nu_state s, nu_sstack := [], nu_pos := nu_pos ?s2 + 1\<rparr> =
      s\<lparr>nu_value := nu_value s @ q, nu_hadWord := True, nu_pos := nu_pos s + (length q + 2)\<rparr>"
    using assms(2) by (cases s) (simp add: basicState_def)
  finally show ?thesis .
qed

lemma loop_in_dquote:
  assumes "drop (nu_pos s) str = concat (map renderDq items) @ rest"
    and "nu_state s = \<lparr>current = MxDoubleQuote, dquote = True\<rparr>"
    and "list_all dqItemOk items" and "nu_hadWord s"
  shows "next_unix_loop str s =
     next_unix_loop str
       (s\<lparr>nu_value := nu_value s @ concat (map decodeDq items),
          nu_pos := nu_pos s + length (concat (map renderDq items))\<rparr>)"
  using assms
proof (induction items arbitrary: s)
  case Nil
  then show ?case by (cases s) simp
next
  case (Cons item items)
  let ?r = "concat (map renderDq items)"
  let ?v = "concat (map decodeDq items)"
  have step: "\<exists>s1. next_unix_loop str s = next_unix_loop str s1 \<and>
      s1 = s\<lparr>nu_value := nu_value s @ decodeDq item, nu_pos := nu_pos s + length (renderDq item)\<rparr>"
  proof (cases item)
    case (DqChar c)
    with Cons.prems(1) have d: "drop (nu_pos s) str = c # ?r @ rest" by simp
    from drop_Cons_nth [OF d] have n: "nu_pos s < length str" and c: "str ! nu_pos s = c"
      by simp_all
    have "next_unix_body str s = Inl (s\<lparr>nu_value := nu_value s @ [c], nu_hadWord := True\<rparr>)"
      using Cons.prems(2,3) DqChar c by (simp add: next_unix_body_def takeChar_def Let_def)
    from next_unix_loop_Inl [OF n this]
    have "next_unix_loop str s =
        next_unix_loop str (s\<lparr>nu_value := nu_value s @ [c], nu_hadWord := True, nu_pos := nu_pos s + 1\<rparr>)"
      by simp
    moreover have "s\<lparr>nu_value := nu_value s @ [c], nu_hadWord := True, nu_pos := nu_pos s + 1\<rparr> =
        s\<lparr>nu_value := nu_value s @ decodeDq item, nu_pos := nu_pos s + length (renderDq item)\<rparr>"
      using Cons.prems(4) DqChar by (cases s) simp
    ultimately show ?thesis by simp
  next
    case (DqEscaped c)
    with Cons.prems(1) have d: "drop (nu_pos s) str = BSLASH # c # ?r @ rest" by simp
    from drop_Cons_nth [OF d] have n: "nu_pos s < length str" and b: "str ! nu_pos s = BSLASH"
      and d1: "drop (Suc (nu_pos s)) str = c # ?r @ rest"
      by simp_all
    from drop_Cons_nth [OF d1] have n': "Suc (nu_pos s) < length str"
      and c: "str ! Suc (nu_pos s) = c"
      by simp_all
    have "next_unix_body str s =
        Inl (s\<lparr>nu_pos := nu_pos s + 1, nu_value := nu_value s @ decodeDq item, nu_hadWord := True\<rparr>)"
      using Cons.prems(2,3) DqEscaped b c n'
      by (simp add: next_unix_body_def takeChar_def Let_def)
    from next_unix_loop_Inl [OF n this]
    have "next_unix_loop str s =
        next_unix_loop str
          (s\<lparr>nu_pos := nu_pos s + 1, nu_value := nu_value s @ decodeDq item, nu_hadWord := True,
             nu_pos := nu_pos s + 2\<rparr>)"
      by simp
    moreover have "s\<lparr>nu_pos := nu_pos s + 1, nu_value := nu_value s @ decodeDq item,
          nu_hadWord := True, nu_pos := nu_pos s + 2\<rparr> =
        s\<lparr>nu_value := nu_value s @ decodeDq item, nu_pos := nu_pos s + length (renderDq item)\<rparr>"
      using Cons.prems(4) DqEscaped by (cases s) simp
    ultimately show ?thesis by simp
  qed
  let ?s1 = "s\<lparr>nu_value := nu_value s @ decodeDq item, nu_pos := nu_pos s + length (renderDq item)\<rparr>"
  from step have "next_unix_loop str s = next_unix_loop str ?s1" by simp
  also have "\<dots> = next_unix_loop str
      (?s1\<lparr>nu_value := nu_value ?s1 @ ?v, nu_pos := nu_pos ?s1 + length ?r\<rparr>)"
  proof (rule Cons.IH)
    from Cons.prems(1) have "drop (nu_pos s) str = renderDq item @ ?r @ rest" by simp
    from drop_append_shift [OF this] show "drop (nu_pos ?s1) str = ?r @ rest" by simp
  qed (use Cons.prems in simp_all)
  also have "?s1\<lparr>nu_value := nu_value ?s1 @ ?v, nu_pos := nu_pos ?s1 + length ?r\<rparr> =
      s\<lparr>nu_value := nu_value s @ concat (map decodeDq (item # items)),
        nu_pos := nu_pos s + length (concat (map renderDq (item # items)))\<rparr>"
    by (cases s) simp
  finally show ?case .
qed

lemma loop_dquoted:
  assumes "drop (nu_pos s) str = DQUOTE # concat (map renderDq items) @ DQUOTE # rest"
    and "basicState s" and "list_all dqItemOk items"
  shows "next_unix_loop str s =
     next_unix_loop str
       (s\<lparr>nu_value := nu_value s @ concat (map decodeDq items), nu_hadWord := True,
          nu_pos := nu_pos s + (length (concat (map renderDq items)) + 2)\<rparr>)"
proof -
  let ?r = "concat (map renderDq items)"
  let ?v = "concat (map decodeDq items)"
  from drop_Cons_nth [OF assms(1)] have n: "nu_pos s < length str" and c: "str ! nu_pos s = DQUOTE"
    and d: "drop (Suc (nu_pos s)) str = ?r @ DQUOTE # rest"
    by simp_all
  let ?q = "\<lparr>current = MxDoubleQuote, dquote = True\<rparr>"
  let ?s0 = "s\<lparr>nu_sstack := [nu_state s], nu_state := ?q, nu_hadWord := True\<rparr>"
  let ?s1 = "?s0\<lparr>nu_pos := nu_pos s + 1\<rparr>"
  let ?s2 = "?s1\<lparr>nu_value := nu_value ?s1 @ ?v, nu_pos := nu_pos ?s1 + length ?r\<rparr>"
  have "next_unix_body str s = Inl ?s0"
    using assms(2) c by (simp add: next_unix_body_def basicState_def pushState_def Let_def)
  from next_unix_loop_Inl [OF n this]
  have "next_unix_loop str s = next_unix_loop str ?s1" by simp
  also have "\<dots> = next_unix_loop str ?s2"
    using assms(3) d by (intro loop_in_dquote) simp_all
  finally have one: "next_unix_loop str s = next_unix_loop str ?s2" .
  have d2: "drop (nu_pos ?s2) str = DQUOTE # rest"
    using drop_append_shift [OF d] by simp
  from drop_Cons_nth [OF d2] have n2: "nu_pos ?s2 < length str" and c2: "str ! nu_pos ?s2 = DQUOTE"
    by simp_all
  have "next_unix_body str ?s2 = Inl (?s2\<lparr>nu_state := nu_state s, nu_sstack := []\<rparr>)"
    using c2 by (simp add: next_unix_body_def continueWith_def popState_def Let_def)
  from next_unix_loop_Inl [OF n2 this] one
  have "next_unix_loop str s =
      next_unix_loop str (?s2\<lparr>nu_state := nu_state s, nu_sstack := [], nu_pos := nu_pos ?s2 + 1\<rparr>)"
    by simp
  also have "?s2\<lparr>nu_state := nu_state s, nu_sstack := [], nu_pos := nu_pos ?s2 + 1\<rparr> =
      s\<lparr>nu_value := nu_value s @ ?v, nu_hadWord := True, nu_pos := nu_pos s + (length ?r + 2)\<rparr>"
    using assms(2) by (cases s) (simp add: basicState_def)
  finally show ?thesis .
qed

lemma loop_piece:
  assumes "drop (nu_pos s) str = renderPiece p @ rest" and "basicState s" and "pieceOk P a p"
  shows "next_unix_loop str s =
     next_unix_loop str
       (s\<lparr>nu_value := nu_value s @ decodePiece p, nu_hadWord := True,
          nu_pos := nu_pos s + length (renderPiece p)\<rparr>)"
proof (cases p)
  case (Plain c)
  with assms loop_plain [of s str c rest P a] show ?thesis by (cases s) simp
next
  case (Escaped c)
  with assms loop_escaped [of s str c rest] show ?thesis by (cases s) simp
next
  case (SingleQuoted q)
  with assms loop_squoted [of s str q rest] show ?thesis by (cases s) simp
next
  case (DoubleQuoted items)
  with assms loop_dquoted [of s str items rest] show ?thesis by (cases s) simp
qed

lemma loop_word:
  assumes "drop (nu_pos s) str = renderWord w @ rest" and "basicState s"
    and "list_all (pieceOk P a) w"
  shows "next_unix_loop str s =
     next_unix_loop str
       (s\<lparr>nu_value := nu_value s @ decodeWord w, nu_hadWord := (nu_hadWord s \<or> w \<noteq> []),
          nu_pos := nu_pos s + length (renderWord w)\<rparr>)"
  using assms
proof (induction w arbitrary: s)
  case Nil
  then show ?case by (cases s) (simp add: renderWord_def decodeWord_def)
next
  case (Cons p w)
  let ?s1 = "s\<lparr>nu_value := nu_value s @ decodePiece p, nu_hadWord := True,
      nu_pos := nu_pos s + length (renderPiece p)\<rparr>"
  from Cons.prems(1) have d: "drop (nu_pos s) str = renderPiece p @ renderWord w @ rest"
    by (simp add: renderWord_def)
  have "next_unix_loop str s = next_unix_loop str ?s1"
    using d Cons.prems(2,3) by (intro loop_piece [where P = P and a = a]) simp_all
  also have "\<dots> = next_unix_loop str
      (?s1\<lparr>nu_value := nu_value ?s1 @ decodeWord w, nu_hadWord := (nu_hadWord ?s1 \<or> w \<noteq> []),
          nu_pos := nu_pos ?s1 + length (renderWord w)\<rparr>)"
  proof (rule Cons.IH)
    from drop_append_shift [OF d] show "drop (nu_pos ?s1) str = renderWord w @ rest" by simp
    from Cons.prems(2) show "basicState ?s1" by (simp add: basicState_def)
    from Cons.prems(3) show "list_all (pieceOk P a) w" by simp
  qed
  also have "?s1\<lparr>nu_value := nu_value ?s1 @ decodeWord w, nu_hadWord := (nu_hadWord ?s1 \<or> w \<noteq> []),
          nu_pos := nu_pos ?s1 + length (renderWord w)\<rparr> =
      s\<lparr>nu_value := nu_value s @ decodeWord (p # w), nu_hadWord := (nu_hadWord s \<or> p # w \<noteq> []),
          nu_pos := nu_pos s + length (renderWord (p # w))\<rparr>"
    by (cases s) (simp add: renderWord_def decodeWord_def)
  finally show ?case .
qed

lemma body_blank:
  assumes "basicState s" and "str ! nu_pos s = c" and "c = SPACE \<or> c = TAB"
  shows "next_unix_body str s = (if nu_hadWord s then Inr (Break s) else Inl s)"
proof -
  have "next_unix_body str s = (if nu_hadWord s then Inr (Break s) else Inl s)"
    if "str ! nu_pos s = SPACE \<or> str ! nu_pos s = TAB"
    using that
  proof
    assume "str ! nu_pos s = SPACE"
    with assms(1) show ?thesis
      by (simp add: next_unix_body_def basicState_def Let_def)
  next
    assume "str ! nu_pos s = TAB"
    with assms(1) show ?thesis
      by (simp add: next_unix_body_def basicState_def Let_def)
  qed
  with assms(2,3) show ?thesis by simp
qed

lemma loop_blanks:
  assumes "drop (nu_pos s) str = sep @ rest" and "basicState s" and "\<not> nu_hadWord s"
    and "blanks sep"
  shows "next_unix_loop str s = next_unix_loop str (s\<lparr>nu_pos := nu_pos s + length sep\<rparr>)"
  using assms
proof (induction sep arbitrary: s)
  case Nil
  then show ?case by (cases s) simp
next
  case (Cons c sep)
  from Cons.prems(1) have d: "drop (nu_pos s) str = c # sep @ rest" by simp
  from drop_Cons_nth [OF d] have n: "nu_pos s < length str" and c: "str ! nu_pos s = c"
    and d': "drop (Suc (nu_pos s)) str = sep @ rest"
    by simp_all
  from Cons.prems(4) have cc: "c = SPACE \<or> c = TAB" by (simp add: blanks_def)
  have "next_unix_body str s = Inl s"
    using body_blank [OF Cons.prems(2) c cc] Cons.prems(3) by simp
  from next_unix_loop_Inl [OF n this]
  have "next_unix_loop str s = next_unix_loop str (s\<lparr>nu_pos := nu_pos s + 1\<rparr>)" .
  also have "\<dots> = next_unix_loop str
      (s\<lparr>nu_pos := nu_pos s + 1, nu_pos := nu_pos (s\<lparr>nu_pos := nu_pos s + 1\<rparr>) + length sep\<rparr>)"
    using Cons.prems(2,3,4) d' by (intro Cons.IH) (simp_all add: basicState_def blanks_def)
  finally show ?case by simp
qed

lemma loop_word_end:
  assumes "drop (nu_pos s) str = rest" and "basicState s" and "nu_hadWord s"
    and "rest = [] \<or> (\<exists>c r. rest = c # r \<and> (c = SPACE \<or> c = TAB))"
  shows "next_unix_loop str s = Some (Break s)"
proof (cases rest)
  case Nil
  with assms(1) have "length str \<le> nu_pos s" by simp
  then show ?thesis by (rule next_unix_loop_end)
next
  case (Cons c r)
  with assms(4) have cc: "c = SPACE \<or> c = TAB" by simp
  from assms(1) Cons have d: "drop (nu_pos s) str = c # r" by simp
  from drop_Cons_nth [OF d] have n: "nu_pos s < length str" and c: "str ! nu_pos s = c"
    by simp_all
  have "next_unix_body str s = Inr (Break s)"
    using body_blank [OF assms(2) c cc] assms(3) by simp
  from next_unix_loop_Inr [OF n this] show ?thesis .
qed

definition wordEnd :: "qstring \<Rightarrow> bool" where
  "wordEnd rest = (rest = [] \<or> (\<exists>c r. rest = c # r \<and> (c = SPACE \<or> c = TAB)))"

lemma blanks_wordEnd: "blanks xs \<Longrightarrow> wordEnd xs"
  by (cases xs) (simp_all add: blanks_def wordEnd_def)

lemma blanks_append_wordEnd: "blanks xs \<Longrightarrow> xs \<noteq> [] \<Longrightarrow> wordEnd (xs @ ys)"
  by (cases xs) (simp_all add: blanks_def wordEnd_def)

lemma renderLine_wordEnd:
  assumes "\<forall>(sep, w) \<in> set items. blanks sep \<and> sep \<noteq> []" and "blanks trail"
  shows "wordEnd (renderLine items @ trail)"
proof (cases items)
  case Nil
  with assms(2) show ?thesis by (simp add: renderLine_def blanks_wordEnd)
next
  case (Cons item items')
  obtain sep w where item: "item = (sep, w)" by (cases item)
  with assms(1) Cons have "blanks sep" "sep \<noteq> []" by simp_all
  then have "wordEnd (sep @ renderWord w @ renderLine items' @ trail)"
    by (rule blanks_append_wordEnd)
  with Cons item show ?thesis by (simp add: renderLine_def)
qed

lemma next_word:
  assumes "m_osType it \<noteq> OsTypeWindows"
    and "drop (m_pos it) (m_str it) = sep @ renderWord w @ rest"
    and "blanks sep" and "wordOk P a w" and "wordEnd rest"
  shows "next P it = Some (Done (True,
      it\<lparr>m_pos := m_pos it + length sep + length (renderWord w), m_simple := True,
         m_value := decodeWord w, m_prev := int (m_pos it)\<rparr>))"
proof -
  let ?str = "m_str it"
  let ?s0 = "\<lparr>nu_pos = m_pos it, nu_state = \<lparr>current = MxBasic, dquote = False\<rparr>,
      nu_sstack = [], nu_ostack = [], nu_hadWord = False, nu_simple = True, nu_value = []\<rparr>"
  let ?s1 = "?s0\<lparr>nu_pos := m_pos it + length sep\<rparr>"
  let ?s2 = "?s1\<lparr>nu_value := decodeWord w, nu_hadWord := True,
      nu_pos := m_pos it + length sep + length (renderWord w)\<rparr>"
  from assms(4) have w: "w \<noteq> []" and ok: "list_all (pieceOk P a) w"
    by (simp_all add: wordOk_def)
  have "next_unix_loop ?str ?s0 = next_unix_loop ?str ?s1"
    using loop_blanks [of ?s0 ?str sep "renderWord w @ rest"] assms(2,3)
    by (simp add: basicState_def)
  also have "\<dots> = next_unix_loop ?str ?s2"
    using loop_word [of ?s1 ?str w rest P a] drop_append_shift [OF assms(2)] ok w
    by (simp add: basicState_def)
  also have "\<dots> = Some (Break ?s2)"
  proof (rule loop_word_end)
    have "drop (m_pos it + length sep + length (renderWord w)) ?str = rest"
      using drop_append_shift [OF drop_append_shift [OF assms(2)]] by simp
    then show "drop (nu_pos ?s2) ?str = rest" by simp
    from assms(5) show "rest = [] \<or> (\<exists>c r. rest = c # r \<and> (c = SPACE \<or> c = TAB))"
      by (simp add: wordEnd_def)
  qed (simp_all add: basicState_def)
  finally have "next_unix_loop ?str ?s0 = Some (Break ?s2)" .
  with assms(1) show ?thesis by (simp add: next_def)
qed

lemma next_end:
  assumes "m_osType it \<noteq> OsTypeWindows" and "drop (m_pos it) (m_str it) = trail"
    and "blanks trail"
  shows "next P it = Some (Done (False,
      it\<lparr>m_pos := m_pos it + length trail, m_simple := True, m_value := []\<rparr>))"
proof -
  let ?str = "m_str it"
  let ?s0 = "\<lparr>nu_pos = m_pos it, nu_state = \<lparr>current = MxBasic, dquote = False\<rparr>,
      nu_sstack = [], nu_ostack = [], nu_hadWord = False, nu_simple = True, nu_value = []\<rparr>"
  let ?s1 = "?s0\<lparr>nu_pos := m_pos it + length trail\<rparr>"
  have "next_unix_loop ?str ?s0 = next_unix_loop ?str ?s1"
    using loop_blanks [of ?s0 ?str trail "[]"] assms(2,3)
    by (simp add: basicState_def)
  also have "\<dots> = Some (Break ?s1)"
  proof (rule next_unix_loop_end)
    have "length (drop (m_pos it) ?str) = length trail" by (simp only: assms(2))
    then show "length ?str \<le> nu_pos ?s1" by simp
  qed
  finally have "next_unix_loop ?str ?s0 = Some (Break ?s1)" .
  with assms(1) show ?thesis by (cases it) (simp add: next_def)
qed

lemma allArgs_line:
  assumes "m_osType it \<noteq> OsTypeWindows"
    and "drop (m_pos it) (m_str it) = renderLine items @ trail"
    and "\<forall>(sep, w) \<in> set items. blanks sep \<and> wordOk P a w"
    and "\<forall>(sep, w) \<in> set (tl items). sep \<noteq> []"
    and "blanks trail"
  shows "allArgs P acc it = Some (Done (acc @ map (\<lambda>(sep, w). (True, decodeWord w)) items))"
  using assms
proof (induction items arbitrary: it acc)
  case Nil
  from next_end [OF Nil.prems(1) _ Nil.prems(5), of P] Nil.prems(2)
  show ?case by (subst allArgs.simps) (simp add: renderLine_def)
next
  case (Cons item items)
  obtain sep w where item: "item = (sep, w)" by (cases item)
  let ?rest = "renderLine items @ trail"
  let ?it = "it\<lparr>m_pos := m_pos it + length sep + length (renderWord w), m_simple := True,
      m_value := decodeWord w, m_prev := int (m_pos it)\<rparr>"
  from Cons.prems(3) item have sep: "blanks sep" and w: "wordOk P a w"
    and rest: "\<forall>(sep, w) \<in> set items. blanks sep \<and> wordOk P a w"
    by simp_all
  from Cons.prems(4) have ne: "\<forall>(sep, w) \<in> set items. sep \<noteq> []" by simp
  have d: "drop (m_pos it) (m_str it) = sep @ renderWord w @ ?rest"
    using Cons.prems(2) item by (simp add: renderLine_def)
  have e: "wordEnd ?rest"
    using rest ne Cons.prems(5) by (intro renderLine_wordEnd) auto
  have n: "next P it = Some (Done (True, ?it))"
    using Cons.prems(1) d sep w e by (rule next_word)
  have "allArgs P acc it = allArgs P (acc @ [(True, decodeWord w)]) ?it"
    by (subst allArgs.simps) (simp add: n)
  also have "\<dots> = Some (Done ((acc @ [(True, decodeWord w)]) @
      map (\<lambda>(sep, w). (True, decodeWord w)) items))"
  proof (rule Cons.IH)
    show "m_osType ?it \<noteq> OsTypeWindows" using Cons.prems(1) by simp
    show "drop (m_pos ?it) (m_str ?it) = ?rest"
      using drop_append_shift [OF drop_append_shift [OF d]] by simp
    show "\<forall>(sep, w) \<in> set (tl items). sep \<noteq> []"
      using ne by (cases items) auto
  qed (use rest Cons.prems(5) in simp_all)
  finally show ?case by (simp add: item)
qed

lemma run_word_plainChar:
  "plainChar P a c \<Longrightarrow>
     splitArgsUnix_run P a env pwd (L_word c) s =
       splitArgsUnix_run P a env pwd L_getc (s\<lparr>su_cret := su_cret s @ [c], su_hadWord := True\<rparr>)"
  by (rule splitArgsUnix_run_Inl) (simp add: splitArgsUnix_step_def plainChar_def)

lemma run_in_dquote:
  assumes "su_rest s = concat (map renderDq items) @ DQUOTE # rest"
    and "list_all dqItemOk items"
  shows "splitArgsUnix_run P a env pwd L_dquote s =
     splitArgsUnix_run P a env pwd L_getc
       (s\<lparr>su_cret := su_cret s @ concat (map decodeDq items), su_hadWord := True, su_rest := rest\<rparr>)"
  using assms
proof (induction items arbitrary: s)
  case Nil
  have "splitArgsUnix_run P a env pwd L_dquote s =
      splitArgsUnix_run P a env pwd (L_nextq DQUOTE) (s\<lparr>su_rest := rest\<rparr>)"
    using Nil.prems(1) by (intro splitArgsUnix_run_Inl) (simp add: splitArgsUnix_step_def)
  also have "\<dots> = splitArgsUnix_run P a env pwd L_getc (s\<lparr>su_rest := rest, su_hadWord := True\<rparr>)"
    by (rule splitArgsUnix_run_Inl) (simp add: splitArgsUnix_step_def)
  finally show ?case by (cases s) simp
next
  case (Cons item items)
  let ?r = "concat (map renderDq items) @ DQUOTE # rest"
  let ?s1 = "s\<lparr>su_cret := su_cret s @ decodeDq item, su_rest := ?r\<rparr>"
  have "splitArgsUnix_run P a env pwd L_dquote s = splitArgsUnix_run P a env pwd L_dquote ?s1"
  proof (cases item)
    case (DqChar c)
    with Cons.prems have r: "su_rest s = c # ?r"
      and c: "c \<noteq> DQUOTE" "c \<noteq> BSLASH" "c \<noteq> DOLLAR" "c \<noteq> BACKTICK"
      by simp_all
    have "splitArgsUnix_run P a env pwd L_dquote s =
        splitArgsUnix_run P a env pwd (L_nextq c) (s\<lparr>su_rest := ?r\<rparr>)"
      using r by (intro splitArgsUnix_run_Inl) (simp add: splitArgsUnix_step_def)
    also have "\<dots> = splitArgsUnix_run P a env pwd L_dquote
        (s\<lparr>su_rest := ?r, su_cret := su_cret s @ [c]\<rparr>)"
      using c by (intro splitArgsUnix_run_Inl) (simp add: splitArgsUnix_step_def)
    finally show ?thesis using DqChar by (cases s) simp
  next
    case (DqEscaped c)
    with Cons.prems have r: "su_rest s = BSLASH # c # ?r"
      and c: "c \<noteq> DOLLAR" "c \<noteq> BACKTICK"
      by simp_all
    have "splitArgsUnix_run P a env pwd L_dquote s =
        splitArgsUnix_run P a env pwd (L_nextq BSLASH) (s\<lparr>su_rest := c # ?r\<rparr>)"
      using r by (intro splitArgsUnix_run_Inl) (simp add: splitArgsUnix_step_def)
    also have "\<dots> = splitArgsUnix_run P a env pwd L_dquote
        (s\<lparr>su_rest := c # ?r, su_cret := su_cret s @ decodeDq item, su_rest := ?r\<rparr>)"
      using c DqEscaped
      by (intro splitArgsUnix_run_Inl) (simp add: splitArgsUnix_step_def Let_def)
    finally show ?thesis by (cases s) simp
  qed
  also have "\<dots> = splitArgsUnix_run P a env pwd L_getc
      (?s1\<lparr>su_cret := su_cret ?s1 @ concat (map decodeDq items), su_hadWord := True,
           su_rest := rest\<rparr>)"
    using Cons.prems(2) by (intro Cons.IH) simp_all
  finally show ?case by (cases s) simp
qed

lemma run_piece:
  assumes "pieceOk P a p" and "c # su_rest s = renderPiece p @ rest"
  shows "splitArgsUnix_run P a env pwd (L_word c) s =
     splitArgsUnix_run P a env pwd L_getc
       (s\<lparr>su_cret := su_cret s @ decodePiece p, su_hadWord := True, su_rest := rest\<rparr>)"
proof (cases p)
  case (Plain x)
  with assms have "plainChar P a c" and "su_rest s = rest" by simp_all
  with run_word_plainChar [of P a c env pwd s] Plain assms(2) show ?thesis
    by (cases s) simp
next
  case (Escaped x)
  with assms(2) have c: "c = BSLASH" and r: "su_rest s = x # rest" by simp_all
  from run_word_bslash [OF r, of P a env pwd] c Escaped show ?thesis by simp
next
  case (SingleQuoted q)
  with assms have c: "c = SQUOTE" and r: "su_rest s = q @ SQUOTE # rest"
    and q: "SQUOTE \<notin> set q"
    by simp_all
  from q have all: "\<And>x. x \<in> set q \<Longrightarrow> x \<noteq> SQUOTE" by auto
  have dw: "dropWhile (\<lambda>x. x \<noteq> SQUOTE) (su_rest s) = SQUOTE # rest"
    unfolding r using all by (simp add: dropWhile_append2)
  have tw: "takeWhile (\<lambda>x. x \<noteq> SQUOTE) (su_rest s) = q"
    unfolding r using all by (simp add: takeWhile_append2)
  from run_word_squote [OF dw, of P a env pwd] c SingleQuoted show ?thesis
    by (simp only: tw decodePiece.simps)
next
  case (DoubleQuoted items)
  with assms have c: "c = DQUOTE" and r: "su_rest s = concat (map renderDq items) @ DQUOTE # rest"
    and ok: "list_all dqItemOk items"
    by simp_all
  have "splitArgsUnix_run P a env pwd (L_word DQUOTE) s = splitArgsUnix_run P a env pwd L_dquote s"
    by (rule splitArgsUnix_run_Inl) (simp add: splitArgsUnix_step_def)
  with run_in_dquote [OF r ok, of P a env pwd] c DoubleQuoted show ?thesis by simp
qed

lemma renderPiece_first:
  assumes "pieceOk P a p"
  shows "\<exists>c r. renderPiece p = c # r \<and> \<not> isSpace P c \<and> c \<noteq> TILDE"
  using assms by (cases p) (simp_all add: plainChar_def)

lemma run_pieces:
  assumes "su_rest s = renderWord w @ rest" and "list_all (pieceOk P a) w"
  shows "splitArgsUnix_run P a env pwd L_getc s =
     splitArgsUnix_run P a env pwd L_getc
       (s\<lparr>su_cret := su_cret s @ decodeWord w, su_hadWord := (su_hadWord s \<or> w \<noteq> []),
          su_rest := rest\<rparr>)"
  using assms
proof (induction w arbitrary: s)
  case Nil
  then show ?case by (cases s) (simp add: renderWord_def decodeWord_def)
next
  case (Cons p w)
  from Cons.prems(2) have p: "pieceOk P a p" and w: "list_all (pieceOk P a) w" by simp_all
  from renderPiece_first [OF p] obtain c r where
    cr: "renderPiece p = c # r" and c: "\<not> isSpace P c"
    by blast
  let ?r = "r @ renderWord w @ rest"
  have rest: "su_rest s = c # ?r"
    using Cons.prems(1) cr by (simp add: renderWord_def)
  let ?s0 = "s\<lparr>su_rest := ?r\<rparr>"
  let ?s1 = "?s0\<lparr>su_cret := su_cret ?s0 @ decodePiece p, su_hadWord := True,
      su_rest := renderWord w @ rest\<rparr>"
  have "splitArgsUnix_run P a env pwd L_getc s = splitArgsUnix_run P a env pwd (L_nextc c) ?s0"
    using rest by (rule run_getc_Cons)
  also have "\<dots> = splitArgsUnix_run P a env pwd (L_word c) ?s0"
    using c by (rule run_nextc_word)
  also have "\<dots> = splitArgsUnix_run P a env pwd L_getc ?s1"
    using p by (rule run_piece) (simp add: cr)
  also have "\<dots> = splitArgsUnix_run P a env pwd L_getc
      (?s1\<lparr>su_cret := su_cret ?s1 @ decodeWord w, su_hadWord := (su_hadWord ?s1 \<or> w \<noteq> []),
           su_rest := rest\<rparr>)"
    using w by (intro Cons.IH) simp_all
  finally show ?case by (cases s) (simp add: decodeWord_def)
qed

lemma blanks_isSpace: "blanks sep \<Longrightarrow> x \<in> set sep \<Longrightarrow> isSpace P x"
  by (auto simp: blanks_def list_all_iff)

lemma run_outer_same:
  assumes "dropWhile (isSpace P) (su_rest s) = dropWhile (isSpace P) (su_rest s')"
    and "su_ret s = su_ret s'"
  shows "splitArgsUnix_run P a env pwd L_outer s = splitArgsUnix_run P a env pwd L_outer s'"
proof -
  have "splitArgsUnix_step P a env pwd L_outer s = splitArgsUnix_step P a env pwd L_outer s'"
  proof (cases "dropWhile (isSpace P) (su_rest s')")
    case Nil
    with assms show ?thesis
      by (simp add: splitArgsUnix_step_def del: dropWhile_eq_Nil_conv)
  next
    case (Cons c r)
    have "s\<lparr>su_cret := [], su_hadWord := False, su_rest := r\<rparr> =
        s'\<lparr>su_cret := [], su_hadWord := False, su_rest := r\<rparr>"
      using assms(2) by (cases s, cases s') simp
    with assms(1) Cons show ?thesis
      by (simp add: splitArgsUnix_step_def Let_def)
  qed
  then show ?thesis
    by (simp add: splitArgsUnix_run.simps [of P a env pwd L_outer s]
        splitArgsUnix_run.simps [of P a env pwd L_outer s'])
qed

lemma run_word_from_outer:
  assumes "su_rest s = sep @ renderWord w @ rest" and "blanks sep" and "wordOk P a w"
  shows "splitArgsUnix_run P a env pwd L_outer s =
     splitArgsUnix_run P a env pwd L_getc
       (s\<lparr>su_cret := decodeWord w, su_hadWord := True, su_rest := rest\<rparr>)"
proof -
  from assms(3) obtain p w' where w: "w = p # w'" and p: "pieceOk P a p"
    and w': "list_all (pieceOk P a) w'"
    by (cases w) (simp_all add: wordOk_def)
  from renderPiece_first [OF p] obtain c r where
    cr: "renderPiece p = c # r" and c: "\<not> isSpace P c" and t: "c \<noteq> TILDE"
    by blast
  let ?r = "r @ renderWord w' @ rest"
  have rw: "renderWord w @ rest = c # ?r"
    by (simp add: w renderWord_def cr)
  have dw: "dropWhile (isSpace P) (su_rest s) = c # ?r"
    unfolding assms(1) rw using blanks_isSpace [OF assms(2)] c by (simp add: dropWhile_append2)
  let ?s0 = "s\<lparr>su_cret := [], su_hadWord := False, su_rest := ?r\<rparr>"
  let ?s1 = "?s0\<lparr>su_cret := su_cret ?s0 @ decodePiece p, su_hadWord := True,
      su_rest := renderWord w' @ rest\<rparr>"
  have "splitArgsUnix_run P a env pwd L_outer s = splitArgsUnix_run P a env pwd (L_word c) ?s0"
    using dw t by (rule run_outer_Cons)
  also have "\<dots> = splitArgsUnix_run P a env pwd L_getc ?s1"
    using p by (rule run_piece) (simp add: cr)
  also have "\<dots> = splitArgsUnix_run P a env pwd L_getc
      (?s1\<lparr>su_cret := su_cret ?s1 @ decodeWord w', su_hadWord := (su_hadWord ?s1 \<or> w' \<noteq> []),
           su_rest := rest\<rparr>)"
    using w' by (intro run_pieces) simp_all
  finally show ?thesis by (cases s) (simp add: w decodeWord_def)
qed

lemma run_line:
  assumes "su_rest s = renderLine items @ trail"
    and "\<forall>(sep, w) \<in> set items. blanks sep \<and> wordOk P a w"
    and "\<forall>(sep, w) \<in> set (tl items). sep \<noteq> []"
    and "blanks trail"
  shows "splitArgsUnix_run P a env pwd L_outer s =
     (SplitOk, su_ret s @ map (\<lambda>(sep, w). decodeWord w) items)"
  using assms
proof (induction items arbitrary: s)
  case Nil
  have "dropWhile (isSpace P) (su_rest s) = []"
    unfolding dropWhile_eq_Nil_conv using Nil.prems(1) blanks_isSpace [OF Nil.prems(4)]
    by (simp add: renderLine_def)
  from run_outer_Nil [OF this] show ?case by simp
next
  case (Cons item items)
  obtain sep w where item: "item = (sep, w)" by (cases item)
  let ?rest = "renderLine items @ trail"
  from Cons.prems(2) item have sep: "blanks sep" and w: "wordOk P a w"
    and rest: "\<forall>(sep, w) \<in> set items. blanks sep \<and> wordOk P a w"
    by simp_all
  from Cons.prems(3) have ne: "\<forall>(sep, w) \<in> set items. sep \<noteq> []" by simp
  have d: "su_rest s = sep @ renderWord w @ ?rest"
    using Cons.prems(1) item by (simp add: renderLine_def)
  have e: "wordEnd ?rest"
    using rest ne Cons.prems(4) by (intro renderLine_wordEnd) auto
  let ?s1 = "s\<lparr>su_cret := decodeWord w, su_hadWord := True, su_rest := ?rest\<rparr>"
  have one: "splitArgsUnix_run P a env pwd L_outer s = splitArgsUnix_run P a env pwd L_getc ?s1"
    using d sep w by (rule run_word_from_outer)
  have ne': "\<forall>(sep, w) \<in> set (tl items). sep \<noteq> []"
    using ne by (cases items) auto
  show ?case
  proof (cases ?rest)
    case Nil
    then have items: "items = []"
      using ne by (cases items) (auto simp: renderLine_def)
    have "splitArgsUnix_run P a env pwd L_getc ?s1 = (SplitOk, wordsAtEnd ?s1)"
      by (rule run_getc_Nil) (simp add: Nil)
    with one show ?thesis by (simp add: wordsAtEnd_def item items)
  next
    case (Cons c r)
    with e have c: "isSpace P c" by (auto simp: wordEnd_def)
    let ?s2 = "?s1\<lparr>su_rest := r\<rparr>"
    let ?s3 = "?s2\<lparr>su_ret := wordsAtEnd ?s2\<rparr>"
    have "splitArgsUnix_run P a env pwd L_getc ?s1 = splitArgsUnix_run P a env pwd (L_nextc c) ?s2"
      by (rule run_getc_Cons) (simp add: Cons)
    also have "\<dots> = splitArgsUnix_run P a env pwd L_outer ?s3"
      using c by (rule run_nextc_space)
    also have "\<dots> = splitArgsUnix_run P a env pwd L_outer (?s3\<lparr>su_rest := ?rest\<rparr>)"
      using c by (intro run_outer_same) (simp_all add: Cons)
    also have "\<dots> = (SplitOk, su_ret (?s3\<lparr>su_rest := ?rest\<rparr>) @
        map (\<lambda>(sep, w). decodeWord w) items)"
      using rest ne' Cons.prems(4) by (intro Cons.IH) simp_all
    finally show ?thesis using one by (simp add: wordsAtEnd_def item)
  qed
qed

text \<open>
  Claim C5, corrected. On Unix, for a command line whose words are made of plain
  characters, characters behind a backslash, strings in single quotes and strings in
  double quotes without dollar sign and backtick, with blanks or tabs between the words,
  calling \<^verbatim>\<open>next\<close> until it returns false gives exactly the words, each of them reported as
  simple, that \<^verbatim>\<open>splitArgs\<close> returns for the line with \<open>SplitOk\<close>.
\<close>

theorem ArgIterator_agrees_with_splitArgs:
  assumes "\<forall>(sep, w) \<in> set items. blanks sep \<and> wordOk P abortOnMeta w"
    and "\<forall>(sep, w) \<in> set (tl items). sep \<noteq> []"
    and "blanks trail"
    and "osType \<noteq> OsTypeWindows"
  shows "allArgs P [] (ArgIterator_init (renderLine items @ trail) osType) =
      Some (Done (map (\<lambda>(sep, w). (True, decodeWord w)) items)) \<and>
    splitArgs P (renderLine items @ trail) osType abortOnMeta (Some e) env pwd =
      (map (\<lambda>(sep, w). decodeWord w) items, Some SplitOk)"
proof -
  let ?line = "renderLine items @ trail"
  have "allArgs P [] (ArgIterator_init ?line osType) =
      Some (Done ([] @ map (\<lambda>(sep, w). (True, decodeWord w)) items))"
    using assms by (intro allArgs_line [where a = abortOnMeta]) (simp_all add: ArgIterator_init_def)
  moreover have "splitArgsUnix P ?line abortOnMeta env pwd =
      (SplitOk, [] @ map (\<lambda>(sep, w). decodeWord w) items)"
    unfolding splitArgsUnix_def
    using run_line [of "\<lparr>su_ret = [], su_cret = [], su_hadWord = False, su_rest = ?line\<rparr>"
        items trail P abortOnMeta env pwd] assms(1,2,3)
    by simp
  ultimately show ?thesis using assms(4) by (simp add: splitArgs_def)
qed

theorem ArgIterator_agrees_with_splitArgs_witness:
  "allArgs asciiHost []
      (ArgIterator_init (fromLatin1 ''ls'' @ SQUOTE # fromLatin1 ''a b'' @ SQUOTE #
         fromLatin1 ''  '' @ DQUOTE # fromLatin1 ''c d'' @ BSLASH # DQUOTE # DQUOTE # BSLASH #
         fromLatin1 '' e '') OsTypeLinux) =
     Some (Done [(True, fromLatin1 ''lsa b''), (True, fromLatin1 ''c d'' @ DQUOTE # fromLatin1 '' e'')]) \<and>
   splitArgs asciiHost
      (fromLatin1 ''ls'' @ SQUOTE # fromLatin1 ''a b'' @ SQUOTE #
         fromLatin1 ''  '' @ DQUOTE # fromLatin1 ''c d'' @ BSLASH # DQUOTE # DQUOTE # BSLASH #
         fromLatin1 '' e '') OsTypeLinux True (Some BadQuoting) None None =
     ([fromLatin1 ''lsa b'', fromLatin1 ''c d'' @ DQUOTE # fromLatin1 '' e''], Some SplitOk)"
  using ArgIterator_agrees_with_splitArgs
    [of "[([], [Plain 0x6C, Plain 0x73, SingleQuoted (fromLatin1 ''a b'')]),
          ([SPACE, SPACE],
           [DoubleQuoted [DqChar 0x63, DqChar SPACE, DqChar 0x64, DqEscaped DQUOTE],
            Escaped SPACE, Plain 0x65])]"
       asciiHost True "[SPACE]" OsTypeLinux BadQuoting None None]
  by (simp add: renderLine_def renderWord_def decodeWord_def blanks_def wordOk_def plainChar_def
      isSpace_def isMetaUnix_def bitTest_def fromLatin1_def)

theorem ArgIterator_stops_at_operator_counterexample:
  "allArgs asciiHost [] (ArgIterator_init (fromLatin1 ''a;b'') OsTypeLinux) =
     Some (Done [(True, fromLatin1 ''a'')]) \<and>
   splitArgs asciiHost (fromLatin1 ''a;b'') OsTypeLinux False (Some SplitOk) None None =
     ([fromLatin1 ''a;b''], Some SplitOk) \<and>
   allArgs asciiHost [] (ArgIterator_init (DQUOTE # BSLASH # DOLLAR # [DQUOTE]) OsTypeLinux) =
     Some (Done [(True, [DOLLAR])]) \<and>
   splitArgs asciiHost (DQUOTE # BSLASH # DOLLAR # [DQUOTE]) OsTypeLinux False (Some SplitOk) None None =
     ([[BSLASH, DOLLAR]], Some SplitOk)"
  by code_simp

section \<open>Properties of newline normalisation\<close>

lemma qreplace_crlf_Nil: "qreplace [CR, LF] [LF] [] = []"
  by (simp add: qreplace.simps)

lemma qreplace_crlf_single: "qreplace [CR, LF] [LF] [x] = [x]"
  by (simp add: qreplace.simps [of _ _ "[x]"] qreplace_crlf_Nil)

lemma qreplace_crlf_Cons2:
  "qreplace [CR, LF] [LF] (x # y # zs) =
     (if x = CR \<and> y = LF then LF # qreplace [CR, LF] [LF] zs
      else x # qreplace [CR, LF] [LF] (y # zs))"
  by (simp add: qreplace.simps [of _ _ "x # y # zs"])

lemma qreplace_crlf: "qreplace [CR, LF] [LF] s = crlf_to_lf s"
  by (induction s rule: crlf_to_lf.induct)
     (simp_all add: qreplace_crlf_Cons2 qreplace_crlf_single qreplace_crlf_Nil)

text \<open>What the in-place loop leaves in front of the new end: the elements kept so far,
  then the element at index \<open>result\<close>, then what the list version of the loop keeps of the
  unread rest.\<close>

fun unique_from :: "('a \<Rightarrow> 'a \<Rightarrow> bool) \<Rightarrow> 'a \<Rightarrow> 'a list \<Rightarrow> 'a list" where
  "unique_from p r [] = [r]"
| "unique_from p r (y # ys) = (if \<not> p r y then r # unique_from p y ys else unique_from p r ys)"

lemma std_unique_loop_take:
  "r \<le> f \<Longrightarrow> f < length a \<Longrightarrow>
   (case std_unique_loop p a r f of (b, newEnd) \<Rightarrow>
      length b = length a \<and> newEnd \<le> length a \<and>
      take newEnd b = take r a @ unique_from p (a ! r) (drop (Suc f) a))"
proof (induction p a r f rule: std_unique_loop.induct)
  case (1 p a r f)
  show ?case
  proof (cases "Suc f < length a")
    case False
    with "1.prems" have "drop (Suc f) a = []" by simp
    with False "1.prems" show ?thesis
      by (simp add: std_unique_loop.simps [of p a r f] take_Suc_conv_app_nth)
  next
    case more: True
    then obtain y ys where d: "drop (Suc f) a = y # ys" and y: "y = a ! Suc f"
      and ys: "ys = drop (Suc (Suc f)) a"
      by (metis Cons_nth_drop_Suc)
    show ?thesis
    proof (cases "p (a ! r) (a ! Suc f)")
      case True
      with more have "std_unique_loop p a r f = std_unique_loop p a r (Suc f)"
        by (simp add: std_unique_loop.simps [of p a r f])
      moreover from "1.IH"(2) [OF more] True "1.prems" more
      have "case std_unique_loop p a r (Suc f) of (b, newEnd) \<Rightarrow>
              length b = length a \<and> newEnd \<le> length a \<and>
              take newEnd b = take r a @ unique_from p (a ! r) ys"
        by (simp add: ys)
      ultimately show ?thesis using True by (simp add: d y)
    next
      case False
      define a' where "a' = (if Suc r \<noteq> Suc f then a[Suc r := a ! Suc f] else a)"
      have len: "length a' = length a" by (simp add: a'_def)
      have at: "a' ! Suc r = a ! Suc f"
        using "1.prems" more by (auto simp: a'_def)
      have tk: "take (Suc r) a' = take r a @ [a ! r]"
        using "1.prems" more by (auto simp: a'_def take_Suc_conv_app_nth)
      have dr: "drop (Suc (Suc f)) a' = ys"
        using "1.prems" by (auto simp: a'_def ys)
      from False more have "std_unique_loop p a r f = std_unique_loop p a' (Suc r) (Suc f)"
        by (simp add: std_unique_loop.simps [of p a r f] a'_def)
      moreover have "case std_unique_loop p a' (Suc r) (Suc f) of (b, newEnd) \<Rightarrow>
              length b = length a' \<and> newEnd \<le> length a' \<and>
              take newEnd b = take (Suc r) a' @ unique_from p (a' ! Suc r) (drop (Suc (Suc f)) a')"
        using "1.IH"(1) [OF more False] "1.prems" more len
        by (simp add: a'_def)
      ultimately show ?thesis using False
        by (simp add: d y len at tk dr split: prod.splits)
    qed
  qed
qed

lemma unique_from_collapse:
  "unique_from (\<lambda>c1 c2. c1 = CR \<and> c2 = CR) r xs = collapse_cr_runs (r # xs)"
  by (induction xs arbitrary: r) auto

lemma std_unique_collapse:
  "(case std_unique (\<lambda>c1 c2. c1 = CR \<and> c2 = CR) text of (res, newEnd) \<Rightarrow>
      chop (length res - newEnd) res) = collapse_cr_runs text"
proof (cases "text")
  case Nil
  then show ?thesis by (simp add: std_unique_def chop_def)
next
  case (Cons x xs)
  have "case std_unique_loop (\<lambda>c1 c2. c1 = CR \<and> c2 = CR) text 0 0 of (b, newEnd) \<Rightarrow>
      length b = length text \<and> newEnd \<le> length text \<and>
      take newEnd b = take 0 text @ unique_from (\<lambda>c1 c2. c1 = CR \<and> c2 = CR) (text ! 0) (drop (Suc 0) text)"
    by (rule std_unique_loop_take) (simp_all add: Cons)
  then show ?thesis
    by (auto simp: std_unique_def chop_def Cons unique_from_collapse split: prod.splits)
qed

lemma normalizeNewlines_eq: "normalizeNewlines text = crlf_to_lf (collapse_cr_runs text)"
proof -
  obtain res newEnd where r: "std_unique (\<lambda>c1 c2. c1 = CR \<and> c2 = CR) text = (res, newEnd)"
    by (cases "std_unique (\<lambda>c1 c2. c1 = CR \<and> c2 = CR) text")
  with std_unique_collapse [of "text"] have "chop (length res - newEnd) res = collapse_cr_runs text"
    by simp
  with r show ?thesis by (simp add: normalizeNewlines_def qreplace_crlf)
qed

text \<open>
  Claim C6. For every text, \<^verbatim>\<open>QtcProcess::normalizeNewlines\<close> first collapses every run of
  consecutive carriage returns to a single carriage return and then turns every pair of
  carriage return and line feed into a line feed; the text \<^verbatim>\<open>a\r\r\nb\<close> becomes \<^verbatim>\<open>a\nb\<close>
  and not \<^verbatim>\<open>a\rb\<close>.
\<close>

theorem normalizeNewlines_two_passes:
  "normalizeNewlines text = crlf_to_lf (collapse_cr_runs text) \<and>
   normalizeNewlines [0x61, CR, CR, LF, 0x62] = [0x61, LF, 0x62] \<and>
   normalizeNewlines [0x61, CR, CR, LF, 0x62] \<noteq> [0x61, CR, 0x62]"
  by (simp add: normalizeNewlines_eq)

theorem normalizeNewlines_two_passes_witness:
  "normalizeNewlines [CR, CR, CR, LF, CR, 0x62, LF] = [LF, CR, 0x62, LF]"
  using normalizeNewlines_two_passes [of "[CR, CR, CR, LF, CR, 0x62, LF]"] by simp

section \<open>Properties of the timeout and exit handling\<close>

text \<open>
  Claim C10. For every \<open>timeoutS > 0\<close>, \<^verbatim>\<open>setTimeoutS\<close> sets the hang limit to
  \<open>max 2 timeoutS\<close> seconds (a request for one second becomes two), and for every
  \<open>timeoutS \<le> 0\<close> it sets the limit to \<^verbatim>\<open>INT_MAX / 1000\<close>.
\<close>

theorem setTimeoutS_clamps:
  "sint (m_maxHangTimerCount (setTimeoutS d timeoutS)) =
     (if 0 < sint timeoutS then max 2 (sint timeoutS) else 2147483647 div 1000)"
  by (simp add: setTimeoutS_def qMax_def INT_MAX_def word_sless_alt max_def)

theorem setTimeoutS_clamps_witness:
  "sint (m_maxHangTimerCount (setTimeoutS clearedForRun 1)) = 2 \<and>
   sint (m_maxHangTimerCount (setTimeoutS clearedForRun 30)) = 30 \<and>
   sint (m_maxHangTimerCount (setTimeoutS clearedForRun (- 5))) = 2147483"
  using setTimeoutS_clamps [of clearedForRun 1] setTimeoutS_clamps [of clearedForRun 30]
    setTimeoutS_clamps [of clearedForRun "- 5"]
  by simp

text \<open>
  Claim C8. In the finish handler a crash exit leaves a latched \<open>Hang\<close> in place and only
  sets the exit code to \<open>-1\<close>; without a latched \<open>Hang\<close> a crash exit gives
  \<open>TerminatedAbnormally\<close>; a normal exit always gives the verdict of the exit-code
  interpreter on the exit code.
\<close>

theorem slotFinished_hang_priority:
  "(result (m_result d) = Hang \<longrightarrow>
      result (m_result (slotFinished d code CrashExit)) = Hang \<and>
      exitCode (m_result (slotFinished d code CrashExit)) = - 1) \<and>
   (result (m_result d) \<noteq> Hang \<longrightarrow>
      result (m_result (slotFinished d code CrashExit)) = TerminatedAbnormally \<and>
      exitCode (m_result (slotFinished d code CrashExit)) = - 1) \<and>
   result (m_result (slotFinished d code NormalExit)) = m_exitCodeInterpreter d code \<and>
   exitCode (m_result (slotFinished d code NormalExit)) = code"
  by (simp add: slotFinished_def Let_def)

theorem slotFinished_hang_priority_witness:
  "result (m_result (slotFinished
      (clearedForRun\<lparr>m_result := (m_result clearedForRun)\<lparr>result := Hang\<rparr>\<rparr>) 9 CrashExit)) = Hang \<and>
   exitCode (m_result (slotFinished
      (clearedForRun\<lparr>m_result := (m_result clearedForRun)\<lparr>result := Hang\<rparr>\<rparr>) 9 CrashExit)) = - 1 \<and>
   result (m_result (slotFinished clearedForRun 9 CrashExit)) = TerminatedAbnormally \<and>
   result (m_result (slotFinished
      (clearedForRun\<lparr>m_result := (m_result clearedForRun)\<lparr>result := Hang\<rparr>\<rparr>) 3 NormalExit)) = FinishedError"
  using
    slotFinished_hang_priority [of
      "clearedForRun\<lparr>m_result := (m_result clearedForRun)\<lparr>result := Hang\<rparr>\<rparr>" 9]
    slotFinished_hang_priority [of clearedForRun 9]
    slotFinished_hang_priority [of
      "clearedForRun\<lparr>m_result := (m_result clearedForRun)\<lparr>result := Hang\<rparr>\<rparr>" 3]
  by (simp add: clearedForRun_def clear_def defaultExitCodeInterpreter_def)

section \<open>Properties of the channel buffer\<close>

lemma collapse_cr_runs_Nil_iff [simp]: "collapse_cr_runs u = [] \<longleftrightarrow> u = []"
  by (induction u rule: collapse_cr_runs.induct) auto

lemma crlf_to_lf_Nil_iff [simp]: "crlf_to_lf u = [] \<longleftrightarrow> u = []"
  by (induction u rule: crlf_to_lf.induct) auto

lemma hd_collapse_cr_runs [simp]: "hd (collapse_cr_runs u) = hd u"
  by (induction u rule: collapse_cr_runs.induct) auto

lemma last_collapse_cr_runs [simp]: "last (collapse_cr_runs u) = last u"
  by (induction u rule: collapse_cr_runs.induct) auto

lemma collapse_cr_runs_append:
  "u = [] \<or> v = [] \<or> last u \<noteq> CR \<or> hd v \<noteq> CR \<Longrightarrow>
     collapse_cr_runs (u @ v) = collapse_cr_runs u @ collapse_cr_runs v"
proof (induction u rule: collapse_cr_runs.induct)
  case (1 x y zs)
  then show ?case by auto
qed (cases v; auto)+

lemma crlf_to_lf_append:
  "u = [] \<or> v = [] \<or> last u \<noteq> CR \<or> hd v \<noteq> LF \<Longrightarrow>
     crlf_to_lf (u @ v) = crlf_to_lf u @ crlf_to_lf v"
proof (induction u rule: crlf_to_lf.induct)
  case (1 x y zs)
  then show ?case by (cases zs) auto
qed (cases v; auto)+

lemma normalizeNewlines_append:
  assumes "u = [] \<or> v = [] \<or> last u \<noteq> CR \<or> (hd v \<noteq> CR \<and> hd v \<noteq> LF)"
  shows "normalizeNewlines (u @ v) = normalizeNewlines u @ normalizeNewlines v"
proof -
  have "collapse_cr_runs (u @ v) = collapse_cr_runs u @ collapse_cr_runs v"
    using assms by (intro collapse_cr_runs_append) auto
  moreover have "crlf_to_lf (collapse_cr_runs u @ collapse_cr_runs v)
      = crlf_to_lf (collapse_cr_runs u) @ crlf_to_lf (collapse_cr_runs v)"
    using assms by (intro crlf_to_lf_append) auto
  ultimately show ?thesis by (simp add: normalizeNewlines_eq)
qed

lemma normalizeNewlines_no_cr: "CR \<notin> set s \<Longrightarrow> normalizeNewlines s = s"
proof -
  assume a: "CR \<notin> set s"
  then have "collapse_cr_runs s = s" by (induction s rule: collapse_cr_runs.induct) auto
  moreover from a have "crlf_to_lf s = s" by (induction s rule: crlf_to_lf.induct) auto
  ultimately show ?thesis by (simp add: normalizeNewlines_eq)
qed

lemma normalizeNewlines_Nil_iff [simp]: "normalizeNewlines s = [] \<longleftrightarrow> s = []"
  by (simp add: normalizeNewlines_eq)

lemma normalizeNewlines_Nil [simp]: "normalizeNewlines [] = []"
  by simp

lemma min_length_takeWhile:
  "min (length (takeWhile (\<lambda>x. x \<noteq> a) r)) (length (takeWhile (\<lambda>x. x \<noteq> b) r)) =
     length (takeWhile (\<lambda>x. x \<noteq> a \<and> x \<noteq> b) r)"
  by (induction r) auto

lemma lastIndexOf_eq:
  "lastIndexOf s c = int (length s) - 1 - int (length (takeWhile (\<lambda>x. x \<noteq> c) (rev s)))"
proof (cases "c \<in> set s")
  case True
  then show ?thesis by (simp add: lastIndexOf_def)
next
  case False
  then have "\<forall>x\<in>set (rev s). x \<noteq> c" by auto
  then have "takeWhile (\<lambda>x. x \<noteq> c) (rev s) = rev s" by (simp only: takeWhile_eq_all_conv)
  then have "length (takeWhile (\<lambda>x. x \<noteq> c) (rev s)) = length (rev s)" by (rule arg_cong)
  then have "length (takeWhile (\<lambda>x. x \<noteq> c) (rev s)) = length s" by simp
  with False show ?thesis unfolding lastIndexOf_def by simp
qed

text \<open>The line terminators cut the buffer into the completed lines and the incomplete
  rest.\<close>

definition completedPart :: "qstring \<Rightarrow> qstring" where
  "completedPart buf = rev (dropWhile (\<lambda>x. x \<noteq> LF \<and> x \<noteq> CR) (rev buf))"

definition incompletePart :: "qstring \<Rightarrow> qstring" where
  "incompletePart buf = rev (takeWhile (\<lambda>x. x \<noteq> LF \<and> x \<noteq> CR) (rev buf))"

lemma parts_append: "completedPart buf @ incompletePart buf = buf"
proof -
  have "rev buf = takeWhile (\<lambda>x. x \<noteq> LF \<and> x \<noteq> CR) (rev buf) @ dropWhile (\<lambda>x. x \<noteq> LF \<and> x \<noteq> CR) (rev buf)"
    by simp
  then have "rev (rev buf) = completedPart buf @ incompletePart buf"
    unfolding completedPart_def incompletePart_def by (metis rev_append)
  then show ?thesis by simp
qed

lemma incompletePart_no_terminator: "CR \<notin> set (incompletePart buf) \<and> LF \<notin> set (incompletePart buf)"
  by (auto simp: incompletePart_def dest: set_takeWhileD)

lemma completedPart_last:
  "completedPart buf \<noteq> [] \<Longrightarrow> last (completedPart buf) = LF \<or> last (completedPart buf) = CR"
  using hd_dropWhile [of "\<lambda>x. x \<noteq> LF \<and> x \<noteq> CR" "rev buf"]
  by (auto simp: completedPart_def last_rev)

lemma lastLineIndex_eq:
  "max (lastIndexOf buf LF) (lastIndexOf buf CR) =
     int (length buf) - 1 - int (length (incompletePart buf))"
proof -
  have "max (lastIndexOf buf LF) (lastIndexOf buf CR) =
      int (length buf) - 1 - int (min (length (takeWhile (\<lambda>x. x \<noteq> LF) (rev buf)))
                                       (length (takeWhile (\<lambda>x. x \<noteq> CR) (rev buf))))"
    by (simp add: lastIndexOf_eq)
  then show ?thesis by (simp add: min_length_takeWhile incompletePart_def)
qed

lemma length_incompletePart: "length (incompletePart buf) \<le> length buf"
  using arg_cong [OF parts_append [of buf], of length] by simp

lemma linesRead_parts:
  fixes b :: "'cs ChannelBuffer"
  defines "dec \<equiv> toUnicode (codec b) (drop (rawDataPos b) (rawData b)) (codecState b)"
  defines "buf \<equiv> incompleteLineBuffer b @ fst dec"
  shows "linesRead b =
     (normalizeNewlines (completedPart buf),
      b\<lparr>incompleteLineBuffer := incompletePart buf, codecState := snd dec,
        rawDataPos := length (rawData b)\<rparr>)"
proof -
  let ?i = "max (lastIndexOf buf LF) (lastIndexOf buf CR)"
  have i: "?i = int (length buf) - 1 - int (length (incompletePart buf))"
    by (rule lastLineIndex_eq)
  have n: "nat (?i + 1) = length buf - length (incompletePart buf)"
    using i length_incompletePart [of buf] by simp
  have lc: "length (completedPart buf) = length buf - length (incompletePart buf)"
    using arg_cong [OF parts_append [of buf], of length] by simp
  have tk: "take (nat (?i + 1)) buf = completedPart buf"
    using parts_append [of buf] n lc by (metis append_eq_conv_conj)
  have dr: "drop (nat (?i + 1)) buf = incompletePart buf"
    using parts_append [of buf] n lc by (metis append_eq_conv_conj)
  show ?thesis
  proof (cases "?i = - 1")
    case True
    with i have "length (incompletePart buf) = length buf" by simp
    with lc have "completedPart buf = []" by simp
    moreover from this have "incompletePart buf = buf" using parts_append [of buf] by simp
    ultimately show ?thesis
      using True by (simp add: linesRead_def Let_def split_beta dec_def buf_def)
  next
    case False
    then show ?thesis
      using tk dr by (simp add: linesRead_def Let_def split_beta dec_def buf_def)
  qed
qed

lemma append_bytes_emit:
  fixes b :: "'cs ChannelBuffer"
  assumes "hasOutputCallback b" and "rawDataPos b = length (rawData b)" and "bytes \<noteq> []"
  defines "dec \<equiv> toUnicode (codec b) bytes (codecState b)"
  defines "buf \<equiv> incompleteLineBuffer b @ fst dec"
  shows "append_bytes b bytes True =
     (b\<lparr>rawData := rawData b @ bytes, incompleteLineBuffer := incompletePart buf,
        codecState := snd dec, rawDataPos := length (rawData b @ bytes)\<rparr>,
      if completedPart buf \<noteq> [] then Some (normalizeNewlines (completedPart buf)) else None)"
  using assms(1-3)
  by (simp add: append_bytes_def Let_def linesRead_parts dec_def buf_def)

lemma decodedChunks_concat:
  "streaming c \<Longrightarrow> concat (decodedChunks c st chunks) = fst (toUnicode c (concat chunks) st)"
proof (induction chunks arbitrary: st)
  case Nil
  then show ?case by (simp add: streaming_def)
next
  case (Cons bytes chunks)
  from Cons.prems have "toUnicode c (bytes @ concat chunks) st =
      (fst (toUnicode c bytes st) @ fst (toUnicode c (concat chunks) (snd (toUnicode c bytes st))),
       snd (toUnicode c (concat chunks) (snd (toUnicode c bytes st))))"
    unfolding streaming_def by blast
  with Cons.IH [OF Cons.prems, of "snd (toUnicode c bytes st)"] show ?case
    by (simp add: split_beta)
qed

lemma appendAll_invariant:
  fixes b :: "'cs ChannelBuffer"
  assumes "hasOutputCallback b" and "rawDataPos b = length (rawData b)"
    and "\<forall>bytes\<in>set chunks. bytes \<noteq> []"
    and "\<forall>t\<in>set (decodedChunks (codec b) (codecState b) chunks). t = [] \<or> last t \<noteq> CR"
    and "CR \<notin> set (incompleteLineBuffer b)" and "LF \<notin> set (incompleteLineBuffer b)"
    and "D = [] \<or> last D \<noteq> CR \<or> incompleteLineBuffer b \<noteq> []"
  shows "normalizeNewlines D @ concat (snd (appendAll b chunks)) @
           incompleteLineBuffer (fst (appendAll b chunks)) =
         normalizeNewlines (D @ incompleteLineBuffer b @
           concat (decodedChunks (codec b) (codecState b) chunks)) \<and>
       rawData (fst (appendAll b chunks)) = rawData b @ concat chunks \<and>
       CR \<notin> set (incompleteLineBuffer (fst (appendAll b chunks))) \<and>
       LF \<notin> set (incompleteLineBuffer (fst (appendAll b chunks)))"
  using assms
proof (induction chunks arbitrary: b D)
  case Nil
  let ?buf = "incompleteLineBuffer b"
  have "?buf = [] \<or> (hd ?buf \<noteq> CR \<and> hd ?buf \<noteq> LF)"
    using Nil.prems(5,6) by (cases ?buf) auto
  with Nil.prems(7) have "normalizeNewlines (D @ ?buf) = normalizeNewlines D @ normalizeNewlines ?buf"
    by (intro normalizeNewlines_append) auto
  with Nil.prems(5,6) show ?case by (simp add: normalizeNewlines_no_cr)
next
  case (Cons bytes chunks)
  define dec where "dec = toUnicode (codec b) bytes (codecState b)"
  define buf where "buf = incompleteLineBuffer b @ fst dec"
  define L where "L = completedPart buf"
  define R where "R = incompletePart buf"
  define b' where "b' = b\<lparr>rawData := rawData b @ bytes, incompleteLineBuffer := R,
        codecState := snd dec, rawDataPos := length (rawData b @ bytes)\<rparr>"
  have ne: "bytes \<noteq> []" using Cons.prems(3) by simp
  have ap: "append_bytes b bytes True = (b', if L \<noteq> [] then Some (normalizeNewlines L) else None)"
    using append_bytes_emit [OF Cons.prems(1,2) ne]
    by (simp add: dec_def buf_def L_def R_def b'_def)
  have LR: "L @ R = buf" unfolding L_def R_def by (rule parts_append)
  have Rt: "CR \<notin> set R" "LF \<notin> set R"
    unfolding R_def using incompletePart_no_terminator by auto
  have t: "fst dec = [] \<or> last (fst dec) \<noteq> CR"
    using Cons.prems(4) by (simp add: dec_def split_beta)
  have rest: "\<forall>t\<in>set (decodedChunks (codec b') (codecState b') chunks). t = [] \<or> last t \<noteq> CR"
    using Cons.prems(4) by (simp add: dec_def split_beta b'_def)
  have hdL: "L = [] \<or> incompleteLineBuffer b = [] \<or> (hd L \<noteq> CR \<and> hd L \<noteq> LF)"
  proof (cases "L = [] \<or> incompleteLineBuffer b = []")
    case True
    then show ?thesis by blast
  next
    case False
    then have "hd L = hd buf" using LR by (cases L) auto
    also have "\<dots> = hd (incompleteLineBuffer b)" using False by (simp add: buf_def)
    finally have "hd L \<in> set (incompleteLineBuffer b)" using False by simp
    with Cons.prems(5,6) show ?thesis by auto
  qed
  have DL: "normalizeNewlines (D @ L) = normalizeNewlines D @ normalizeNewlines L"
    using Cons.prems(7) hdL by (intro normalizeNewlines_append) auto
  have inv: "D @ L = [] \<or> last (D @ L) \<noteq> CR \<or> incompleteLineBuffer b' \<noteq> []"
  proof (cases "L = []")
    case True
    with LR have "R = buf" by simp
    with True Cons.prems(7) show ?thesis by (auto simp: b'_def buf_def)
  next
    case False
    show ?thesis
    proof (cases "R = []")
      case False
      then show ?thesis by (simp add: b'_def)
    next
      case True
      with LR have bl: "buf = L" by simp
      have "last buf \<noteq> CR"
      proof (cases "fst dec = []")
        case True
        with \<open>L \<noteq> []\<close> bl have "last buf \<in> set (incompleteLineBuffer b)"
          by (simp add: buf_def)
        with Cons.prems(5) show ?thesis by auto
      next
        case False
        with t show ?thesis by (simp add: buf_def)
      qed
      with bl \<open>L \<noteq> []\<close> show ?thesis by simp
    qed
  qed
  have pre: "hasOutputCallback b'" "rawDataPos b' = length (rawData b')"
    "\<forall>bytes\<in>set chunks. bytes \<noteq> []"
    "CR \<notin> set (incompleteLineBuffer b')" "LF \<notin> set (incompleteLineBuffer b')"
    using Cons.prems(1,3) Rt by (simp_all add: b'_def)
  note IH = Cons.IH [OF pre(1,2,3) rest pre(4,5) inv]
  have cb: "codec b' = codec b" "codecState b' = snd dec" "incompleteLineBuffer b' = R"
    "rawData b' = rawData b @ bytes"
    by (simp_all add: b'_def)
  have outs: "concat (snd (appendAll b (bytes # chunks))) = normalizeNewlines L @ concat (snd (appendAll b' chunks))"
    and fin: "fst (appendAll b (bytes # chunks)) = fst (appendAll b' chunks)"
    using ap by (simp_all add: split_beta)
  have dc: "concat (decodedChunks (codec b) (codecState b) (bytes # chunks)) =
      fst dec @ concat (decodedChunks (codec b) (snd dec) chunks)"
    by (simp add: dec_def split_beta)
  have "normalizeNewlines D @ concat (snd (appendAll b (bytes # chunks))) @
           incompleteLineBuffer (fst (appendAll b (bytes # chunks))) =
        normalizeNewlines (D @ L) @ concat (snd (appendAll b' chunks)) @
           incompleteLineBuffer (fst (appendAll b' chunks))"
    unfolding outs fin DL by simp
  also have "\<dots> = normalizeNewlines ((D @ L) @ R @ concat (decodedChunks (codec b) (snd dec) chunks))"
    using IH by (simp add: cb)
  also have "(D @ L) @ R @ concat (decodedChunks (codec b) (snd dec) chunks) =
      D @ incompleteLineBuffer b @ concat (decodedChunks (codec b) (codecState b) (bytes # chunks))"
  proof -
    have "(D @ L) @ R @ concat (decodedChunks (codec b) (snd dec) chunks) =
        D @ (L @ R) @ concat (decodedChunks (codec b) (snd dec) chunks)" by simp
    also have "\<dots> = D @ (incompleteLineBuffer b @ fst dec) @
        concat (decodedChunks (codec b) (snd dec) chunks)"
      unfolding LR buf_def ..
    also have "\<dots> = D @ incompleteLineBuffer b @
        concat (decodedChunks (codec b) (codecState b) (bytes # chunks))"
      unfolding dc by simp
    finally show ?thesis .
  qed
  finally have "normalizeNewlines D @ concat (snd (appendAll b (bytes # chunks))) @
           incompleteLineBuffer (fst (appendAll b (bytes # chunks))) =
         normalizeNewlines (D @ incompleteLineBuffer b @
           concat (decodedChunks (codec b) (codecState b) (bytes # chunks)))" .
  moreover have "rawData (fst (appendAll b (bytes # chunks))) = rawData b @ concat (bytes # chunks)"
    unfolding fin using IH by (simp add: cb)
  moreover have "CR \<notin> set (incompleteLineBuffer (fst (appendAll b (bytes # chunks))))"
    "LF \<notin> set (incompleteLineBuffer (fst (appendAll b (bytes # chunks))))"
    unfolding fin using IH by simp_all
  ultimately show ?case by blast
qed

lemma streaming_latin1Codec: "streaming latin1Codec"
  by (simp add: streaming_def latin1Codec_def)

text \<open>
  Claim C7, as the code has it. Let the output arrive in non-empty chunks, decoded by a
  streaming codec, such that no chunk's text ends in a carriage return. Then the lines
  that \<^verbatim>\<open>ChannelBuffer::append\<close> hands to the callback, one chunk after the other, followed by
  the incomplete line that stays in the buffer, are together the text that \<^verbatim>\<open>stdOut\<close>
  makes of the raw data at the end: \<^verbatim>\<open>normalizeNewlines\<close> applied once to the whole decoded
  text. The incomplete line, which has no line terminator, is not handed to the callback.
\<close>

theorem appendAll_agrees_with_stdOut:
  assumes "streaming c"
    and "\<forall>bytes\<in>set chunks. bytes \<noteq> []"
    and "\<forall>t\<in>set (decodedChunks c (freshState c) chunks). t = [] \<or> last t \<noteq> CR"
    and "rawStdOut r = rawData (fst (appendAll (bufferForRun c) chunks))"
  shows "concat (snd (appendAll (bufferForRun c) chunks)) @
           incompleteLineBuffer (fst (appendAll (bufferForRun c) chunks)) = stdOut c r \<and>
         CR \<notin> set (incompleteLineBuffer (fst (appendAll (bufferForRun c) chunks))) \<and>
         LF \<notin> set (incompleteLineBuffer (fst (appendAll (bufferForRun c) chunks)))"
proof -
  let ?b = "bufferForRun c"
  have b: "hasOutputCallback ?b" "rawDataPos ?b = length (rawData ?b)" "codec ?b = c"
    "codecState ?b = freshState c" "incompleteLineBuffer ?b = []" "rawData ?b = []"
    by (simp_all add: bufferForRun_def clearForRun_def)
  have inv: "normalizeNewlines [] @ concat (snd (appendAll ?b chunks)) @
           incompleteLineBuffer (fst (appendAll ?b chunks)) =
         normalizeNewlines ([] @ incompleteLineBuffer ?b @
           concat (decodedChunks (codec ?b) (codecState ?b) chunks)) \<and>
       rawData (fst (appendAll ?b chunks)) = rawData ?b @ concat chunks \<and>
       CR \<notin> set (incompleteLineBuffer (fst (appendAll ?b chunks))) \<and>
       LF \<notin> set (incompleteLineBuffer (fst (appendAll ?b chunks)))"
    using b assms(2,3) by (intro appendAll_invariant) simp_all
  then have "rawData (fst (appendAll ?b chunks)) = concat chunks" by (simp add: b)
  with assms(4) have "stdOut c r = normalizeNewlines (fst (toUnicode c (concat chunks) (freshState c)))"
    by (simp add: stdOut_def toUnicodeAll_def)
  also have "\<dots> = normalizeNewlines (concat (decodedChunks c (freshState c) chunks))"
    using decodedChunks_concat [OF assms(1)] by simp
  finally show ?thesis using inv by (simp add: b)
qed

theorem appendAll_agrees_with_stdOut_witness:
  "concat (snd (appendAll (bufferForRun latin1Codec)
       [[0x61, 0x62, 0x0D, 0x0A, 0x63], [0x64, 0x0A], [0x65, 0x66]])) @
     incompleteLineBuffer (fst (appendAll (bufferForRun latin1Codec)
       [[0x61, 0x62, 0x0D, 0x0A, 0x63], [0x64, 0x0A], [0x65, 0x66]])) =
   stdOut latin1Codec
     \<lparr>result = Finished, exitCode = 0,
      rawStdOut = [0x61, 0x62, 0x0D, 0x0A, 0x63, 0x64, 0x0A, 0x65, 0x66], rawStdErr = []\<rparr> \<and>
   concat (snd (appendAll (bufferForRun latin1Codec)
       [[0x61, 0x62, 0x0D, 0x0A, 0x63], [0x64, 0x0A], [0x65, 0x66]])) =
     [0x61, 0x62, LF, 0x63, 0x64, LF]"
proof -
  let ?chunks = "[[0x61, 0x62, 0x0D, 0x0A, 0x63], [0x64, 0x0A], [0x65, 0x66]] :: 8 word list list"
  let ?r = "\<lparr>result = Finished, exitCode = 0,
      rawStdOut = [0x61, 0x62, 0x0D, 0x0A, 0x63, 0x64, 0x0A, 0x65, 0x66], rawStdErr = []\<rparr>"
  have 1: "\<forall>bytes\<in>set ?chunks. bytes \<noteq> []" by simp
  have 2: "\<forall>t\<in>set (decodedChunks latin1Codec (freshState latin1Codec) ?chunks). t = [] \<or> last t \<noteq> CR"
    by code_simp
  have 3: "rawStdOut ?r = rawData (fst (appendAll (bufferForRun latin1Codec) ?chunks))"
    by code_simp
  have 4: "concat (snd (appendAll (bufferForRun latin1Codec) ?chunks)) = [0x61, 0x62, LF, 0x63, 0x64, LF]"
    by code_simp
  from appendAll_agrees_with_stdOut [OF streaming_latin1Codec 1 2 3] 4 show ?thesis by blast
qed

text \<open>The claim as stated, for any partition and for the delivered chunks alone, fails: a
  carriage return at the end of one chunk and the line feed at the start of the next are
  both delivered, and a text without a line terminator is not delivered at all.\<close>

theorem appendAll_agrees_with_stdOut_counterexample:
  "concat (snd (appendAll (bufferForRun latin1Codec) [[0x61, 0x0D], [0x0A, 0x62, 0x0A]])) =
     [0x61, CR, LF, 0x62, LF] \<and>
   stdOut latin1Codec
     \<lparr>result = Finished, exitCode = 0,
      rawStdOut = rawData (fst (appendAll (bufferForRun latin1Codec) [[0x61, 0x0D], [0x0A, 0x62, 0x0A]])),
      rawStdErr = []\<rparr> = [0x61, LF, 0x62, LF] \<and>
   concat (snd (appendAll (bufferForRun latin1Codec) [[0x61, 0x62]])) = [] \<and>
   stdOut latin1Codec
     \<lparr>result = Finished, exitCode = 0,
      rawStdOut = rawData (fst (appendAll (bufferForRun latin1Codec) [[0x61, 0x62]])),
      rawStdErr = []\<rparr> = [0x61, 0x62]"
  by code_simp

section \<open>Properties of macro expansion\<close>















text \<open>The scanner steps over the character behind a dollar sign, so a macro behind the
  two characters \<^verbatim>\<open>$\\\<close> is expanded.\<close>

lemma expandMacros_dollar_backslash:
  "expandMacros (charMacro 0x58 (fromLatin1 ''v w'')) () (DOLLAR # BSLASH # [0x58]) OsTypeLinux =
     Some (Done (True, DOLLAR # BSLASH # SQUOTE # fromLatin1 ''v w'' @ [SQUOTE]))"
  by code_simp


end
